theory Spec2Isabelle
  imports Main "HOL-Library.Word" "HOL-Library.Monad_Syntax"
begin

section \<open>The sentinel tree of source/rb\_tree.hpp\<close>

text \<open>
  A \<open>NodeBase<T>*\<close> of one tree is either the address of the tree's own member
  \<open>nil_\<close> or the address of a \<open>Node<T>\<close> that \<open>new\<close> returned; the two
  never coincide. Pointers are therefore \<open>Nil\<close> (the address \<open>&nil_\<close>) or
  \<open>Ref a\<close> for a 64-bit address \<open>a\<close> of the free store. Reading or writing
  through a pointer to a node that is not live is undefined behaviour in the source and
  the value \<open>None\<close> here; so is a failed \<open>assert\<close>, and so is a loop that does
  not return. \<open>size_t\<close> is a 64-bit word.
\<close>

datatype Color = RED | BLACK

type_synonym addr = "64 word"

datatype ptr = Nil | Ref addr

record NodeBase =
  m_color :: Color
  m_left :: ptr
  m_right :: ptr
  m_parent :: ptr

record 'a Node =
  base :: NodeBase
  m_value :: 'a

record 'a Tree =
  m_nil :: NodeBase
  m_root :: ptr
  heap :: "addr \<Rightarrow> 'a Node option"

record LocateResult =
  lr_parent :: ptr
  lr_exists :: bool
  lr_go_left :: bool

record EraseContext =
  fixup_node :: ptr
  removed_color :: Color

definition deref :: "ptr \<Rightarrow> 'a Tree \<Rightarrow> NodeBase option" where
  "deref p t = (case p of Nil \<Rightarrow> Some (m_nil t) | Ref a \<Rightarrow> map_option base (heap t a))"

definition modify :: "ptr \<Rightarrow> (NodeBase \<Rightarrow> NodeBase) \<Rightarrow> 'a Tree \<Rightarrow> 'a Tree option" where
  "modify p f t =
     (case p of
        Nil \<Rightarrow> Some (t\<lparr>m_nil := f (m_nil t)\<rparr>)
      | Ref a \<Rightarrow>
          (case heap t a of
             None \<Rightarrow> None
           | Some n \<Rightarrow> Some (t\<lparr>heap := (heap t)(a \<mapsto> n\<lparr>base := f (base n)\<rparr>)\<rparr>)))"

definition color :: "ptr \<Rightarrow> 'a Tree \<Rightarrow> Color option" where
  "color p t = map_option m_color (deref p t)"

definition left_child :: "ptr \<Rightarrow> 'a Tree \<Rightarrow> ptr option" where
  "left_child p t = map_option m_left (deref p t)"

definition right_child :: "ptr \<Rightarrow> 'a Tree \<Rightarrow> ptr option" where
  "right_child p t = map_option m_right (deref p t)"

definition parent :: "ptr \<Rightarrow> 'a Tree \<Rightarrow> ptr option" where
  "parent p t = map_option m_parent (deref p t)"

definition set_color :: "ptr \<Rightarrow> Color \<Rightarrow> 'a Tree \<Rightarrow> 'a Tree option" where
  "set_color p c t = modify p (\<lambda>n. n\<lparr>m_color := c\<rparr>) t"

definition set_left_child :: "ptr \<Rightarrow> ptr \<Rightarrow> 'a Tree \<Rightarrow> 'a Tree option" where
  "set_left_child p l t = modify p (\<lambda>n. n\<lparr>m_left := l\<rparr>) t"

definition set_right_child :: "ptr \<Rightarrow> ptr \<Rightarrow> 'a Tree \<Rightarrow> 'a Tree option" where
  "set_right_child p r t = modify p (\<lambda>n. n\<lparr>m_right := r\<rparr>) t"

definition set_parent :: "ptr \<Rightarrow> ptr \<Rightarrow> 'a Tree \<Rightarrow> 'a Tree option" where
  "set_parent p q t = modify p (\<lambda>n. n\<lparr>m_parent := q\<rparr>) t"

text \<open>\<open>as_node(p)->value()\<close>: the sentinel is a bare \<open>NodeBase\<close> and has no value.\<close>

definition value_of :: "ptr \<Rightarrow> 'a Tree \<Rightarrow> 'a option" where
  "value_of p t = (case p of Nil \<Rightarrow> None | Ref a \<Rightarrow> map_option m_value (heap t a))"

text \<open>\<open>new Node<T>(v, c, l, r, p)\<close>, where \<open>a\<close> is the address the allocator returns.\<close>

definition new_Node :: "addr \<Rightarrow> 'a \<Rightarrow> Color \<Rightarrow> ptr \<Rightarrow> ptr \<Rightarrow> ptr \<Rightarrow> 'a Tree \<Rightarrow> 'a Tree" where
  "new_Node a v c l r p t =
     t\<lparr>heap := (heap t)(a \<mapsto> \<lparr>base = \<lparr>m_color = c, m_left = l, m_right = r, m_parent = p\<rparr>, m_value = v\<rparr>)\<rparr>"

text \<open>\<open>delete as_node(p)\<close>.\<close>

definition delete_node :: "ptr \<Rightarrow> 'a Tree \<Rightarrow> 'a Tree option" where
  "delete_node p t =
     (case p of
        Nil \<Rightarrow> None
      | Ref a \<Rightarrow> (case heap t a of None \<Rightarrow> None | Some n \<Rightarrow> Some (t\<lparr>heap := (heap t)(a := None)\<rparr>)))"

definition reset_nil_links :: "'a Tree \<Rightarrow> 'a Tree" where
  "reset_nil_links t = t\<lparr>m_nil := \<lparr>m_color = BLACK, m_left = Nil, m_right = Nil, m_parent = Nil\<rparr>\<rparr>"

text \<open>The constructor \<open>Tree()\<close>, on an empty free store.\<close>

definition Tree_new :: "'a Tree" where
  "Tree_new =
     reset_nil_links
       \<lparr>m_nil = \<lparr>m_color = BLACK, m_left = Nil, m_right = Nil, m_parent = Nil\<rparr>,
        m_root = Nil, heap = (\<lambda>a. None)\<rparr>"

definition is_empty :: "'a Tree \<Rightarrow> bool" where
  "is_empty t = (m_root t = Nil)"

definition color_of :: "ptr \<Rightarrow> 'a Tree \<Rightarrow> Color option" where
  "color_of node t = (if node = Nil then Some BLACK else color node t)"

partial_function (option) locate_loop ::
  "'a::linorder \<Rightarrow> ptr \<Rightarrow> ptr \<Rightarrow> bool \<Rightarrow> 'a Tree \<Rightarrow> LocateResult option" where
  "locate_loop v current par go t =
     (if current \<noteq> Nil then do {
        cv \<leftarrow> value_of current t;
        if v < cv then do {
          l \<leftarrow> left_child current t;
          locate_loop v l current True t }
        else if cv < v then do {
          r \<leftarrow> right_child current t;
          locate_loop v r current False t }
        else Some \<lparr>lr_parent = current, lr_exists = True, lr_go_left = False\<rparr> }
      else Some \<lparr>lr_parent = par, lr_exists = False, lr_go_left = go\<rparr>)"

declare locate_loop.simps [code]

definition locate :: "'a::linorder \<Rightarrow> 'a Tree \<Rightarrow> LocateResult option" where
  "locate v t = locate_loop v (m_root t) Nil False t"

definition rotate_left :: "ptr \<Rightarrow> 'a Tree \<Rightarrow> 'a Tree option" where
  "rotate_left node t = do {
     pivot \<leftarrow> right_child node t;
     if pivot = Nil then None else do {
       np \<leftarrow> parent node t;
       t \<leftarrow> set_parent pivot np t;
       np \<leftarrow> parent node t;
       t \<leftarrow> (if np = Nil then set_parent pivot Nil (t\<lparr>m_root := pivot\<rparr>)
             else do {
               npl \<leftarrow> left_child np t;
               if node = npl then set_left_child np pivot t
               else set_right_child np pivot t });
       pl \<leftarrow> left_child pivot t;
       t \<leftarrow> set_right_child node pl t;
       pl \<leftarrow> left_child pivot t;
       t \<leftarrow> (if pl \<noteq> Nil then set_parent pl node t else Some t);
       t \<leftarrow> set_left_child pivot node t;
       set_parent node pivot t } }"

definition rotate_right :: "ptr \<Rightarrow> 'a Tree \<Rightarrow> 'a Tree option" where
  "rotate_right node t = do {
     pivot \<leftarrow> left_child node t;
     if pivot = Nil then None else do {
       np \<leftarrow> parent node t;
       t \<leftarrow> set_parent pivot np t;
       np \<leftarrow> parent node t;
       t \<leftarrow> (if np = Nil then set_parent pivot Nil (t\<lparr>m_root := pivot\<rparr>)
             else do {
               npl \<leftarrow> left_child np t;
               if node = npl then set_left_child np pivot t
               else set_right_child np pivot t });
       pr \<leftarrow> right_child pivot t;
       t \<leftarrow> set_left_child node pr t;
       pr \<leftarrow> right_child pivot t;
       t \<leftarrow> (if pr \<noteq> Nil then set_parent pr node t else Some t);
       t \<leftarrow> set_right_child pivot node t;
       set_parent node pivot t } }"

definition grandparent :: "ptr \<Rightarrow> 'a Tree \<Rightarrow> ptr option" where
  "grandparent node t = do {
     p \<leftarrow> parent node t;
     if p = Nil then Some Nil else parent p t }"

definition uncle :: "ptr \<Rightarrow> 'a Tree \<Rightarrow> ptr option" where
  "uncle node t = do {
     grand \<leftarrow> grandparent node t;
     if grand = Nil then Some Nil
     else do {
       p \<leftarrow> parent node t;
       gl \<leftarrow> left_child grand t;
       if p = gl then right_child grand t else left_child grand t } }"

definition insert_case5 :: "ptr \<Rightarrow> 'a Tree \<Rightarrow> 'a Tree option" where
  "insert_case5 node t = do {
     p \<leftarrow> parent node t;
     grand \<leftarrow> grandparent node t;
     t \<leftarrow> set_color p BLACK t;
     t \<leftarrow> set_color grand RED t;
     pl \<leftarrow> left_child p t;
     gl \<leftarrow> left_child grand t;
     if node = pl \<and> p = gl then rotate_right grand t
     else do {
       pr \<leftarrow> right_child p t;
       gr \<leftarrow> right_child grand t;
       if node = pr \<and> p = gr then rotate_left grand t else Some t } }"

definition insert_case4 :: "ptr \<Rightarrow> 'a Tree \<Rightarrow> 'a Tree option" where
  "insert_case4 node t = do {
     p \<leftarrow> parent node t;
     grand \<leftarrow> grandparent node t;
     pr \<leftarrow> right_child p t;
     gl \<leftarrow> left_child grand t;
     if node = pr \<and> p = gl then do {
       t \<leftarrow> rotate_left p t;
       node \<leftarrow> left_child node t;
       insert_case5 node t }
     else do {
       pl \<leftarrow> left_child p t;
       gr \<leftarrow> right_child grand t;
       if node = pl \<and> p = gr then do {
         t \<leftarrow> rotate_right p t;
         node \<leftarrow> right_child node t;
         insert_case5 node t }
       else insert_case5 node t } }"

text \<open>
  \<open>insert_case1\<close>, \<open>insert_case2\<close> and \<open>insert_case3\<close> call each other in a
  cycle. The recursive definition holds the three bodies in their order; the two inner
  ones are then named, and \<open>insert_case1_unfold\<close> below gives the source's shape back.
\<close>

partial_function (option) insert_case1 :: "ptr \<Rightarrow> 'a Tree \<Rightarrow> 'a Tree option" where
  "insert_case1 node t = do {
     p \<leftarrow> parent node t;
     if p = Nil then do {
       t \<leftarrow> set_color node BLACK t;
       Some (t\<lparr>m_root := node\<rparr>) }
     else do {
       p \<leftarrow> parent node t;
       pc \<leftarrow> color p t;
       if pc = BLACK then Some t
       else do {
         u \<leftarrow> uncle node t;
         red_uncle \<leftarrow> (if u \<noteq> Nil then map_option (\<lambda>c. c = RED) (color u t) else Some False);
         if red_uncle then do {
           p \<leftarrow> parent node t;
           t \<leftarrow> set_color p BLACK t;
           t \<leftarrow> set_color u BLACK t;
           g \<leftarrow> grandparent node t;
           t \<leftarrow> set_color g RED t;
           insert_case1 g t }
         else insert_case4 node t } } }"

declare insert_case1.simps [code]

definition insert_case3 :: "ptr \<Rightarrow> 'a Tree \<Rightarrow> 'a Tree option" where
  "insert_case3 node t = do {
     u \<leftarrow> uncle node t;
     red_uncle \<leftarrow> (if u \<noteq> Nil then map_option (\<lambda>c. c = RED) (color u t) else Some False);
     if red_uncle then do {
       p \<leftarrow> parent node t;
       t \<leftarrow> set_color p BLACK t;
       t \<leftarrow> set_color u BLACK t;
       g \<leftarrow> grandparent node t;
       t \<leftarrow> set_color g RED t;
       insert_case1 g t }
     else insert_case4 node t }"

definition insert_case2 :: "ptr \<Rightarrow> 'a Tree \<Rightarrow> 'a Tree option" where
  "insert_case2 node t = do {
     p \<leftarrow> parent node t;
     pc \<leftarrow> color p t;
     if pc = BLACK then Some t else insert_case3 node t }"

text \<open>\<open>insert(value)\<close>; \<open>a\<close> is the address \<open>new\<close> returns when it is called.\<close>

definition insert_rb :: "'a::linorder \<Rightarrow> addr \<Rightarrow> 'a Tree \<Rightarrow> (bool \<times> 'a Tree) option" where
  "insert_rb v a t = do {
     result \<leftarrow> locate v t;
     if lr_exists result then Some (False, t)
     else do {
       let par = lr_parent result;
       let t = new_Node a v RED Nil Nil par t;
       let new_node = Ref a;
       t \<leftarrow> (if par = Nil then Some (t\<lparr>m_root := new_node\<rparr>)
             else if lr_go_left result then set_left_child par new_node t
             else set_right_child par new_node t);
       t \<leftarrow> insert_case1 new_node t;
       Some (True, t) } }"

partial_function (option) minimum :: "ptr \<Rightarrow> 'a Tree \<Rightarrow> ptr option" where
  "minimum node t = do {
     l \<leftarrow> left_child node t;
     if l \<noteq> Nil then minimum l t else Some node }"

declare minimum.simps [code]

definition transplant :: "ptr \<Rightarrow> ptr \<Rightarrow> 'a Tree \<Rightarrow> 'a Tree option" where
  "transplant u v t = do {
     up \<leftarrow> parent u t;
     t \<leftarrow> (if up = Nil then Some (t\<lparr>m_root := v\<rparr>)
           else do {
             upl \<leftarrow> left_child up t;
             if u = upl then set_left_child up v t else set_right_child up v t });
     up \<leftarrow> parent u t;
     set_parent v up t }"

definition detach_erase_target :: "ptr \<Rightarrow> 'a Tree \<Rightarrow> (EraseContext \<times> 'a Tree) option" where
  "detach_erase_target node t = do {
     rc \<leftarrow> color node t;
     nl \<leftarrow> left_child node t;
     if nl = Nil then do {
       fx \<leftarrow> right_child node t;
       t \<leftarrow> transplant node fx t;
       Some (\<lparr>fixup_node = fx, removed_color = rc\<rparr>, t) }
     else do {
       nr \<leftarrow> right_child node t;
       if nr = Nil then do {
         fx \<leftarrow> left_child node t;
         t \<leftarrow> transplant node fx t;
         Some (\<lparr>fixup_node = fx, removed_color = rc\<rparr>, t) }
       else do {
         successor \<leftarrow> minimum nr t;
         rc \<leftarrow> color successor t;
         fx \<leftarrow> right_child successor t;
         sp \<leftarrow> parent successor t;
         t \<leftarrow> (if sp = node then set_parent fx successor t
               else do {
                 sr \<leftarrow> right_child successor t;
                 t \<leftarrow> transplant successor sr t;
                 nr \<leftarrow> right_child node t;
                 t \<leftarrow> set_right_child successor nr t;
                 sr \<leftarrow> right_child successor t;
                 if sr \<noteq> Nil then set_parent sr successor t else Some t });
         t \<leftarrow> transplant node successor t;
         nl \<leftarrow> left_child node t;
         t \<leftarrow> set_left_child successor nl t;
         sl \<leftarrow> left_child successor t;
         t \<leftarrow> (if sl \<noteq> Nil then set_parent sl successor t else Some t);
         nc \<leftarrow> color node t;
         t \<leftarrow> set_color successor nc t;
         Some (\<lparr>fixup_node = fx, removed_color = rc\<rparr>, t) } } }"

definition erase_fixup_left :: "ptr \<Rightarrow> 'a Tree \<Rightarrow> (ptr \<times> 'a Tree) option" where
  "erase_fixup_left node t = do {
     p \<leftarrow> parent node t;
     sibling \<leftarrow> right_child p t;
     sc \<leftarrow> color_of sibling t;
     (sibling, t) \<leftarrow>
       (if sc = RED then do {
          t \<leftarrow> (if sibling \<noteq> Nil then set_color sibling BLACK t else Some t);
          p \<leftarrow> parent node t;
          t \<leftarrow> set_color p RED t;
          p \<leftarrow> parent node t;
          t \<leftarrow> rotate_left p t;
          p \<leftarrow> parent node t;
          sibling \<leftarrow> right_child p t;
          Some (sibling, t) }
        else Some (sibling, t));
     sl \<leftarrow> left_child sibling t;
     slc \<leftarrow> color_of sl t;
     sibling_children_black \<leftarrow>
       (if slc = BLACK then do {
          sr \<leftarrow> right_child sibling t;
          src \<leftarrow> color_of sr t;
          Some (src = BLACK) }
        else Some False);
     if sibling_children_black then do {
       t \<leftarrow> (if sibling \<noteq> Nil then set_color sibling RED t else Some t);
       p \<leftarrow> parent node t;
       Some (p, t) }
     else do {
       sr \<leftarrow> right_child sibling t;
       src \<leftarrow> color_of sr t;
       (sibling, t) \<leftarrow>
         (if src = BLACK then do {
            sl \<leftarrow> left_child sibling t;
            t \<leftarrow> (if sl \<noteq> Nil then set_color sl BLACK t else Some t);
            t \<leftarrow> (if sibling \<noteq> Nil then set_color sibling RED t else Some t);
            t \<leftarrow> rotate_right sibling t;
            p \<leftarrow> parent node t;
            sibling \<leftarrow> right_child p t;
            Some (sibling, t) }
          else Some (sibling, t));
       t \<leftarrow> (if sibling \<noteq> Nil then do {
               p \<leftarrow> parent node t;
               pc \<leftarrow> color p t;
               set_color sibling pc t }
             else Some t);
       p \<leftarrow> parent node t;
       t \<leftarrow> set_color p BLACK t;
       sr \<leftarrow> right_child sibling t;
       t \<leftarrow> (if sr \<noteq> Nil then set_color sr BLACK t else Some t);
       p \<leftarrow> parent node t;
       t \<leftarrow> rotate_left p t;
       Some (m_root t, t) } }"

definition erase_fixup_right :: "ptr \<Rightarrow> 'a Tree \<Rightarrow> (ptr \<times> 'a Tree) option" where
  "erase_fixup_right node t = do {
     p \<leftarrow> parent node t;
     sibling \<leftarrow> left_child p t;
     sc \<leftarrow> color_of sibling t;
     (sibling, t) \<leftarrow>
       (if sc = RED then do {
          t \<leftarrow> (if sibling \<noteq> Nil then set_color sibling BLACK t else Some t);
          p \<leftarrow> parent node t;
          t \<leftarrow> set_color p RED t;
          p \<leftarrow> parent node t;
          t \<leftarrow> rotate_right p t;
          p \<leftarrow> parent node t;
          sibling \<leftarrow> left_child p t;
          Some (sibling, t) }
        else Some (sibling, t));
     sr \<leftarrow> right_child sibling t;
     src \<leftarrow> color_of sr t;
     sibling_children_black \<leftarrow>
       (if src = BLACK then do {
          sl \<leftarrow> left_child sibling t;
          slc \<leftarrow> color_of sl t;
          Some (slc = BLACK) }
        else Some False);
     if sibling_children_black then do {
       t \<leftarrow> (if sibling \<noteq> Nil then set_color sibling RED t else Some t);
       p \<leftarrow> parent node t;
       Some (p, t) }
     else do {
       sl \<leftarrow> left_child sibling t;
       slc \<leftarrow> color_of sl t;
       (sibling, t) \<leftarrow>
         (if slc = BLACK then do {
            sr \<leftarrow> right_child sibling t;
            t \<leftarrow> (if sr \<noteq> Nil then set_color sr BLACK t else Some t);
            t \<leftarrow> (if sibling \<noteq> Nil then set_color sibling RED t else Some t);
            t \<leftarrow> rotate_left sibling t;
            p \<leftarrow> parent node t;
            sibling \<leftarrow> left_child p t;
            Some (sibling, t) }
          else Some (sibling, t));
       t \<leftarrow> (if sibling \<noteq> Nil then do {
               p \<leftarrow> parent node t;
               pc \<leftarrow> color p t;
               set_color sibling pc t }
             else Some t);
       p \<leftarrow> parent node t;
       t \<leftarrow> set_color p BLACK t;
       sl \<leftarrow> left_child sibling t;
       t \<leftarrow> (if sl \<noteq> Nil then set_color sl BLACK t else Some t);
       p \<leftarrow> parent node t;
       t \<leftarrow> rotate_right p t;
       Some (m_root t, t) } }"

partial_function (option) erase_fixup :: "ptr \<Rightarrow> 'a Tree \<Rightarrow> 'a Tree option" where
  "erase_fixup node t = do {
     continue \<leftarrow> (if node \<noteq> m_root t then map_option (\<lambda>c. c = BLACK) (color_of node t)
                  else Some False);
     if continue then do {
       p \<leftarrow> parent node t;
       pl \<leftarrow> left_child p t;
       (node, t) \<leftarrow> (if node = pl then erase_fixup_left node t else erase_fixup_right node t);
       erase_fixup node t }
     else set_color node BLACK t }"

declare erase_fixup.simps [code]

definition finalize_erase :: "EraseContext \<Rightarrow> 'a Tree \<Rightarrow> 'a Tree option" where
  "finalize_erase ctx t = do {
     t \<leftarrow> (if removed_color ctx = BLACK then erase_fixup (fixup_node ctx) t else Some t);
     if m_root t = Nil then Some (t\<lparr>m_root := Nil\<rparr>)
     else do {
       t \<leftarrow> set_parent (m_root t) Nil t;
       set_color (m_root t) BLACK t } }"

definition erase :: "'a::linorder \<Rightarrow> 'a Tree \<Rightarrow> (bool \<times> 'a Tree) option" where
  "erase v t = do {
     result \<leftarrow> locate v t;
     if \<not> lr_exists result then Some (False, t)
     else do {
       let target = lr_parent result;
       (ctx, t) \<leftarrow> detach_erase_target target t;
       t \<leftarrow> delete_node target t;
       t \<leftarrow> finalize_erase ctx t;
       Some (True, t) } }"

text \<open>
  \<open>validate_subtree(node, nil, black_height_out)\<close>: the last argument is what
  \<open>*black_height_out\<close> holds at the call, the second component of the result what it
  holds at the return. The black height is an \<open>int\<close> of the source; it stays far below
  \<open>2^31\<close> on every tree that fits the address space.
\<close>

partial_function (option) validate_subtree :: "ptr \<Rightarrow> 'a Tree \<Rightarrow> int \<Rightarrow> (bool \<times> int) option" where
  "validate_subtree node t black_height_out =
     (if node = Nil then Some (True, 1)
      else do {
        l \<leftarrow> left_child node t;
        r \<leftarrow> right_child node t;
        c \<leftarrow> color node t;
        red_red \<leftarrow>
          (if c = RED then do {
             lred \<leftarrow> (if l \<noteq> Nil then map_option (\<lambda>c. c = RED) (color l t) else Some False);
             if lred then Some True
             else if r \<noteq> Nil then map_option (\<lambda>c. c = RED) (color r t) else Some False }
           else Some False);
        if red_red then Some (False, black_height_out)
        else do {
          (okl, left_black_height) \<leftarrow> validate_subtree l t 0;
          if \<not> okl then Some (False, black_height_out)
          else do {
            (okr, right_black_height) \<leftarrow> validate_subtree r t 0;
            if \<not> okr then Some (False, black_height_out)
            else if left_black_height \<noteq> right_black_height then Some (False, black_height_out)
            else do {
              c \<leftarrow> color node t;
              Some (True, left_black_height + (if c = BLACK then 1 else 0)) } } } })"

declare validate_subtree.simps [code]

definition is_valid :: "'a Tree \<Rightarrow> bool option" where
  "is_valid t =
     (if m_root t = Nil then map_option (\<lambda>c. c = BLACK) (color (m_root t) t)
      else do {
        c \<leftarrow> color (m_root t) t;
        if c \<noteq> BLACK then Some False
        else map_option fst (validate_subtree (m_root t) t 0) })"

partial_function (option) subtree_size :: "ptr \<Rightarrow> 'a Tree \<Rightarrow> 64 word option" where
  "subtree_size node t =
     (if node = Nil then Some 0
      else do {
        l \<leftarrow> left_child node t;
        sl \<leftarrow> subtree_size l t;
        r \<leftarrow> right_child node t;
        sr \<leftarrow> subtree_size r t;
        Some (1 + sl + sr) })"

declare subtree_size.simps [code]

definition size_rb :: "'a Tree \<Rightarrow> 64 word option" where
  "size_rb t = subtree_size (m_root t) t"

partial_function (option) order_statistics_loop ::
  "'a::linorder \<Rightarrow> ptr \<Rightarrow> 64 word \<Rightarrow> 'a Tree \<Rightarrow> 64 word option" where
  "order_statistics_loop target current count t =
     (if current \<noteq> Nil then do {
        cv \<leftarrow> value_of current t;
        if target < cv then do {
          l \<leftarrow> left_child current t;
          order_statistics_loop target l count t }
        else if cv < target then do {
          l \<leftarrow> left_child current t;
          sl \<leftarrow> subtree_size l t;
          r \<leftarrow> right_child current t;
          order_statistics_loop target r (count + (sl + 1)) t }
        else do {
          l \<leftarrow> left_child current t;
          sl \<leftarrow> subtree_size l t;
          Some (count + sl) } }
      else Some count)"

declare order_statistics_loop.simps [code]

definition order_statistics :: "ptr \<Rightarrow> 'a::linorder Tree \<Rightarrow> 64 word option" where
  "order_statistics node t = do {
     target \<leftarrow> value_of node t;
     order_statistics_loop target (m_root t) 0 t }"

partial_function (option) rank_lower_bound_loop ::
  "'a::linorder \<Rightarrow> ptr \<Rightarrow> ptr \<Rightarrow> 'a Tree \<Rightarrow> ptr option" where
  "rank_lower_bound_loop v current candidate t =
     (if current \<noteq> Nil then do {
        cv \<leftarrow> value_of current t;
        if cv < v then do {
          r \<leftarrow> right_child current t;
          rank_lower_bound_loop v r candidate t }
        else do {
          l \<leftarrow> left_child current t;
          rank_lower_bound_loop v l current t } }
      else Some candidate)"

declare rank_lower_bound_loop.simps [code]

definition rank_lower_bound :: "'a::linorder \<Rightarrow> 'a Tree \<Rightarrow> 64 word option" where
  "rank_lower_bound v t = do {
     candidate \<leftarrow> rank_lower_bound_loop v (m_root t) Nil t;
     if candidate = Nil then size_rb t else order_statistics candidate t }"

partial_function (option) rank_upper_bound_loop ::
  "'a::linorder \<Rightarrow> ptr \<Rightarrow> ptr \<Rightarrow> 'a Tree \<Rightarrow> ptr option" where
  "rank_upper_bound_loop v current candidate t =
     (if current \<noteq> Nil then do {
        cv \<leftarrow> value_of current t;
        if v < cv then do {
          l \<leftarrow> left_child current t;
          rank_upper_bound_loop v l current t }
        else do {
          r \<leftarrow> right_child current t;
          rank_upper_bound_loop v r candidate t } }
      else Some candidate)"

declare rank_upper_bound_loop.simps [code]

definition rank_upper_bound :: "'a::linorder \<Rightarrow> 'a Tree \<Rightarrow> 64 word option" where
  "rank_upper_bound v t = do {
     candidate \<leftarrow> rank_upper_bound_loop v (m_root t) Nil t;
     if candidate = Nil then size_rb t else order_statistics candidate t }"

definition size_max :: "64 word" where
  "size_max = - 1"

definition distance :: "'a::linorder \<Rightarrow> 'a \<Rightarrow> 'a Tree \<Rightarrow> 64 word option" where
  "distance first second t = do {
     first_location \<leftarrow> locate first t;
     second_location \<leftarrow> locate second t;
     if \<not> lr_exists first_location \<or> \<not> lr_exists second_location then Some size_max
     else do {
       first_rank \<leftarrow> rank_lower_bound first t;
       second_rank \<leftarrow> rank_lower_bound second t;
       if first_rank \<ge> second_rank then Some 0
       else Some (second_rank - first_rank) } }"

definition distance_from_root :: "'a::linorder \<Rightarrow> 'a Tree \<Rightarrow> 64 word option" where
  "distance_from_root v t = do {
     location \<leftarrow> locate v t;
     if \<not> lr_exists location then Some size_max
     else rank_lower_bound v t }"

section \<open>The command interpreter\<close>

text \<open>
  The input stream is the string still to be read. \<open>input >> c\<close> for a \<open>char\<close> skips
  white space and takes one character; \<open>input >> n\<close> for an \<open>int\<close> skips white space and
  takes an optional sign and the longest run of decimal digits, and fails when there is no
  digit or the number does not fit 32 bits. Values of type \<open>int\<close> are only compared, so
  they are integers here. The free store hands out the addresses \<open>fresh 0\<close>,
  \<open>fresh 1\<close>, ..., one for each node that \<open>insert\<close> creates; \<open>n\<close> counts the
  nodes created so far.
\<close>

definition is_space :: "char \<Rightarrow> bool" where
  "is_space c = (c = CHR '' '' \<or> ((9::nat) \<le> of_char c \<and> of_char c \<le> (13::nat)))"

definition is_digit :: "char \<Rightarrow> bool" where
  "is_digit c = ((48::nat) \<le> of_char c \<and> of_char c \<le> (57::nat))"

definition skip_ws :: "string \<Rightarrow> string" where
  "skip_ws inp = dropWhile is_space inp"

definition read_char :: "string \<Rightarrow> (char \<times> string) option" where
  "read_char inp = (case skip_ws inp of [] \<Rightarrow> None | c # cs \<Rightarrow> Some (c, cs))"

definition digits_value :: "string \<Rightarrow> int" where
  "digits_value ds = foldl (\<lambda>n c. 10 * n + (int (of_char c) - 48)) 0 ds"

definition read_int :: "string \<Rightarrow> (int \<times> string) option" where
  "read_int inp =
     (let s = skip_ws inp;
          neg = (s \<noteq> [] \<and> hd s = CHR ''-'');
          s = (if s \<noteq> [] \<and> (hd s = CHR ''-'' \<or> hd s = CHR ''+'') then tl s else s);
          ds = takeWhile is_digit s;
          n = (if neg then - digits_value ds else digits_value ds)
      in if ds = [] \<or> n < - (2 ^ 31) \<or> 2 ^ 31 - 1 < n then None
         else Some (n, dropWhile is_digit s))"

text \<open>\<open>output << result\<close> for a \<open>size_t\<close>: the decimal digits.\<close>

fun dec_fuel :: "nat \<Rightarrow> nat \<Rightarrow> string" where
  "dec_fuel 0 n = []"
| "dec_fuel (Suc k) n =
     (if n < 10 then [char_of (48 + n)] else dec_fuel k (n div 10) @ [char_of (48 + n mod 10)])"

definition dec :: "64 word \<Rightarrow> string" where
  "dec w = dec_fuel 20 (unat w)"

definition handle_query ::
  "int Tree \<Rightarrow> int \<Rightarrow> int \<Rightarrow> bool \<Rightarrow> string \<Rightarrow> (bool \<times> string) option" where
  "handle_query tree left right first_output output = do {
     result \<leftarrow>
       (if right > left then do {
          right_rank \<leftarrow> rank_upper_bound right tree;
          left_rank \<leftarrow> rank_upper_bound left tree;
          Some (if right_rank > left_rank then right_rank - left_rank else 0) }
        else Some 0);
     let output = (if \<not> first_output then output @ '' '' else output);
     Some (False, output @ dec result) }"

text \<open>
  The loop of \<open>run_cli\<close>. The result is the exit code, the text written to
  \<open>output\<close> and the text written to \<open>error\<close>.
\<close>

partial_function (option) run_cli_loop ::
  "(nat \<Rightarrow> addr) \<Rightarrow> nat \<Rightarrow> string \<Rightarrow> int Tree \<Rightarrow> bool \<Rightarrow> string
     \<Rightarrow> (int \<times> string \<times> string) option" where
  "run_cli_loop fresh n input tree first_output output =
     (case read_char input of
        None \<Rightarrow> Some (0, if \<not> first_output then output @ [CHR 0x0A] else output, [])
      | Some (action, input) \<Rightarrow>
          if action = CHR ''k'' then
            (case read_int input of
               None \<Rightarrow> Some (1, output, ''Failed to read key value'' @ [CHR 0x0A])
             | Some (key, input) \<Rightarrow> do {
                 (inserted, tree) \<leftarrow> insert_rb key (fresh n) tree;
                 run_cli_loop fresh (if inserted then Suc n else n) input tree first_output output })
          else if action = CHR ''q'' then
            (case read_int input of
               None \<Rightarrow> Some (1, output, ''Failed to read query bounds'' @ [CHR 0x0A])
             | Some (left, input) \<Rightarrow>
                 (case read_int input of
                    None \<Rightarrow> Some (1, output, ''Failed to read query bounds'' @ [CHR 0x0A])
                  | Some (right, input) \<Rightarrow> do {
                      (first_output, output) \<leftarrow> handle_query tree left right first_output output;
                      run_cli_loop fresh n input tree first_output output }))
          else Some (1, output, ''Unknown command: '' @ [action, CHR 0x0A]))"

declare run_cli_loop.simps [code]

definition run_cli :: "(nat \<Rightarrow> addr) \<Rightarrow> string \<Rightarrow> (int \<times> string \<times> string) option" where
  "run_cli fresh input = run_cli_loop fresh 0 input Tree_new True []"

section \<open>Abstract trees, contexts and the relation to the store\<close>

datatype 'a tr = Lf | Nd "'a tr" addr Color 'a "'a tr"

datatype 'a frame = LF addr Color 'a "'a tr" | RF "'a tr" addr Color 'a

fun ptr_of :: "'a tr \<Rightarrow> ptr" where
  "ptr_of Lf = Nil"
| "ptr_of (Nd l a c v r) = Ref a"

fun col :: "'a tr \<Rightarrow> Color" where
  "col Lf = BLACK"
| "col (Nd l a c v r) = c"

fun paint :: "Color \<Rightarrow> 'a tr \<Rightarrow> 'a tr" where
  "paint c Lf = Lf"
| "paint c (Nd l a c' v r) = Nd l a c v r"

fun nodes :: "'a tr \<Rightarrow> (addr \<times> 'a) list" where
  "nodes Lf = []"
| "nodes (Nd l a c v r) = nodes l @ (a, v) # nodes r"

abbreviation addrs :: "'a tr \<Rightarrow> addr list" where
  "addrs t \<equiv> map fst (nodes t)"

abbreviation vals :: "'a tr \<Rightarrow> 'a list" where
  "vals t \<equiv> map snd (nodes t)"

fun plug1 :: "'a frame \<Rightarrow> 'a tr \<Rightarrow> 'a tr" where
  "plug1 (LF a c v r) t = Nd t a c v r"
| "plug1 (RF l a c v) t = Nd l a c v t"

fun plug :: "'a frame list \<Rightarrow> 'a tr \<Rightarrow> 'a tr" where
  "plug [] t = t"
| "plug (f # fs) t = plug fs (plug1 f t)"

fun faddr :: "'a frame \<Rightarrow> addr" where
  "faddr (LF a c v r) = a"
| "faddr (RF l a c v) = a"

fun fcol :: "'a frame \<Rightarrow> Color" where
  "fcol (LF a c v r) = c"
| "fcol (RF l a c v) = c"

fun fsib :: "'a frame \<Rightarrow> 'a tr" where
  "fsib (LF a c v r) = r"
| "fsib (RF l a c v) = l"

fun ptop :: "'a frame list \<Rightarrow> ptr" where
  "ptop [] = Nil"
| "ptop (f # fs) = Ref (faddr f)"

fun nbefore :: "'a frame list \<Rightarrow> (addr \<times> 'a) list" where
  "nbefore [] = []"
| "nbefore (LF a c v r # fs) = nbefore fs"
| "nbefore (RF l a c v # fs) = nbefore fs @ nodes l @ [(a, v)]"

fun nafter :: "'a frame list \<Rightarrow> (addr \<times> 'a) list" where
  "nafter [] = []"
| "nafter (LF a c v r # fs) = (a, v) # nodes r @ nafter fs"
| "nafter (RF l a c v # fs) = nafter fs"

abbreviation caddrs :: "'a frame list \<Rightarrow> addr list" where
  "caddrs fs \<equiv> map fst (nbefore fs @ nafter fs)"

text \<open>
  \<open>rel s par t\<close>: the store of \<open>s\<close> holds the nodes of \<open>t\<close>, each with the
  colour, the value and the three links the tree gives it; \<open>par\<close> is the parent link of
  the root of \<open>t\<close>. \<open>crel s fs p\<close> is the same for the nodes of a context whose hole
  holds the pointer \<open>p\<close>.
\<close>

fun rel :: "'a Tree \<Rightarrow> ptr \<Rightarrow> 'a tr \<Rightarrow> bool" where
  "rel s par Lf = True"
| "rel s par (Nd l a c v r) =
     (heap s a = Some \<lparr>base = \<lparr>m_color = c, m_left = ptr_of l, m_right = ptr_of r, m_parent = par\<rparr>,
                       m_value = v\<rparr>
      \<and> rel s (Ref a) l \<and> rel s (Ref a) r)"

fun crel :: "'a Tree \<Rightarrow> 'a frame list \<Rightarrow> ptr \<Rightarrow> bool" where
  "crel s [] p = True"
| "crel s (LF a c v r # fs) p =
     (heap s a = Some \<lparr>base = \<lparr>m_color = c, m_left = p, m_right = ptr_of r, m_parent = ptop fs\<rparr>,
                       m_value = v\<rparr>
      \<and> rel s (Ref a) r \<and> crel s fs (Ref a))"
| "crel s (RF l a c v # fs) p =
     (heap s a = Some \<lparr>base = \<lparr>m_color = c, m_left = ptr_of l, m_right = p, m_parent = ptop fs\<rparr>,
                       m_value = v\<rparr>
      \<and> rel s (Ref a) l \<and> crel s fs (Ref a))"

definition nil_ok :: "'a Tree \<Rightarrow> bool" where
  "nil_ok s = (m_color (m_nil s) = BLACK \<and> m_left (m_nil s) = Nil \<and> m_right (m_nil s) = Nil)"

text \<open>The state \<open>s\<close> holds the tree \<open>plug fs t\<close>, seen at the subtree \<open>t\<close>.\<close>

definition zst :: "'a Tree \<Rightarrow> 'a frame list \<Rightarrow> 'a tr \<Rightarrow> bool" where
  "zst s fs t =
     (m_root s = ptr_of (plug fs t) \<and> crel s fs (ptr_of t) \<and> rel s (ptop fs) t
      \<and> distinct (addrs t @ caddrs fs) \<and> nil_ok s)"

definition abs_tree :: "'a Tree \<Rightarrow> 'a tr \<Rightarrow> bool" where
  "abs_tree s t = zst s [] t"

text \<open>The red-black invariants, with the black height \<open>validate_subtree\<close> computes.\<close>

fun bh :: "'a tr \<Rightarrow> nat" where
  "bh Lf = 1"
| "bh (Nd l a c v r) = bh l + (if c = BLACK then 1 else 0)"

fun invh :: "'a tr \<Rightarrow> bool" where
  "invh Lf = True"
| "invh (Nd l a c v r) = (invh l \<and> invh r \<and> bh l = bh r)"

fun invc :: "'a tr \<Rightarrow> bool" where
  "invc Lf = True"
| "invc (Nd l a c v r) = ((c = BLACK \<or> (col l = BLACK \<and> col r = BLACK)) \<and> invc l \<and> invc r)"

definition rbt :: "'a tr \<Rightarrow> bool" where
  "rbt t = (col t = BLACK \<and> invc t \<and> invh t)"

definition bst :: "'a::linorder tr \<Rightarrow> bool" where
  "bst t = sorted_wrt (<) (vals t)"

text \<open>Total writes: what \<open>modify\<close> returns when the node is live.\<close>

definition upd :: "addr \<Rightarrow> (NodeBase \<Rightarrow> NodeBase) \<Rightarrow> 'a Tree \<Rightarrow> 'a Tree" where
  "upd a f s = s\<lparr>heap := (heap s)(a := map_option (\<lambda>n. n\<lparr>base := f (base n)\<rparr>) (heap s a))\<rparr>"


text \<open>The candidates the two rank loops end with, and where \<open>locate\<close> ends.\<close>

fun ub_node :: "'a::linorder \<Rightarrow> 'a tr \<Rightarrow> (addr \<times> 'a) option \<Rightarrow> (addr \<times> 'a) option" where
  "ub_node v Lf cand = cand"
| "ub_node v (Nd l a c x r) cand = (if v < x then ub_node v l (Some (a, x)) else ub_node v r cand)"

fun lb_node :: "'a::linorder \<Rightarrow> 'a tr \<Rightarrow> (addr \<times> 'a) option \<Rightarrow> (addr \<times> 'a) option" where
  "lb_node v Lf cand = cand"
| "lb_node v (Nd l a c x r) cand = (if x < v then lb_node v r cand else lb_node v l (Some (a, x)))"

fun cand_ptr :: "(addr \<times> 'a) option \<Rightarrow> ptr" where
  "cand_ptr None = Nil"
| "cand_ptr (Some (a, x)) = Ref a"

fun alocate :: "'a::linorder \<Rightarrow> 'a frame list \<Rightarrow> 'a tr \<Rightarrow> 'a frame list \<times> 'a tr" where
  "alocate v fs Lf = (fs, Lf)"
| "alocate v fs (Nd l a c x r) =
     (if v < x then alocate v (LF a c x r # fs) l
      else if x < v then alocate v (RF l a c x # fs) r
      else (fs, Nd l a c x r))"

fun goleft :: "'a frame list \<Rightarrow> bool" where
  "goleft (LF a c v r # fs) = True"
| "goleft fs = False"

definition locate_result :: "'a frame list \<times> 'a tr \<Rightarrow> LocateResult" where
  "locate_result z =
     (case z of (fs, t) \<Rightarrow>
        if t = Lf then \<lparr>lr_parent = ptop fs, lr_exists = False, lr_go_left = goleft fs\<rparr>
        else \<lparr>lr_parent = ptr_of t, lr_exists = True, lr_go_left = False\<rparr>)"

text \<open>On the way down every value left of the path is below \<open>v\<close> and every value right of it above.\<close>

definition path_ok :: "'a::linorder \<Rightarrow> 'a frame list \<Rightarrow> bool" where
  "path_ok v fs = ((\<forall>n \<in> set (nbefore fs). snd n < v) \<and> (\<forall>n \<in> set (nafter fs). v < snd n))"

text \<open>
  Insertion on the abstract tree. \<open>ins_fix fs t\<close> is the tree the walk of
  \<open>insert_case1\<close> to \<open>insert_case5\<close> leaves, started at the red subtree \<open>t\<close>
  below the context \<open>fs\<close>.
\<close>

fun fsetcol :: "Color \<Rightarrow> 'a frame \<Rightarrow> 'a frame" where
  "fsetcol k (LF a c v r) = LF a k v r"
| "fsetcol k (RF l a c v) = RF l a k v"

fun fpaintsib :: "Color \<Rightarrow> 'a frame \<Rightarrow> 'a frame" where
  "fpaintsib k (LF a c v r) = LF a c v (paint k r)"
| "fpaintsib k (RF l a c v) = RF (paint k l) a c v"

fun ins_rot :: "'a frame \<Rightarrow> 'a frame \<Rightarrow> 'a tr \<Rightarrow> 'a tr" where
  "ins_rot (LF p pc pv pr) (LF g gc gv u) n = Nd n p BLACK pv (Nd pr g RED gv u)"
| "ins_rot (RF pl p pc pv) (RF u g gc gv) n = Nd (Nd u g RED gv pl) p BLACK pv n"
| "ins_rot (RF pl p pc pv) (LF g gc gv u) (Nd nl n nc nv nr) =
     Nd (Nd pl p pc pv nl) n BLACK nv (Nd nr g RED gv u)"
| "ins_rot (LF p pc pv pr) (RF u g gc gv) (Nd nl n nc nv nr) =
     Nd (Nd u g RED gv nl) n BLACK nv (Nd nr p pc pv pr)"
| "ins_rot f g Lf = plug1 g (plug1 f Lf)"

fun ins_fix :: "'a frame list \<Rightarrow> 'a tr \<Rightarrow> 'a tr" where
  "ins_fix [] t = paint BLACK t"
| "ins_fix [f] t = plug1 (fsetcol BLACK f) t"
| "ins_fix (f # g # fs) t =
     (if fcol f = BLACK then plug (f # g # fs) t
      else if col (fsib g) = RED then
        ins_fix fs (paint RED (plug1 (fpaintsib BLACK g) (plug1 (fsetcol BLACK f) t)))
      else plug fs (ins_rot f g t))"

definition ains :: "'a::linorder \<Rightarrow> addr \<Rightarrow> 'a tr \<Rightarrow> 'a tr" where
  "ains v a t =
     (case alocate v [] t of (fs, t') \<Rightarrow> if t' = Lf then ins_fix fs (Nd Lf a RED v Lf) else t)"

text \<open>
  \<open>cinv fs k\<close>: the context \<open>fs\<close> is that of a red-black tree around a subtree of
  black height \<open>k\<close>.
\<close>

fun cinv :: "'a frame list \<Rightarrow> nat \<Rightarrow> bool" where
  "cinv [] k = True"
| "cinv (f # fs) k =
     (invc (fsib f) \<and> invh (fsib f) \<and> bh (fsib f) = k
      \<and> (fcol f = BLACK \<or> (col (fsib f) = BLACK \<and> fs \<noteq> [] \<and> fcol (hd fs) = BLACK))
      \<and> cinv fs (k + (if fcol f = BLACK then 1 else 0)))"

fun hole_ok :: "'a frame list \<Rightarrow> 'a tr \<Rightarrow> bool" where
  "hole_ok [] t = (col t = BLACK)"
| "hole_ok (f # fs) t = (fcol f = BLACK \<or> col t = BLACK)"

section \<open>The invariant of a tree state, and an example\<close>

text \<open>
  \<open>tree_inv s t\<close>: the state \<open>s\<close> holds the red-black search tree \<open>t\<close>, and no node
  lives at the null address (\<open>new\<close> never returns it).
\<close>

definition tree_inv :: "'a::linorder Tree \<Rightarrow> 'a tr \<Rightarrow> bool" where
  "tree_inv s t = (abs_tree s t \<and> rbt t \<and> bst t \<and> 0 \<notin> fst ` set (nodes t))"

text \<open>The state after \<open>insert(20)\<close>, \<open>insert(10)\<close>, \<open>insert(30)\<close> with the nodes at the addresses 2, 1 and 3.\<close>

definition ex_tree :: "int tr" where
  "ex_tree = Nd (Nd Lf 1 RED 10 Lf) 2 BLACK 20 (Nd Lf 3 RED 30 Lf)"

definition ex_state :: "int Tree" where
  "ex_state =
     \<lparr>m_nil = \<lparr>m_color = BLACK, m_left = Nil, m_right = Nil, m_parent = Nil\<rparr>,
      m_root = Ref 2,
      heap = (\<lambda>a. None)
        (1 \<mapsto> \<lparr>base = \<lparr>m_color = RED, m_left = Nil, m_right = Nil, m_parent = Ref 2\<rparr>, m_value = 10\<rparr>,
         2 \<mapsto> \<lparr>base = \<lparr>m_color = BLACK, m_left = Ref 1, m_right = Ref 3, m_parent = Nil\<rparr>, m_value = 20\<rparr>,
         3 \<mapsto> \<lparr>base = \<lparr>m_color = RED, m_left = Nil, m_right = Nil, m_parent = Ref 2\<rparr>, m_value = 30\<rparr>)\<rparr>"


text \<open>
  Sequences of calls. \<open>Insert v a\<close> is \<open>insert(v)\<close> where \<open>a\<close> is the address
  \<open>new\<close> returns if the call allocates; \<open>run_calls\<close> runs a sequence and drops the
  booleans the calls return. \<open>alloc_ok cs s\<close> says that the addresses of the sequence are
  ones an allocator can return: not null and not live when the call is made.
\<close>

datatype 'a call = Insert 'a addr | Erase 'a

fun call_rb :: "'a::linorder call \<Rightarrow> 'a Tree \<Rightarrow> (bool \<times> 'a Tree) option" where
  "call_rb (Insert v a) s = insert_rb v a s"
| "call_rb (Erase v) s = erase v s"

fun run_calls :: "'a::linorder call list \<Rightarrow> 'a Tree \<Rightarrow> 'a Tree option" where
  "run_calls [] s = Some s"
| "run_calls (c # cs) s = do { (b, s') \<leftarrow> call_rb c s; run_calls cs s' }"

fun fresh_for :: "'a call \<Rightarrow> 'a Tree \<Rightarrow> bool" where
  "fresh_for (Insert v a) s = (heap s a = None \<and> a \<noteq> 0)"
| "fresh_for (Erase v) s = True"

fun alloc_ok :: "'a::linorder call list \<Rightarrow> 'a Tree \<Rightarrow> bool" where
  "alloc_ok [] s = True"
| "alloc_ok (c # cs) s =
     (fresh_for c s \<and> (case call_rb c s of None \<Rightarrow> True | Some (b, s') \<Rightarrow> alloc_ok cs s'))"

definition ex_calls :: "int call list" where
  "ex_calls = [Insert 20 2, Insert 10 1, Insert 30 3, Insert 10 4, Erase 20, Erase 7, Insert 25 2]"

text \<open>
  \<open>walk s p ds\<close> follows child links from \<open>p\<close>: \<open>True\<close> is a step to the left
  child, \<open>False\<close> one to the right child. The nodes reachable from the root are the
  \<open>Ref a\<close> that \<open>walk s (m_root s)\<close> ends at.
\<close>

fun walk :: "'a Tree \<Rightarrow> ptr \<Rightarrow> bool list \<Rightarrow> ptr option" where
  "walk s p [] = Some p"
| "walk s p (d # ds) = do {
     c \<leftarrow> (if d then left_child p s else right_child p s);
     walk s c ds }"

section \<open>Erasure: the abstract algorithm and the parts of the code\<close>

text \<open>
  Erasure on the abstract tree. \<open>amin fs t\<close> walks to the leftmost node of \<open>t\<close> as
  \<open>minimum\<close> does; \<open>adetach fs t\<close> is the context, the subtree and the colour
  \<open>detach_erase_target\<close> leaves for the fix-up: the subtree that took the place of the
  node that was unlinked, and the colour that node had.
\<close>

fun amin :: "'a frame list \<Rightarrow> 'a tr \<Rightarrow> 'a frame list \<times> 'a tr" where
  "amin fs Lf = (fs, Lf)"
| "amin fs (Nd Lf a c v r) = (fs, Nd Lf a c v r)"
| "amin fs (Nd (Nd ll b cb vb lr) a c v r) = amin (LF a c v r # fs) (Nd ll b cb vb lr)"

fun adetach :: "'a frame list \<Rightarrow> 'a tr \<Rightarrow> 'a frame list \<times> 'a tr \<times> Color" where
  "adetach fs Lf = (fs, Lf, BLACK)"
| "adetach fs (Nd l z c v r) =
     (if l = Lf then (fs, r, c)
      else if r = Lf then (fs, l, c)
      else (case amin [] r of
              (rfs, Nd yl y yc yv yr) \<Rightarrow> (rfs @ RF l y c yv # fs, yr, yc)
            | (rfs, Lf) \<Rightarrow> (fs, Lf, BLACK)))"

text \<open>
  One round of \<open>erase_fixup_left\<close> once the sibling is black: \<open>p\<close> is the parent with
  colour \<open>pc\<close>, the fourth argument the sibling, \<open>x\<close> the subtree that is one black node
  short. The result is the context and the subtree the loop goes on with.
\<close>

fun del_left :: "addr \<Rightarrow> Color \<Rightarrow> 'a \<Rightarrow> 'a tr \<Rightarrow> 'a frame list \<Rightarrow> 'a tr \<Rightarrow> 'a frame list \<times> 'a tr" where
  "del_left p pc pv Lf fs x = (fs, Nd x p pc pv Lf)"
| "del_left p pc pv (Nd wl w wc wv wr) fs x =
     (if col wl = BLACK \<and> col wr = BLACK then (fs, Nd x p pc pv (Nd wl w RED wv wr))
      else if col wr = BLACK then
        (case wl of
           Nd wll l wlc wlv wlr \<Rightarrow>
             ([], plug fs (Nd (Nd x p BLACK pv wll) l pc wlv (Nd wlr w BLACK wv wr)))
         | Lf \<Rightarrow> (fs, Nd x p pc pv (Nd wl w wc wv wr)))
      else ([], plug fs (Nd (Nd x p BLACK pv wl) w pc wv (paint BLACK wr))))"

fun del_right :: "addr \<Rightarrow> Color \<Rightarrow> 'a \<Rightarrow> 'a tr \<Rightarrow> 'a frame list \<Rightarrow> 'a tr \<Rightarrow> 'a frame list \<times> 'a tr" where
  "del_right p pc pv Lf fs x = (fs, Nd Lf p pc pv x)"
| "del_right p pc pv (Nd wl w wc wv wr) fs x =
     (if col wr = BLACK \<and> col wl = BLACK then (fs, Nd (Nd wl w RED wv wr) p pc pv x)
      else if col wl = BLACK then
        (case wr of
           Nd wrl r wrc wrv wrr \<Rightarrow>
             ([], plug fs (Nd (Nd wl w BLACK wv wrl) r pc wrv (Nd wrr p BLACK pv x)))
         | Lf \<Rightarrow> (fs, Nd (Nd wl w wc wv wr) p pc pv x))
      else ([], plug fs (Nd (paint BLACK wl) w pc wv (Nd wr p BLACK pv x))))"

text \<open>
  One round of the loop of \<open>erase_fixup\<close>: a red sibling is rotated above the parent
  first, then \<open>del_left\<close> or \<open>del_right\<close> goes on, by the side of the hole.
\<close>

fun efl :: "'a frame list \<Rightarrow> 'a tr \<Rightarrow> 'a frame list \<times> 'a tr" where
  "efl [] x = ([], x)"
| "efl (LF p pc pv (Nd wl w RED wv wr) # fs) x = del_left p RED pv wl (LF w BLACK wv wr # fs) x"
| "efl (LF p pc pv w # fs) x = del_left p pc pv w fs x"
| "efl (RF (Nd wl w RED wv wr) p pc pv # fs) x = del_right p RED pv wr (RF wl w BLACK wv # fs) x"
| "efl (RF w p pc pv # fs) x = del_right p pc pv w fs x"

text \<open>
  \<open>del_fix fs x\<close> is the tree the loop of \<open>erase_fixup\<close> leaves, started at the
  subtree \<open>x\<close> below the context \<open>fs\<close>. Every round shortens the context or ends
  the loop; \<open>del_measure\<close> is the measure of its termination.
\<close>

definition del_measure :: "'a frame list \<times> 'a tr \<Rightarrow> nat" where
  "del_measure z = (case z of (fs, x) \<Rightarrow> 2 * length fs + (if col x = BLACK then 1 else 0))"

function del_fix :: "'a frame list \<Rightarrow> 'a tr \<Rightarrow> 'a tr" where
  "del_fix fs x =
     (if fs \<noteq> [] \<and> col x = BLACK then (case efl fs x of (fs', x') \<Rightarrow> del_fix fs' x')
      else plug fs (paint BLACK x))"
  by pat_completeness auto
termination
proof (relation "measure del_measure", goal_cases)
  case 1
  show ?case by simp
next
  case (2 fs x z fs')
  have dl: "del_measure (del_left p pc pv w gs y) \<le> 2 * length gs + (if pc = BLACK then 1 else 0)"
    for p pc and pv :: 'a and w gs y
    by (cases "(p, pc, pv, w, gs, y)" rule: del_left.cases; cases gs)
       (auto simp: del_measure_def split: tr.splits)
  have dr: "del_measure (del_right p pc pv w gs y) \<le> 2 * length gs + (if pc = BLACK then 1 else 0)"
    for p pc and pv :: 'a and w gs y
    by (cases "(p, pc, pv, w, gs, y)" rule: del_right.cases; cases gs)
       (auto simp: del_measure_def split: tr.splits)
  have "del_measure (efl fs x) < 2 * length fs + 1"
  proof (cases "(fs, x)" rule: efl.cases, goal_cases)
    case (1 y)
    then show ?thesis using 2(1) by simp
  next
    case (2 p pc pv wl w wv wr gs y)
    then show ?thesis using dl[of p RED pv wl "LF w BLACK wv wr # gs" y] by simp
  next
    case (3 p pc pv gs y)
    then show ?thesis using dl[of p pc pv Lf gs y] by (simp split: if_splits)
  next
    case (4 p pc pv wl w wv wr gs y)
    then show ?thesis using dl[of p pc pv "Nd wl w BLACK wv wr" gs y] by (simp split: if_splits)
  next
    case (5 wl w wv wr p pc pv gs y)
    then show ?thesis using dr[of p RED pv wr "RF wl w BLACK wv # gs" y] by simp
  next
    case (6 p pc pv gs y)
    then show ?thesis using dr[of p pc pv Lf gs y] by (simp split: if_splits)
  next
    case (7 wl w wv wr p pc pv gs y)
    then show ?thesis using dr[of p pc pv "Nd wl w BLACK wv wr" gs y] by (simp split: if_splits)
  qed
  then have "del_measure (efl fs x) < del_measure (fs, x)"
    using 2(1) by (simp add: del_measure_def)
  then show ?case using 2 by simp
qed

declare del_fix.simps [simp del]

text \<open>\<open>erase(value)\<close> on the abstract tree.\<close>

definition aerase :: "'a::linorder \<Rightarrow> 'a tr \<Rightarrow> 'a tr" where
  "aerase v t =
     (case alocate v [] t of
        (fs, Lf) \<Rightarrow> t
      | (fs, Nd l z c x r) \<Rightarrow>
          (case adetach fs (Nd l z c x r) of
             (fs', x', rc) \<Rightarrow> paint BLACK (if rc = BLACK then del_fix fs' x' else plug fs' x')))"

text \<open>
  \<open>dinv fs x\<close>: the subtree \<open>x\<close> is one black node short of what its context
  \<open>fs\<close> expects, the state the loop of \<open>erase_fixup\<close> repairs.
\<close>

definition dinv :: "'a frame list \<Rightarrow> 'a tr \<Rightarrow> bool" where
  "dinv fs x = (invc (paint BLACK x) \<and> invh x \<and> cinv fs (Suc (bh x)))"

text \<open>
  The bodies of \<open>erase_fixup_left\<close> and \<open>erase_fixup_right\<close> in parts, for the
  proofs: \<open>_tail\<close> is the function from the read of the sibling's children on,
  \<open>_final\<close> its last recolouring and rotation. The lemmas \<open>erase_fixup_left_unfold\<close>
  and \<open>erase_fixup_right_unfold\<close> put the parts together again.
\<close>

definition erase_fixup_left_final :: "ptr \<Rightarrow> ptr \<Rightarrow> 'a Tree \<Rightarrow> (ptr \<times> 'a Tree) option" where
  "erase_fixup_left_final node sibling t = do {
     t \<leftarrow> (if sibling \<noteq> Nil then do {
             p \<leftarrow> parent node t;
             pc \<leftarrow> color p t;
             set_color sibling pc t }
           else Some t);
     p \<leftarrow> parent node t;
     t \<leftarrow> set_color p BLACK t;
     sr \<leftarrow> right_child sibling t;
     t \<leftarrow> (if sr \<noteq> Nil then set_color sr BLACK t else Some t);
     p \<leftarrow> parent node t;
     t \<leftarrow> rotate_left p t;
     Some (m_root t, t) }"

definition erase_fixup_left_tail :: "ptr \<Rightarrow> ptr \<Rightarrow> 'a Tree \<Rightarrow> (ptr \<times> 'a Tree) option" where
  "erase_fixup_left_tail node sibling t = do {
     sl \<leftarrow> left_child sibling t;
     slc \<leftarrow> color_of sl t;
     sibling_children_black \<leftarrow>
       (if slc = BLACK then do {
          sr \<leftarrow> right_child sibling t;
          src \<leftarrow> color_of sr t;
          Some (src = BLACK) }
        else Some False);
     if sibling_children_black then do {
       t \<leftarrow> (if sibling \<noteq> Nil then set_color sibling RED t else Some t);
       p \<leftarrow> parent node t;
       Some (p, t) }
     else do {
       sr \<leftarrow> right_child sibling t;
       src \<leftarrow> color_of sr t;
       (sibling, t) \<leftarrow>
         (if src = BLACK then do {
            sl \<leftarrow> left_child sibling t;
            t \<leftarrow> (if sl \<noteq> Nil then set_color sl BLACK t else Some t);
            t \<leftarrow> (if sibling \<noteq> Nil then set_color sibling RED t else Some t);
            t \<leftarrow> rotate_right sibling t;
            p \<leftarrow> parent node t;
            sibling \<leftarrow> right_child p t;
            Some (sibling, t) }
          else Some (sibling, t));
       erase_fixup_left_final node sibling t } }"

definition erase_fixup_right_final :: "ptr \<Rightarrow> ptr \<Rightarrow> 'a Tree \<Rightarrow> (ptr \<times> 'a Tree) option" where
  "erase_fixup_right_final node sibling t = do {
     t \<leftarrow> (if sibling \<noteq> Nil then do {
             p \<leftarrow> parent node t;
             pc \<leftarrow> color p t;
             set_color sibling pc t }
           else Some t);
     p \<leftarrow> parent node t;
     t \<leftarrow> set_color p BLACK t;
     sl \<leftarrow> left_child sibling t;
     t \<leftarrow> (if sl \<noteq> Nil then set_color sl BLACK t else Some t);
     p \<leftarrow> parent node t;
     t \<leftarrow> rotate_right p t;
     Some (m_root t, t) }"

definition erase_fixup_right_tail :: "ptr \<Rightarrow> ptr \<Rightarrow> 'a Tree \<Rightarrow> (ptr \<times> 'a Tree) option" where
  "erase_fixup_right_tail node sibling t = do {
     sr \<leftarrow> right_child sibling t;
     src \<leftarrow> color_of sr t;
     sibling_children_black \<leftarrow>
       (if src = BLACK then do {
          sl \<leftarrow> left_child sibling t;
          slc \<leftarrow> color_of sl t;
          Some (slc = BLACK) }
        else Some False);
     if sibling_children_black then do {
       t \<leftarrow> (if sibling \<noteq> Nil then set_color sibling RED t else Some t);
       p \<leftarrow> parent node t;
       Some (p, t) }
     else do {
       sl \<leftarrow> left_child sibling t;
       slc \<leftarrow> color_of sl t;
       (sibling, t) \<leftarrow>
         (if slc = BLACK then do {
            sr \<leftarrow> right_child sibling t;
            t \<leftarrow> (if sr \<noteq> Nil then set_color sr BLACK t else Some t);
            t \<leftarrow> (if sibling \<noteq> Nil then set_color sibling RED t else Some t);
            t \<leftarrow> rotate_left sibling t;
            p \<leftarrow> parent node t;
            sibling \<leftarrow> left_child p t;
            Some (sibling, t) }
          else Some (sibling, t));
       erase_fixup_right_final node sibling t } }"

text \<open>
  \<open>zctx s fs z\<close>: the node \<open>z\<close> hangs in the context \<open>fs\<close>, whatever its
  own children are. It is what \<open>transplant\<close> needs of the node it replaces.
\<close>

definition zctx :: "'a Tree \<Rightarrow> 'a frame list \<Rightarrow> addr \<Rightarrow> bool" where
  "zctx s fs z =
     (m_root s = (if fs = [] then Ref z else Ref (faddr (last fs)))
      \<and> crel s fs (Ref z)
      \<and> (\<exists>n. heap s z = Some n \<and> m_parent (base n) = ptop fs)
      \<and> distinct (z # caddrs fs) \<and> nil_ok s)"

text \<open>
  The last part of \<open>detach_erase_target\<close> when the node has two children: the
  successor takes the place, the left subtree and the colour of the node.
\<close>

definition detach_replace :: "ptr \<Rightarrow> ptr \<Rightarrow> 'a Tree \<Rightarrow> 'a Tree option" where
  "detach_replace node successor t = do {
     t \<leftarrow> transplant node successor t;
     nl \<leftarrow> left_child node t;
     t \<leftarrow> set_left_child successor nl t;
     sl \<leftarrow> left_child successor t;
     t \<leftarrow> (if sl \<noteq> Nil then set_parent sl successor t else Some t);
     nc \<leftarrow> color node t;
     set_color successor nc t }"

section \<open>The augmented tree of unnamed/part\_003\<close>

text \<open>
  The second version of the header keeps no sentinel: an absent child or parent is
  \<open>nullptr\<close>, here \<open>Nil\<close>, and every node stores the size of its subtree. Reading or
  writing through \<open>nullptr\<close> or through a pointer to a node that is not live is the
  value \<open>None\<close>, and so is a failed \<open>assert\<close>. The names of the first version that
  come again carry the suffix \<open>_aug\<close>.
\<close>

datatype Direction = LEFT | RIGHT

type_synonym size_t = "64 word"

record NodeBase_aug =
  n_color :: Color
  n_left :: ptr
  n_right :: ptr
  n_parent :: ptr
  n_subtree_size :: size_t

record 'a Node_aug =
  n_base :: NodeBase_aug
  n_value :: 'a

record 'a Tree_aug =
  root_aug :: ptr
  store :: "addr \<Rightarrow> 'a Node_aug option"

record DetachResult =
  dr_fixup :: ptr
  dr_parent :: ptr
  dr_removed_color :: Color

definition deref_aug :: "ptr \<Rightarrow> 'a Tree_aug \<Rightarrow> NodeBase_aug option" where
  "deref_aug p t = (case p of Nil \<Rightarrow> None | Ref a \<Rightarrow> map_option n_base (store t a))"

definition modify_aug :: "ptr \<Rightarrow> (NodeBase_aug \<Rightarrow> NodeBase_aug) \<Rightarrow> 'a Tree_aug \<Rightarrow> 'a Tree_aug option" where
  "modify_aug p f t =
     (case p of
        Nil \<Rightarrow> None
      | Ref a \<Rightarrow>
          (case store t a of
             None \<Rightarrow> None
           | Some n \<Rightarrow> Some (t\<lparr>store := (store t)(a \<mapsto> n\<lparr>n_base := f (n_base n)\<rparr>)\<rparr>)))"

definition color_aug :: "ptr \<Rightarrow> 'a Tree_aug \<Rightarrow> Color option" where
  "color_aug p t = map_option n_color (deref_aug p t)"

definition left_child_aug :: "ptr \<Rightarrow> 'a Tree_aug \<Rightarrow> ptr option" where
  "left_child_aug p t = map_option n_left (deref_aug p t)"

definition right_child_aug :: "ptr \<Rightarrow> 'a Tree_aug \<Rightarrow> ptr option" where
  "right_child_aug p t = map_option n_right (deref_aug p t)"

definition parent_aug :: "ptr \<Rightarrow> 'a Tree_aug \<Rightarrow> ptr option" where
  "parent_aug p t = map_option n_parent (deref_aug p t)"

definition subtree_size_aug :: "ptr \<Rightarrow> 'a Tree_aug \<Rightarrow> size_t option" where
  "subtree_size_aug p t = map_option n_subtree_size (deref_aug p t)"

definition set_color_aug :: "ptr \<Rightarrow> Color \<Rightarrow> 'a Tree_aug \<Rightarrow> 'a Tree_aug option" where
  "set_color_aug p c t = modify_aug p (\<lambda>n. n\<lparr>n_color := c\<rparr>) t"

definition set_left_child_aug :: "ptr \<Rightarrow> ptr \<Rightarrow> 'a Tree_aug \<Rightarrow> 'a Tree_aug option" where
  "set_left_child_aug p l t = modify_aug p (\<lambda>n. n\<lparr>n_left := l\<rparr>) t"

definition set_right_child_aug :: "ptr \<Rightarrow> ptr \<Rightarrow> 'a Tree_aug \<Rightarrow> 'a Tree_aug option" where
  "set_right_child_aug p r t = modify_aug p (\<lambda>n. n\<lparr>n_right := r\<rparr>) t"

definition set_parent_aug :: "ptr \<Rightarrow> ptr \<Rightarrow> 'a Tree_aug \<Rightarrow> 'a Tree_aug option" where
  "set_parent_aug p q t = modify_aug p (\<lambda>n. n\<lparr>n_parent := q\<rparr>) t"

definition set_subtree_size :: "ptr \<Rightarrow> size_t \<Rightarrow> 'a Tree_aug \<Rightarrow> 'a Tree_aug option" where
  "set_subtree_size p k t = modify_aug p (\<lambda>n. n\<lparr>n_subtree_size := k\<rparr>) t"

definition value_aug :: "ptr \<Rightarrow> 'a Tree_aug \<Rightarrow> 'a option" where
  "value_aug p t = (case p of Nil \<Rightarrow> None | Ref a \<Rightarrow> map_option n_value (store t a))"

text \<open>The constructor \<open>Tree()\<close>, on an empty free store.\<close>

definition Tree_aug_new :: "'a Tree_aug" where
  "Tree_aug_new = \<lparr>root_aug = Nil, store = (\<lambda>a. None)\<rparr>"

definition compare_lower_bound :: "'a::linorder \<Rightarrow> 'a \<Rightarrow> bool" where
  "compare_lower_bound first second = (first < second)"

definition compare_upper_bound :: "'a::linorder \<Rightarrow> 'a \<Rightarrow> bool" where
  "compare_upper_bound first second = (first \<le> second)"

definition is_nil :: "ptr \<Rightarrow> bool" where
  "is_nil node = (node = Nil)"

definition color_of_aug :: "ptr \<Rightarrow> 'a Tree_aug \<Rightarrow> Color option" where
  "color_of_aug node t = (if is_nil node then Some BLACK else color_aug node t)"

definition is_black :: "ptr \<Rightarrow> 'a Tree_aug \<Rightarrow> bool option" where
  "is_black node t = map_option (\<lambda>c. c = BLACK) (color_of_aug node t)"

definition is_red :: "ptr \<Rightarrow> 'a Tree_aug \<Rightarrow> bool option" where
  "is_red node t = map_option (\<lambda>c. c = RED) (color_of_aug node t)"

definition node_size :: "ptr \<Rightarrow> 'a Tree_aug \<Rightarrow> size_t option" where
  "node_size node t = (if is_nil node then Some 0 else subtree_size_aug node t)"

definition recalc_size :: "ptr \<Rightarrow> 'a Tree_aug \<Rightarrow> 'a Tree_aug option" where
  "recalc_size node t =
     (if is_nil node then Some t
      else do {
        l \<leftarrow> left_child_aug node t;
        left \<leftarrow> node_size l t;
        r \<leftarrow> right_child_aug node t;
        right \<leftarrow> node_size r t;
        set_subtree_size node (left + right + 1) t })"

partial_function (option) update_size_upwards :: "ptr \<Rightarrow> 'a Tree_aug \<Rightarrow> 'a Tree_aug option" where
  "update_size_upwards node t =
     (if \<not> is_nil node then do {
        t \<leftarrow> recalc_size node t;
        node \<leftarrow> parent_aug node t;
        update_size_upwards node t }
      else Some t)"

declare update_size_upwards.simps [code]

text \<open>
  \<open>make_node(value, color, left, right, parent)\<close>, where \<open>a\<close> is the address
  \<open>new\<close> returns; the constructor of \<open>Node<T>\<close> sets the size to 1.
\<close>

definition make_node :: "addr \<Rightarrow> 'a \<Rightarrow> Color \<Rightarrow> ptr \<Rightarrow> ptr \<Rightarrow> ptr \<Rightarrow> 'a Tree_aug \<Rightarrow> 'a Tree_aug option" where
  "make_node a v c l r p t =
     recalc_size (Ref a)
       (t\<lparr>store := (store t)(a \<mapsto>
          \<lparr>n_base = \<lparr>n_color = c, n_left = l, n_right = r, n_parent = p, n_subtree_size = 1\<rparr>,
           n_value = v\<rparr>)\<rparr>)"

definition delete_node_aug :: "ptr \<Rightarrow> 'a Tree_aug \<Rightarrow> 'a Tree_aug option" where
  "delete_node_aug p t =
     (case p of
        Nil \<Rightarrow> Some t
      | Ref a \<Rightarrow> (case store t a of None \<Rightarrow> None | Some n \<Rightarrow> Some (t\<lparr>store := (store t)(a := None)\<rparr>)))"

partial_function (option) locate_aug_loop ::
  "'a::linorder \<Rightarrow> ptr \<Rightarrow> ptr \<Rightarrow> bool \<Rightarrow> 'a Tree_aug \<Rightarrow> LocateResult option" where
  "locate_aug_loop v current par go t =
     (if current \<noteq> Nil then do {
        cv \<leftarrow> value_aug current t;
        if v < cv then do {
          l \<leftarrow> left_child_aug current t;
          locate_aug_loop v l current True t }
        else if cv < v then do {
          r \<leftarrow> right_child_aug current t;
          locate_aug_loop v r current False t }
        else Some \<lparr>lr_parent = current, lr_exists = True, lr_go_left = False\<rparr> }
      else Some \<lparr>lr_parent = par, lr_exists = False, lr_go_left = go\<rparr>)"

declare locate_aug_loop.simps [code]

definition locate_aug :: "'a::linorder \<Rightarrow> 'a Tree_aug \<Rightarrow> LocateResult option" where
  "locate_aug v t = locate_aug_loop v (root_aug t) Nil False t"

definition rotate :: "ptr \<Rightarrow> Direction \<Rightarrow> 'a Tree_aug \<Rightarrow> 'a Tree_aug option" where
  "rotate node dir t = do {
     pivot \<leftarrow> (if dir = LEFT then right_child_aug node t else left_child_aug node t);
     if is_nil pivot then None else do {
       pivot_parent \<leftarrow> parent_aug node t;
       t \<leftarrow> (if pivot_parent = Nil then set_parent_aug pivot Nil (t\<lparr>root_aug := pivot\<rparr>)
             else do {
               t \<leftarrow> set_parent_aug pivot pivot_parent t;
               ppl \<leftarrow> left_child_aug pivot_parent t;
               if node = ppl then set_left_child_aug pivot_parent pivot t
               else set_right_child_aug pivot_parent pivot t });
       t \<leftarrow> (if dir = LEFT then do {
               pl \<leftarrow> left_child_aug pivot t;
               t \<leftarrow> set_right_child_aug node pl t;
               pl \<leftarrow> left_child_aug pivot t;
               t \<leftarrow> (if \<not> is_nil pl then set_parent_aug pl node t else Some t);
               set_left_child_aug pivot node t }
             else do {
               pr \<leftarrow> right_child_aug pivot t;
               t \<leftarrow> set_left_child_aug node pr t;
               pr \<leftarrow> right_child_aug pivot t;
               t \<leftarrow> (if \<not> is_nil pr then set_parent_aug pr node t else Some t);
               set_right_child_aug pivot node t });
       t \<leftarrow> set_parent_aug node pivot t;
       t \<leftarrow> recalc_size node t;
       t \<leftarrow> recalc_size pivot t;
       update_size_upwards pivot_parent t } }"

definition rotate_left_aug :: "ptr \<Rightarrow> 'a Tree_aug \<Rightarrow> 'a Tree_aug option" where
  "rotate_left_aug node t = rotate node LEFT t"

definition rotate_right_aug :: "ptr \<Rightarrow> 'a Tree_aug \<Rightarrow> 'a Tree_aug option" where
  "rotate_right_aug node t = rotate node RIGHT t"

definition grandparent_aug :: "ptr \<Rightarrow> 'a Tree_aug \<Rightarrow> ptr option" where
  "grandparent_aug node t = do {
     p \<leftarrow> parent_aug node t;
     if p = Nil then Some Nil else parent_aug p t }"

definition uncle_aug :: "ptr \<Rightarrow> 'a Tree_aug \<Rightarrow> ptr option" where
  "uncle_aug node t = do {
     grand \<leftarrow> grandparent_aug node t;
     if grand = Nil then Some Nil
     else do {
       p \<leftarrow> parent_aug node t;
       gl \<leftarrow> left_child_aug grand t;
       if p = gl then right_child_aug grand t else left_child_aug grand t } }"

definition finalize_insert_rebalance :: "ptr \<Rightarrow> 'a Tree_aug \<Rightarrow> 'a Tree_aug option" where
  "finalize_insert_rebalance node t = do {
     p \<leftarrow> parent_aug node t;
     grand \<leftarrow> grandparent_aug node t;
     if p = Nil \<or> grand = Nil then Some t
     else do {
       t \<leftarrow> set_color_aug p BLACK t;
       t \<leftarrow> set_color_aug grand RED t;
       pl \<leftarrow> left_child_aug p t;
       gl \<leftarrow> (if node = pl then left_child_aug grand t else Some Nil);
       if node = pl \<and> p = gl then rotate_right_aug grand t
       else do {
         pr \<leftarrow> right_child_aug p t;
         gr \<leftarrow> (if node = pr then right_child_aug grand t else Some Nil);
         if node = pr \<and> p = gr then rotate_left_aug grand t else Some t } } }"

definition fix_insert_inner_child :: "ptr \<Rightarrow> 'a Tree_aug \<Rightarrow> 'a Tree_aug option" where
  "fix_insert_inner_child node t = do {
     p \<leftarrow> parent_aug node t;
     grand \<leftarrow> grandparent_aug node t;
     if grand = Nil \<or> p = Nil then Some t
     else do {
       pr \<leftarrow> right_child_aug p t;
       gl \<leftarrow> (if node = pr then left_child_aug grand t else Some Nil);
       if node = pr \<and> p = gl then do {
         t \<leftarrow> rotate_left_aug p t;
         node \<leftarrow> left_child_aug node t;
         finalize_insert_rebalance node t }
       else do {
         pl \<leftarrow> left_child_aug p t;
         gr \<leftarrow> (if node = pl then right_child_aug grand t else Some Nil);
         if node = pl \<and> p = gr then do {
           t \<leftarrow> rotate_right_aug p t;
           node \<leftarrow> right_child_aug node t;
           finalize_insert_rebalance node t }
         else finalize_insert_rebalance node t } } }"

text \<open>
  \<open>fix_insert_root\<close>, \<open>fix_insert_black_parent\<close> and \<open>fix_insert_red_uncle\<close>
  call each other in a cycle. The recursive definition holds the three bodies in their
  order; the two inner ones are then named, and \<open>fix_insert_root_unfold\<close> gives the
  source's shape back.
\<close>

partial_function (option) fix_insert_root :: "ptr \<Rightarrow> 'a Tree_aug \<Rightarrow> 'a Tree_aug option" where
  "fix_insert_root node t = do {
     p \<leftarrow> parent_aug node t;
     if p = Nil then do {
       t \<leftarrow> set_color_aug node BLACK t;
       Some (t\<lparr>root_aug := node\<rparr>) }
     else do {
       p \<leftarrow> parent_aug node t;
       stop \<leftarrow> (if p = Nil then Some True else map_option (\<lambda>c. c = BLACK) (color_aug p t));
       if stop then Some t
       else do {
         u \<leftarrow> uncle_aug node t;
         red_uncle \<leftarrow> (if u \<noteq> Nil then map_option (\<lambda>c. c = RED) (color_aug u t) else Some False);
         if red_uncle then do {
           p \<leftarrow> parent_aug node t;
           t \<leftarrow> set_color_aug p BLACK t;
           t \<leftarrow> set_color_aug u BLACK t;
           g \<leftarrow> grandparent_aug node t;
           if g \<noteq> Nil then do {
             t \<leftarrow> set_color_aug g RED t;
             fix_insert_root g t }
           else Some t }
         else fix_insert_inner_child node t } } }"

declare fix_insert_root.simps [code]

definition fix_insert_red_uncle :: "ptr \<Rightarrow> 'a Tree_aug \<Rightarrow> 'a Tree_aug option" where
  "fix_insert_red_uncle node t = do {
     u \<leftarrow> uncle_aug node t;
     red_uncle \<leftarrow> (if u \<noteq> Nil then map_option (\<lambda>c. c = RED) (color_aug u t) else Some False);
     if red_uncle then do {
       p \<leftarrow> parent_aug node t;
       t \<leftarrow> set_color_aug p BLACK t;
       t \<leftarrow> set_color_aug u BLACK t;
       g \<leftarrow> grandparent_aug node t;
       if g \<noteq> Nil then do {
         t \<leftarrow> set_color_aug g RED t;
         fix_insert_root g t }
       else Some t }
     else fix_insert_inner_child node t }"

definition fix_insert_black_parent :: "ptr \<Rightarrow> 'a Tree_aug \<Rightarrow> 'a Tree_aug option" where
  "fix_insert_black_parent node t = do {
     p \<leftarrow> parent_aug node t;
     stop \<leftarrow> (if p = Nil then Some True else map_option (\<lambda>c. c = BLACK) (color_aug p t));
     if stop then Some t else fix_insert_red_uncle node t }"

text \<open>\<open>insert(value)\<close>; \<open>a\<close> is the address \<open>new\<close> returns when it is called.\<close>

definition insert_aug :: "'a::linorder \<Rightarrow> addr \<Rightarrow> 'a Tree_aug \<Rightarrow> (bool \<times> 'a Tree_aug) option" where
  "insert_aug v a t = do {
     result \<leftarrow> locate_aug v t;
     if lr_exists result then Some (False, t)
     else do {
       let par = lr_parent result;
       t \<leftarrow> make_node a v RED Nil Nil par t;
       let new_node = Ref a;
       t \<leftarrow> (if par = Nil then Some (t\<lparr>root_aug := new_node\<rparr>)
             else if lr_go_left result then set_left_child_aug par new_node t
             else set_right_child_aug par new_node t);
       t \<leftarrow> fix_insert_root new_node t;
       t \<leftarrow> update_size_upwards new_node t;
       Some (True, t) } }"

partial_function (option) minimum_aug :: "ptr \<Rightarrow> 'a Tree_aug \<Rightarrow> ptr option" where
  "minimum_aug node t =
     (if node \<noteq> Nil then do {
        l \<leftarrow> left_child_aug node t;
        if l \<noteq> Nil then minimum_aug l t else Some node }
      else Some node)"

declare minimum_aug.simps [code]

partial_function (option) maximum :: "ptr \<Rightarrow> 'a Tree_aug \<Rightarrow> ptr option" where
  "maximum node t =
     (if node \<noteq> Nil then do {
        r \<leftarrow> right_child_aug node t;
        if r \<noteq> Nil then maximum r t else Some node }
      else Some node)"

declare maximum.simps [code]

text \<open>The loop of \<open>next\<close>: up while the node is a right child.\<close>

partial_function (option) next_loop :: "ptr \<Rightarrow> ptr \<Rightarrow> 'a Tree_aug \<Rightarrow> ptr option" where
  "next_loop node par t =
     (if par \<noteq> Nil then do {
        pr \<leftarrow> right_child_aug par t;
        if node = pr then do {
          pp \<leftarrow> parent_aug par t;
          next_loop par pp t }
        else Some par }
      else Some par)"

declare next_loop.simps [code]

definition next_aug :: "ptr \<Rightarrow> 'a Tree_aug \<Rightarrow> ptr option" where
  "next_aug node t =
     (if node = Nil then Some Nil
      else do {
        r \<leftarrow> right_child_aug node t;
        if r \<noteq> Nil then minimum_aug r t
        else do {
          p \<leftarrow> parent_aug node t;
          next_loop node p t } })"

text \<open>
  \<open>begin()\<close> and \<open>end()\<close> as the node an iterator holds, and the loop
  \<open>for (it = begin(); it != end(); ++it)\<close> that collects \<open>*it\<close>.
\<close>

definition begin_aug :: "'a Tree_aug \<Rightarrow> ptr option" where
  "begin_aug t = (if root_aug t \<noteq> Nil then minimum_aug (root_aug t) t else Some Nil)"

definition end_aug :: "'a Tree_aug \<Rightarrow> ptr" where
  "end_aug t = Nil"

partial_function (option) iterate_from :: "ptr \<Rightarrow> 'a Tree_aug \<Rightarrow> 'a list option" where
  "iterate_from it t =
     (if it \<noteq> end_aug t then do {
        v \<leftarrow> value_aug it t;
        nx \<leftarrow> next_aug it t;
        vs \<leftarrow> iterate_from nx t;
        Some (v # vs) }
      else Some [])"

declare iterate_from.simps [code]

definition iterate :: "'a Tree_aug \<Rightarrow> 'a list option" where
  "iterate t = do { it \<leftarrow> begin_aug t; iterate_from it t }"

definition transplant_aug :: "ptr \<Rightarrow> ptr \<Rightarrow> 'a Tree_aug \<Rightarrow> 'a Tree_aug option" where
  "transplant_aug u v t = do {
     par \<leftarrow> parent_aug u t;
     t \<leftarrow> (if par = Nil then Some (t\<lparr>root_aug := v\<rparr>)
           else do {
             pl \<leftarrow> left_child_aug par t;
             if u = pl then set_left_child_aug par v t else set_right_child_aug par v t });
     t \<leftarrow> (if v \<noteq> Nil then set_parent_aug v par t else Some t);
     update_size_upwards par t }"

definition detach_node_with_single_child :: "ptr \<Rightarrow> ptr \<Rightarrow> 'a Tree_aug \<Rightarrow> (DetachResult \<times> 'a Tree_aug) option" where
  "detach_node_with_single_child z child t = do {
     par \<leftarrow> parent_aug z t;
     let replacement = child;
     t \<leftarrow> transplant_aug z replacement t;
     fixup_parent \<leftarrow> (if replacement \<noteq> Nil then parent_aug replacement t else Some par);
     zc \<leftarrow> color_aug z t;
     Some (\<lparr>dr_fixup = replacement, dr_parent = fixup_parent, dr_removed_color = zc\<rparr>, t) }"

definition detach_node_with_successor :: "ptr \<Rightarrow> 'a Tree_aug \<Rightarrow> (DetachResult \<times> 'a Tree_aug) option" where
  "detach_node_with_successor z t = do {
     zr \<leftarrow> right_child_aug z t;
     successor \<leftarrow> minimum_aug zr t;
     x \<leftarrow> right_child_aug successor t;
     removed_color \<leftarrow> color_aug successor t;
     sp \<leftarrow> parent_aug successor t;
     let successor_parent_is_z = (sp = z);
     (x_parent, t) \<leftarrow>
       (if \<not> successor_parent_is_z then do {
          x_parent \<leftarrow> parent_aug successor t;
          sr \<leftarrow> right_child_aug successor t;
          t \<leftarrow> transplant_aug successor sr t;
          zr \<leftarrow> right_child_aug z t;
          t \<leftarrow> set_right_child_aug successor zr t;
          sr \<leftarrow> right_child_aug successor t;
          t \<leftarrow> (if sr \<noteq> Nil then set_parent_aug sr successor t else Some t);
          Some (x_parent, t) }
        else do {
          t \<leftarrow> (if x \<noteq> Nil then set_parent_aug x successor t else Some t);
          Some (successor, t) });
     t \<leftarrow> transplant_aug z successor t;
     zl \<leftarrow> left_child_aug z t;
     t \<leftarrow> set_left_child_aug successor zl t;
     sl \<leftarrow> left_child_aug successor t;
     t \<leftarrow> (if sl \<noteq> Nil then set_parent_aug sl successor t else Some t);
     zc \<leftarrow> color_aug z t;
     t \<leftarrow> set_color_aug successor zc t;
     t \<leftarrow> recalc_size successor t;
     t \<leftarrow> update_size_upwards successor t;
     x_parent \<leftarrow> (if x \<noteq> Nil then parent_aug x t
                  else if successor_parent_is_z then Some successor
                  else Some x_parent);
     Some (\<lparr>dr_fixup = x, dr_parent = x_parent, dr_removed_color = removed_color\<rparr>, t) }"

definition detach_node :: "ptr \<Rightarrow> 'a Tree_aug \<Rightarrow> (DetachResult \<times> 'a Tree_aug) option" where
  "detach_node z t = do {
     zl \<leftarrow> left_child_aug z t;
     if is_nil zl then do {
       zr \<leftarrow> right_child_aug z t;
       detach_node_with_single_child z zr t }
     else do {
       zr \<leftarrow> right_child_aug z t;
       if is_nil zr then do {
         zl \<leftarrow> left_child_aug z t;
         detach_node_with_single_child z zl t }
       else detach_node_with_successor z t } }"

definition paint_aug :: "ptr \<Rightarrow> Color \<Rightarrow> 'a Tree_aug \<Rightarrow> 'a Tree_aug option" where
  "paint_aug node c t = (if \<not> is_nil node then set_color_aug node c t else Some t)"

text \<open>
  The reference parameters of the four functions of the fix-up are results here:
  \<open>ensure_black_sibling\<close> returns the sibling, \<open>fetch_sibling_children\<close> the inner and
  the outer child, \<open>apply_outer_rotation\<close> and \<open>erase_fixup_direction\<close> the node and
  the parent.
\<close>

definition ensure_black_sibling :: "ptr \<Rightarrow> ptr \<Rightarrow> Direction \<Rightarrow> 'a Tree_aug \<Rightarrow> (ptr \<times> 'a Tree_aug) option" where
  "ensure_black_sibling par sibling dir t = do {
     red \<leftarrow> is_red sibling t;
     if red then do {
       t \<leftarrow> paint_aug sibling BLACK t;
       t \<leftarrow> paint_aug par RED t;
       t \<leftarrow> rotate par dir t;
       sibling \<leftarrow> (if dir = LEFT then right_child_aug par t else left_child_aug par t);
       Some (sibling, t) }
     else Some (sibling, t) }"

definition fetch_sibling_children :: "ptr \<Rightarrow> Direction \<Rightarrow> 'a Tree_aug \<Rightarrow> (ptr \<times> ptr) option" where
  "fetch_sibling_children sibling dir t =
     (if sibling = Nil then Some (Nil, Nil)
      else if dir = LEFT then do {
        inner \<leftarrow> left_child_aug sibling t;
        outer \<leftarrow> right_child_aug sibling t;
        Some (inner, outer) }
      else do {
        inner \<leftarrow> right_child_aug sibling t;
        outer \<leftarrow> left_child_aug sibling t;
        Some (inner, outer) })"

definition apply_outer_rotation ::
  "ptr \<Rightarrow> ptr \<Rightarrow> ptr \<Rightarrow> ptr \<Rightarrow> Direction \<Rightarrow> 'a Tree_aug \<Rightarrow> (ptr \<times> ptr \<times> 'a Tree_aug) option" where
  "apply_outer_rotation node par sibling sibling_outer dir t = do {
     c \<leftarrow> (if par \<noteq> Nil then color_aug par t else Some BLACK);
     t \<leftarrow> paint_aug sibling c t;
     t \<leftarrow> paint_aug par BLACK t;
     t \<leftarrow> paint_aug sibling_outer BLACK t;
     t \<leftarrow> rotate par dir t;
     Some (root_aug t, Nil, t) }"

definition erase_fixup_direction ::
  "ptr \<Rightarrow> ptr \<Rightarrow> Direction \<Rightarrow> 'a Tree_aug \<Rightarrow> (ptr \<times> ptr \<times> 'a Tree_aug) option" where
  "erase_fixup_direction node par dir t =
     (if par = Nil then Some (root_aug t, par, t)
      else do {
        sibling \<leftarrow> (if dir = LEFT then right_child_aug par t else left_child_aug par t);
        (sibling, t) \<leftarrow> ensure_black_sibling par sibling dir t;
        (sibling_inner, sibling_outer) \<leftarrow> fetch_sibling_children sibling dir t;
        ib \<leftarrow> is_black sibling_inner t;
        both_black \<leftarrow> (if ib then is_black sibling_outer t else Some False);
        if both_black then do {
          t \<leftarrow> paint_aug sibling RED t;
          pp \<leftarrow> parent_aug par t;
          Some (par, pp, t) }
        else do {
          ob \<leftarrow> is_black sibling_outer t;
          (sibling, sibling_outer, t) \<leftarrow>
            (if ob then do {
               t \<leftarrow> paint_aug sibling_inner BLACK t;
               t \<leftarrow> paint_aug sibling RED t;
               t \<leftarrow> rotate sibling (if dir = LEFT then RIGHT else LEFT) t;
               sibling \<leftarrow> (if dir = LEFT then right_child_aug par t else left_child_aug par t);
               (sibling_inner, sibling_outer) \<leftarrow> fetch_sibling_children sibling dir t;
               Some (sibling, sibling_outer, t) }
             else Some (sibling, sibling_outer, t));
          apply_outer_rotation node par sibling sibling_outer dir t } })"

partial_function (option) erase_fixup_aug :: "ptr \<Rightarrow> ptr \<Rightarrow> 'a Tree_aug \<Rightarrow> 'a Tree_aug option" where
  "erase_fixup_aug node par t = do {
     continue \<leftarrow> (if node \<noteq> root_aug t then is_black node t else Some False);
     if continue then do {
       left \<leftarrow> (if par \<noteq> Nil then do { pl \<leftarrow> left_child_aug par t; Some (node = pl) }
                else Some False);
       (node, par, t) \<leftarrow> erase_fixup_direction node par (if left then LEFT else RIGHT) t;
       erase_fixup_aug node par t }
     else paint_aug node BLACK t }"

declare erase_fixup_aug.simps [code]

definition erase_aug :: "'a::linorder \<Rightarrow> 'a Tree_aug \<Rightarrow> (bool \<times> 'a Tree_aug) option" where
  "erase_aug v t = do {
     result \<leftarrow> locate_aug v t;
     if \<not> lr_exists result then Some (False, t)
     else do {
       let z = lr_parent result;
       (detach, t) \<leftarrow> detach_node z t;
       t \<leftarrow> delete_node_aug z t;
       t \<leftarrow> (if dr_removed_color detach = BLACK
             then erase_fixup_aug (dr_fixup detach) (dr_parent detach) t
             else Some t);
       Some (True, t) } }"

definition size_aug :: "'a Tree_aug \<Rightarrow> size_t option" where
  "size_aug t = node_size (root_aug t) t"

partial_function (option) rank_comp_bound_loop ::
  "'a \<Rightarrow> ('a \<Rightarrow> 'a \<Rightarrow> bool) \<Rightarrow> ptr \<Rightarrow> size_t \<Rightarrow> 'a Tree_aug \<Rightarrow> size_t option" where
  "rank_comp_bound_loop v cmp current result t =
     (if \<not> is_nil current then do {
        current_value \<leftarrow> value_aug current t;
        if cmp current_value v then do {
          l \<leftarrow> left_child_aug current t;
          sl \<leftarrow> node_size l t;
          r \<leftarrow> right_child_aug current t;
          rank_comp_bound_loop v cmp r (result + (sl + 1)) t }
        else do {
          l \<leftarrow> left_child_aug current t;
          rank_comp_bound_loop v cmp l result t } }
      else Some result)"

declare rank_comp_bound_loop.simps [code]

definition rank_comp_bound :: "'a \<Rightarrow> ('a \<Rightarrow> 'a \<Rightarrow> bool) \<Rightarrow> 'a Tree_aug \<Rightarrow> size_t option" where
  "rank_comp_bound v cmp t = rank_comp_bound_loop v cmp (root_aug t) 0 t"

text \<open>\<open>distance(first, second)\<close>; the \<open>assert\<close> that fails is the value \<open>None\<close>.\<close>

definition distance_aug :: "'a::linorder \<Rightarrow> 'a \<Rightarrow> 'a Tree_aug \<Rightarrow> size_t option" where
  "distance_aug first second t =
     (if first > second then Some 0
      else do {
        first_rank \<leftarrow> rank_comp_bound first compare_lower_bound t;
        second_rank \<leftarrow> rank_comp_bound second compare_upper_bound t;
        if first_rank \<le> second_rank then Some (second_rank - first_rank) else None })"

section \<open>The augmented tree: the relation to abstract trees\<close>

text \<open>
  \<open>rel_aug s par t\<close>: the store of \<open>s\<close> holds the nodes of \<open>t\<close>, each with the
  colour, the value and the three links the tree gives it, whatever size it stores;
  \<open>crel_aug\<close> is the same for the nodes of a context, \<open>zst_aug s fs t\<close> says that
  \<open>s\<close> holds the tree \<open>plug fs t\<close>, seen at the subtree \<open>t\<close>.
\<close>

fun rel_aug :: "'a Tree_aug \<Rightarrow> ptr \<Rightarrow> 'a tr \<Rightarrow> bool" where
  "rel_aug s par Lf = True"
| "rel_aug s par (Nd l a c v r) =
     ((\<exists>k. store s a = Some \<lparr>n_base = \<lparr>n_color = c, n_left = ptr_of l, n_right = ptr_of r,
                                       n_parent = par, n_subtree_size = k\<rparr>, n_value = v\<rparr>)
      \<and> rel_aug s (Ref a) l \<and> rel_aug s (Ref a) r)"

fun crel_aug :: "'a Tree_aug \<Rightarrow> 'a frame list \<Rightarrow> ptr \<Rightarrow> bool" where
  "crel_aug s [] p = True"
| "crel_aug s (LF a c v r # fs) p =
     ((\<exists>k. store s a = Some \<lparr>n_base = \<lparr>n_color = c, n_left = p, n_right = ptr_of r,
                                       n_parent = ptop fs, n_subtree_size = k\<rparr>, n_value = v\<rparr>)
      \<and> rel_aug s (Ref a) r \<and> crel_aug s fs (Ref a))"
| "crel_aug s (RF l a c v # fs) p =
     ((\<exists>k. store s a = Some \<lparr>n_base = \<lparr>n_color = c, n_left = ptr_of l, n_right = p,
                                       n_parent = ptop fs, n_subtree_size = k\<rparr>, n_value = v\<rparr>)
      \<and> rel_aug s (Ref a) l \<and> crel_aug s fs (Ref a))"

definition zst_aug :: "'a Tree_aug \<Rightarrow> 'a frame list \<Rightarrow> 'a tr \<Rightarrow> bool" where
  "zst_aug s fs t =
     (root_aug s = ptr_of (plug fs t) \<and> crel_aug s fs (ptr_of t) \<and> rel_aug s (ptop fs) t
      \<and> distinct (addrs t @ caddrs fs))"

definition abs_aug :: "'a Tree_aug \<Rightarrow> 'a tr \<Rightarrow> bool" where
  "abs_aug s t = zst_aug s [] t"

text \<open>
  \<open>szs s t\<close>: every node of \<open>t\<close> stores the number of nodes of its subtree.
  \<open>cons_aug s a\<close> is what the claim says of one node: its stored size is 1 plus the
  stored sizes of its children, an absent child counting 0.
\<close>

fun szs :: "'a Tree_aug \<Rightarrow> 'a tr \<Rightarrow> bool" where
  "szs s Lf = True"
| "szs s (Nd l a c v r) =
     (subtree_size_aug (Ref a) s = Some (of_nat (Suc (length (nodes l) + length (nodes r))))
      \<and> szs s l \<and> szs s r)"

definition cons_aug :: "'a Tree_aug \<Rightarrow> ptr \<Rightarrow> bool" where
  "cons_aug s p =
     (case (subtree_size_aug p s, left_child_aug p s, right_child_aug p s) of
        (Some k, Some l, Some r) \<Rightarrow>
          (case (node_size l s, node_size r s) of
             (Some kl, Some kr) \<Rightarrow> k = 1 + kl + kr
           | _ \<Rightarrow> False)
      | _ \<Rightarrow> False)"

text \<open>
  \<open>aug_inv s t\<close>: the state \<open>s\<close> holds the red-black search tree \<open>t\<close> with the right
  sizes, and no node lives at the null address.
\<close>

definition aug_inv :: "'a::linorder Tree_aug \<Rightarrow> 'a tr \<Rightarrow> bool" where
  "aug_inv s t = (abs_aug s t \<and> rbt t \<and> bst t \<and> szs s t \<and> 0 \<notin> fst ` set (nodes t))"

text \<open>Total writes: what \<open>modify_aug\<close> returns when the node is live.\<close>

definition upd_aug :: "addr \<Rightarrow> (NodeBase_aug \<Rightarrow> NodeBase_aug) \<Rightarrow> 'a Tree_aug \<Rightarrow> 'a Tree_aug" where
  "upd_aug a f s = s\<lparr>store := (store s)(a := map_option (\<lambda>n. n\<lparr>n_base := f (n_base n)\<rparr>) (store s a))\<rparr>"

text \<open>
  \<open>first_ptr\<close> is the first node of an in-order sequence, and \<open>left_anc fs\<close> the
  nearest node of the context \<open>fs\<close> that has the hole in its left subtree: the first
  ancestor that is reached by a step up from a left child.
\<close>

fun first_ptr :: "(addr \<times> 'a) list \<Rightarrow> ptr" where
  "first_ptr [] = Nil"
| "first_ptr (n # ns) = Ref (fst n)"

fun left_anc :: "'a frame list \<Rightarrow> ptr" where
  "left_anc [] = Nil"
| "left_anc (LF a c v r # fs) = Ref a"
| "left_anc (RF l a c v # fs) = left_anc fs"

text \<open>The walk along child links, as \<open>walk\<close> for the first version.\<close>

fun walk_aug :: "'a Tree_aug \<Rightarrow> ptr \<Rightarrow> bool list \<Rightarrow> ptr option" where
  "walk_aug s p [] = Some p"
| "walk_aug s p (d # ds) = do {
     c \<leftarrow> (if d then left_child_aug p s else right_child_aug p s);
     walk_aug s c ds }"

text \<open>Sequences of calls on the augmented tree, as \<open>run_calls\<close> and \<open>alloc_ok\<close>.\<close>

fun call_aug :: "'a::linorder call \<Rightarrow> 'a Tree_aug \<Rightarrow> (bool \<times> 'a Tree_aug) option" where
  "call_aug (Insert v a) s = insert_aug v a s"
| "call_aug (Erase v) s = erase_aug v s"

fun run_calls_aug :: "'a::linorder call list \<Rightarrow> 'a Tree_aug \<Rightarrow> 'a Tree_aug option" where
  "run_calls_aug [] s = Some s"
| "run_calls_aug (c # cs) s = do { (b, s') \<leftarrow> call_aug c s; run_calls_aug cs s' }"

fun fresh_aug :: "'a call \<Rightarrow> 'a Tree_aug \<Rightarrow> bool" where
  "fresh_aug (Insert v a) s = (store s a = None \<and> a \<noteq> 0)"
| "fresh_aug (Erase v) s = True"

fun alloc_ok_aug :: "'a::linorder call list \<Rightarrow> 'a Tree_aug \<Rightarrow> bool" where
  "alloc_ok_aug [] s = True"
| "alloc_ok_aug (c # cs) s =
     (fresh_aug c s \<and> (case call_aug c s of None \<Rightarrow> True | Some (b, s') \<Rightarrow> alloc_ok_aug cs s'))"

text \<open>The state after \<open>insert(20)\<close>, \<open>insert(10)\<close>, \<open>insert(30)\<close> with the nodes at the addresses 2, 1 and 3.\<close>

definition ex_aug :: "int Tree_aug" where
  "ex_aug =
     \<lparr>root_aug = Ref 2,
      store = (\<lambda>a. None)
        (1 \<mapsto> \<lparr>n_base = \<lparr>n_color = RED, n_left = Nil, n_right = Nil, n_parent = Ref 2,
                          n_subtree_size = 1\<rparr>, n_value = 10\<rparr>,
         2 \<mapsto> \<lparr>n_base = \<lparr>n_color = BLACK, n_left = Ref 1, n_right = Ref 3, n_parent = Nil,
                          n_subtree_size = 3\<rparr>, n_value = 20\<rparr>,
         3 \<mapsto> \<lparr>n_base = \<lparr>n_color = RED, n_left = Nil, n_right = Nil, n_parent = Ref 2,
                          n_subtree_size = 1\<rparr>, n_value = 30\<rparr>)\<rparr>"

section \<open>The augmented tree: sizes on the way\<close>

text \<open>
  \<open>same_sz s s'\<close>: the two states store the same sizes. \<open>dp s m t\<close>: every node of
  \<open>t\<close> stores the number of nodes of its subtree, but for the nodes that have the
  address \<open>m\<close> in their subtree; these are the nodes whose size \<open>insert\<close> and
  \<open>erase\<close> leave stale until the last \<open>update_size_upwards\<close>. \<open>sk t\<close> is the shape
  of \<open>t\<close> without its colours.
\<close>

definition same_sz :: "'a Tree_aug \<Rightarrow> 'a Tree_aug \<Rightarrow> bool" where
  "same_sz s s' = (\<forall>a. subtree_size_aug (Ref a) s' = subtree_size_aug (Ref a) s)"

fun dp :: "'a Tree_aug \<Rightarrow> addr \<Rightarrow> 'a tr \<Rightarrow> bool" where
  "dp s m Lf = True"
| "dp s m (Nd l a c v r) =
     ((m \<in> fst ` set (nodes (Nd l a c v r))
       \<or> subtree_size_aug (Ref a) s = Some (of_nat (Suc (length (nodes l) + length (nodes r)))))
      \<and> dp s m l \<and> dp s m r)"

fun sk :: "'a tr \<Rightarrow> 'a tr" where
  "sk Lf = Lf"
| "sk (Nd l a c v r) = Nd (sk l) a BLACK v (sk r)"

text \<open>The writes of the links in \<open>rotate\<close>, between the reads at its start and the sizes.\<close>

definition rotate_links :: "ptr \<Rightarrow> ptr \<Rightarrow> ptr \<Rightarrow> Direction \<Rightarrow> 'a Tree_aug \<Rightarrow> 'a Tree_aug option" where
  "rotate_links node pivot pivot_parent dir t = do {
     t \<leftarrow> (if pivot_parent = Nil then set_parent_aug pivot Nil (t\<lparr>root_aug := pivot\<rparr>)
           else do {
             t \<leftarrow> set_parent_aug pivot pivot_parent t;
             ppl \<leftarrow> left_child_aug pivot_parent t;
             if node = ppl then set_left_child_aug pivot_parent pivot t
             else set_right_child_aug pivot_parent pivot t });
     t \<leftarrow> (if dir = LEFT then do {
             pl \<leftarrow> left_child_aug pivot t;
             t \<leftarrow> set_right_child_aug node pl t;
             pl \<leftarrow> left_child_aug pivot t;
             t \<leftarrow> (if \<not> is_nil pl then set_parent_aug pl node t else Some t);
             set_left_child_aug pivot node t }
           else do {
             pr \<leftarrow> right_child_aug pivot t;
             t \<leftarrow> set_left_child_aug node pr t;
             pr \<leftarrow> right_child_aug pivot t;
             t \<leftarrow> (if \<not> is_nil pr then set_parent_aug pr node t else Some t);
             set_right_child_aug pivot node t });
     set_parent_aug node pivot t }"

text \<open>
  \<open>erase_fixup_direction\<close> from the read of the sibling's children on, once
  \<open>ensure_black_sibling\<close> has returned; \<open>erase_fixup_direction_unfold\<close> puts the two
  parts together again.
\<close>

definition erase_fixup_direction_tail ::
  "ptr \<Rightarrow> ptr \<Rightarrow> ptr \<Rightarrow> Direction \<Rightarrow> 'a Tree_aug \<Rightarrow> (ptr \<times> ptr \<times> 'a Tree_aug) option" where
  "erase_fixup_direction_tail node par sibling dir t = do {
     (sibling_inner, sibling_outer) \<leftarrow> fetch_sibling_children sibling dir t;
     ib \<leftarrow> is_black sibling_inner t;
     both_black \<leftarrow> (if ib then is_black sibling_outer t else Some False);
     if both_black then do {
       t \<leftarrow> paint_aug sibling RED t;
       pp \<leftarrow> parent_aug par t;
       Some (par, pp, t) }
     else do {
       ob \<leftarrow> is_black sibling_outer t;
       (sibling, sibling_outer, t) \<leftarrow>
         (if ob then do {
            t \<leftarrow> paint_aug sibling_inner BLACK t;
            t \<leftarrow> paint_aug sibling RED t;
            t \<leftarrow> rotate sibling (if dir = LEFT then RIGHT else LEFT) t;
            sibling \<leftarrow> (if dir = LEFT then right_child_aug par t else left_child_aug par t);
            (sibling_inner, sibling_outer) \<leftarrow> fetch_sibling_children sibling dir t;
            Some (sibling, sibling_outer, t) }
          else Some (sibling, sibling_outer, t));
       apply_outer_rotation node par sibling sibling_outer dir t } }"

text \<open>
  \<open>zctx_aug s fs z\<close>: the node \<open>z\<close> hangs in the context \<open>fs\<close>, whatever its own
  children are. It is what \<open>transplant\<close> needs of the node it replaces.
  \<open>transplant_links\<close> are the writes of \<open>transplant\<close> before the sizes,
  \<open>detach_replace_aug\<close> the last part of \<open>detach_node_with_successor\<close>, where the
  successor takes the place, the left subtree and the colour of the node.
\<close>

definition zctx_aug :: "'a Tree_aug \<Rightarrow> 'a frame list \<Rightarrow> addr \<Rightarrow> bool" where
  "zctx_aug s fs z =
     (root_aug s = (if fs = [] then Ref z else Ref (faddr (last fs)))
      \<and> crel_aug s fs (Ref z)
      \<and> (\<exists>n. store s z = Some n \<and> n_parent (n_base n) = ptop fs)
      \<and> distinct (z # caddrs fs))"

definition transplant_links :: "ptr \<Rightarrow> ptr \<Rightarrow> ptr \<Rightarrow> 'a Tree_aug \<Rightarrow> 'a Tree_aug option" where
  "transplant_links u v par t = do {
     t \<leftarrow> (if par = Nil then Some (t\<lparr>root_aug := v\<rparr>)
           else do {
             pl \<leftarrow> left_child_aug par t;
             if u = pl then set_left_child_aug par v t else set_right_child_aug par v t });
     if v \<noteq> Nil then set_parent_aug v par t else Some t }"

definition detach_replace_aug :: "ptr \<Rightarrow> ptr \<Rightarrow> 'a Tree_aug \<Rightarrow> 'a Tree_aug option" where
  "detach_replace_aug z successor t = do {
     t \<leftarrow> transplant_aug z successor t;
     zl \<leftarrow> left_child_aug z t;
     t \<leftarrow> set_left_child_aug successor zl t;
     sl \<leftarrow> left_child_aug successor t;
     t \<leftarrow> (if sl \<noteq> Nil then set_parent_aug sl successor t else Some t);
     zc \<leftarrow> color_aug z t;
     t \<leftarrow> set_color_aug successor zc t;
     t \<leftarrow> recalc_size successor t;
     update_size_upwards successor t }"

text \<open>
  \<open>live cs S\<close>: the values that are stored after the calls \<open>cs\<close> when the values
  \<open>S\<close> were stored before, that is the values inserted and not erased afterwards.
\<close>

fun live :: "'a call list \<Rightarrow> 'a set \<Rightarrow> 'a set" where
  "live [] S = S"
| "live (Insert v a # cs) S = live cs (insert v S)"
| "live (Erase v # cs) S = live cs (S - {v})"

lemma ptr_of_not_in [simp]: "a \<notin> fst ` set (nodes t) \<Longrightarrow> ptr_of t \<noteq> Ref a"
  by (cases t) auto

lemma ptr_of_not_in' [simp]: "a \<notin> fst ` set (nodes t) \<Longrightarrow> Ref a \<noteq> ptr_of t"
  by (cases t) auto

lemma nodes_plug: "nodes (plug fs t) = nbefore fs @ nodes t @ nafter fs"
  by (induction fs arbitrary: t rule: nbefore.induct) auto

lemma ptr_of_plug: "ptr_of (plug fs t) = (if fs = [] then ptr_of t else Ref (faddr (last fs)))"
  by (induction fs arbitrary: t rule: nbefore.induct) auto

lemma rel_plug: "rel s Nil (plug fs t) = (crel s fs (ptr_of t) \<and> rel s (ptop fs) t)"
proof (induction fs arbitrary: t rule: nbefore.induct)
  case 1
  then show ?case by simp
next
  case (2 a c v r fs)
  then show ?case by (cases fs) auto
next
  case (3 l a c v fs)
  then show ?case by (cases fs) auto
qed

lemma abs_tree_plug: "abs_tree s (plug fs t) = zst s fs t"
  unfolding abs_tree_def zst_def
  by (simp add: rel_plug nodes_plug) (auto simp: ptr_of_plug)

lemma heap_upd [simp]: "heap (upd a f s) = (heap s)(a := map_option (\<lambda>n. n\<lparr>base := f (base n)\<rparr>) (heap s a))"
  by (simp add: upd_def)

lemma root_upd [simp]: "m_root (upd a f s) = m_root s"
  by (simp add: upd_def)

lemma nil_upd [simp]: "m_nil (upd a f s) = m_nil s"
  by (simp add: upd_def)

lemma modify_Ref: "heap s a = Some n \<Longrightarrow> modify (Ref a) f s = Some (upd a f s)"
  by (simp add: modify_def upd_def)

lemma rel_frame: "\<forall>a \<in> fst ` set (nodes t). heap s' a = heap s a \<Longrightarrow> rel s' par t = rel s par t"
  by (induction t arbitrary: par) auto

lemma crel_frame:
  "\<forall>a \<in> fst ` set (nbefore fs @ nafter fs). heap s' a = heap s a \<Longrightarrow> crel s' fs p = crel s fs p"
proof (induction fs arbitrary: p rule: nbefore.induct)
  case 1
  then show ?case by simp
next
  case (2 a c v r fs)
  then have "rel s' (Ref a) r = rel s (Ref a) r" by (intro rel_frame) auto
  with 2 show ?case by auto
next
  case (3 l a c v fs)
  then have "rel s' (Ref a) l = rel s (Ref a) l" by (intro rel_frame) auto
  with 3 show ?case by auto
qed

lemma rel_cong_heap: "heap s' = heap s \<Longrightarrow> rel s' par t = rel s par t"
  by (rule rel_frame) simp

lemma crel_cong_heap: "heap s' = heap s \<Longrightarrow> crel s' fs p = crel s fs p"
  by (rule crel_frame) simp


lemma modify_Ref' : "heap s a \<noteq> None \<Longrightarrow> modify (Ref a) f s = Some (upd a f s)"
  by (auto simp: modify_def upd_def)

lemma modify_Nil: "modify Nil f s = Some (s\<lparr>m_nil := f (m_nil s)\<rparr>)"
  by (simp add: modify_def)

lemma deref_Ref: "deref (Ref a) s = map_option base (heap s a)"
  by (simp add: deref_def)

lemma deref_Nil: "deref Nil s = Some (m_nil s)"
  by (simp add: deref_def)

lemma value_of_Ref: "value_of (Ref a) s = map_option m_value (heap s a)"
  by (simp add: value_of_def)

lemmas acc_defs = color_def left_child_def right_child_def parent_def
  set_color_def set_left_child_def set_right_child_def set_parent_def
  deref_Ref deref_Nil modify_Ref' modify_Nil value_of_Ref color_of_def

lemma rel_upd_other: "a \<notin> fst ` set (nodes t) \<Longrightarrow> rel (upd a f s) par t = rel s par t"
  by (rule rel_frame) auto

lemma crel_upd_other:
  "a \<notin> fst ` set (nbefore fs) \<Longrightarrow> a \<notin> fst ` set (nafter fs) \<Longrightarrow> crel (upd a f s) fs p = crel s fs p"
  by (rule crel_frame) auto

lemma rel_root_upd [simp]: "rel (s\<lparr>m_root := r\<rparr>) par t = rel s par t"
  by (rule rel_cong_heap) simp

lemma crel_root_upd [simp]: "crel (s\<lparr>m_root := r\<rparr>) fs p = crel s fs p"
  by (rule crel_cong_heap) simp

lemma rel_nil_upd [simp]: "rel (s\<lparr>m_nil := r\<rparr>) par t = rel s par t"
  by (rule rel_cong_heap) simp

lemma crel_nil_upd [simp]: "crel (s\<lparr>m_nil := r\<rparr>) fs p = crel s fs p"
  by (rule crel_cong_heap) simp

section \<open>The queries on a state that holds a tree\<close>

lemma subtree_size_rel:
  "rel s par t \<Longrightarrow> subtree_size (ptr_of t) s = Some (of_nat (length (nodes t)))"
proof (induction t arbitrary: par)
  case Lf
  show ?case by (subst subtree_size.simps) simp
next
  case (Nd l a c v r)
  then have "subtree_size (ptr_of l) s = Some (of_nat (length (nodes l)))"
    and "subtree_size (ptr_of r) s = Some (of_nat (length (nodes r)))"
    and "heap s a = Some \<lparr>base = \<lparr>m_color = c, m_left = ptr_of l, m_right = ptr_of r, m_parent = par\<rparr>, m_value = v\<rparr>"
    by auto
  then show ?case
    by (subst subtree_size.simps) (simp add: acc_defs)
qed

text \<open>No node lives at the null address, so a tree has fewer than \<open>2^64\<close> nodes.\<close>

lemma distinct_word_length:
  fixes xs :: "addr list"
  assumes "distinct xs" "0 \<notin> set xs"
  shows "length xs < 2 ^ 64"
proof -
  have "set xs \<subseteq> UNIV - {0}" using assms by auto
  then have "card (set xs) \<le> card (UNIV - {0::addr})" by (intro card_mono) auto
  also have "\<dots> = 2 ^ 64 - 1" by (simp add: card_Diff_singleton card_word)
  finally show ?thesis using assms(1) by (simp add: distinct_card)
qed



lemma bst_Nd:
  "bst (Nd l a c x r) = (bst l \<and> bst r \<and> (\<forall>y \<in> set (vals l). y < x) \<and> (\<forall>y \<in> set (vals r). x < y))"
  by (fastforce simp: bst_def sorted_wrt_append)

lemma bst_Lf [simp]: "bst Lf"
  by (simp add: bst_def)

lemma filter_all: "(\<forall>y \<in> set xs. P y) \<Longrightarrow> filter P xs = xs"
  by (induction xs) auto

lemma filter_none: "(\<forall>y \<in> set xs. \<not> P y) \<Longrightarrow> filter P xs = []"
  by (induction xs) auto

lemma order_statistics_loop_rel:
  "rel s par t \<Longrightarrow> bst t \<Longrightarrow>
   order_statistics_loop target (ptr_of t) cnt s =
     Some (cnt + of_nat (length (filter (\<lambda>x. x < target) (vals t))))"
proof (induction t arbitrary: par cnt)
  case Lf
  show ?case by (subst order_statistics_loop.simps) simp
next
  case (Nd l a c x r)
  from Nd.prems have h: "heap s a = Some \<lparr>base = \<lparr>m_color = c, m_left = ptr_of l, m_right = ptr_of r, m_parent = par\<rparr>, m_value = x\<rparr>"
    and rl: "rel s (Ref a) l" and rr: "rel s (Ref a) r"
    and bl: "bst l" and br: "bst r"
    and lt: "\<forall>y \<in> set (vals l). y < x" and gt: "\<forall>y \<in> set (vals r). x < y"
    by (auto simp: bst_Nd)
  note sz = subtree_size_rel[OF rl]
  show ?case
  proof (cases "target < x")
    case True
    then have "filter (\<lambda>y. y < target) (vals r) = []" using gt by (intro filter_none) auto
    with True show ?thesis
      by (subst order_statistics_loop.simps) (simp add: acc_defs h Nd.IH(1)[OF rl bl])
  next
    case False
    show ?thesis
    proof (cases "x < target")
      case True
      then have "filter (\<lambda>y. y < target) (vals l) = vals l" using lt by (intro filter_all) auto
      with True False show ?thesis
        by (subst order_statistics_loop.simps) (simp add: acc_defs h sz Nd.IH(2)[OF rr br])
    next
      case F2: False
      with False have eq: "target = x" by simp
      have "filter (\<lambda>y. y < target) (vals l) = vals l" using lt eq by (intro filter_all) auto
      moreover have "filter (\<lambda>y. y < target) (vals r) = []" using gt eq by (intro filter_none) auto
      ultimately show ?thesis using eq
        by (subst order_statistics_loop.simps) (simp add: acc_defs h sz)
    qed
  qed
qed

lemma rank_upper_bound_loop_rel:
  "rel s par t \<Longrightarrow>
   rank_upper_bound_loop v (ptr_of t) (cand_ptr cand) s = Some (cand_ptr (ub_node v t cand))"
proof (induction t arbitrary: par cand)
  case Lf
  show ?case by (subst rank_upper_bound_loop.simps) simp
next
  case (Nd l a c x r)
  from Nd.prems have h: "heap s a = Some \<lparr>base = \<lparr>m_color = c, m_left = ptr_of l, m_right = ptr_of r, m_parent = par\<rparr>, m_value = x\<rparr>"
    and rl: "rel s (Ref a) l" and rr: "rel s (Ref a) r"
    by auto
  show ?case
    using Nd.IH(1)[OF rl, of "Some (a, x)"] Nd.IH(2)[OF rr, of cand]
    by (subst rank_upper_bound_loop.simps) (simp add: acc_defs h)
qed

lemma rank_lower_bound_loop_rel:
  "rel s par t \<Longrightarrow>
   rank_lower_bound_loop v (ptr_of t) (cand_ptr cand) s = Some (cand_ptr (lb_node v t cand))"
proof (induction t arbitrary: par cand)
  case Lf
  show ?case by (subst rank_lower_bound_loop.simps) simp
next
  case (Nd l a c x r)
  from Nd.prems have h: "heap s a = Some \<lparr>base = \<lparr>m_color = c, m_left = ptr_of l, m_right = ptr_of r, m_parent = par\<rparr>, m_value = x\<rparr>"
    and rl: "rel s (Ref a) l" and rr: "rel s (Ref a) r"
    by auto
  show ?case
    using Nd.IH(1)[OF rl, of "Some (a, x)"] Nd.IH(2)[OF rr, of cand]
    by (subst rank_lower_bound_loop.simps) (simp add: acc_defs h)
qed

lemma ub_node_char:
  "bst t \<Longrightarrow> ub_node v t cand = (case filter (\<lambda>n. v < snd n) (nodes t) of [] \<Rightarrow> cand | n # ns \<Rightarrow> Some n)"
proof (induction t arbitrary: cand)
  case Lf
  show ?case by simp
next
  case (Nd l a c x r)
  then have bl: "bst l" and br: "bst r"
    and lt: "\<forall>n \<in> set (nodes l). snd n < x" and gt: "\<forall>n \<in> set (nodes r). x < snd n"
    by (auto simp: bst_Nd)
  show ?case
  proof (cases "v < x")
    case True
    then show ?thesis using Nd.IH(1)[OF bl] by (simp split: list.splits)
  next
    case False
    then have "filter (\<lambda>n. v < snd n) (nodes l) = []" using lt by (intro filter_none) auto
    with False show ?thesis using Nd.IH(2)[OF br] by simp
  qed
qed

lemma lb_node_char:
  "bst t \<Longrightarrow> lb_node v t cand = (case filter (\<lambda>n. \<not> snd n < v) (nodes t) of [] \<Rightarrow> cand | n # ns \<Rightarrow> Some n)"
proof (induction t arbitrary: cand)
  case Lf
  show ?case by simp
next
  case (Nd l a c x r)
  then have bl: "bst l" and br: "bst r"
    and lt: "\<forall>n \<in> set (nodes l). snd n < x" and gt: "\<forall>n \<in> set (nodes r). x < snd n"
    by (auto simp: bst_Nd)
  show ?case
  proof (cases "x < v")
    case True
    then have "filter (\<lambda>n. \<not> snd n < v) (nodes l) = []" using lt by (intro filter_none) auto
    with True show ?thesis using Nd.IH(2)[OF br] by simp
  next
    case False
    then show ?thesis using Nd.IH(1)[OF bl] by (simp split: list.splits)
  qed
qed

lemma rel_value: "rel s par t \<Longrightarrow> (a, x) \<in> set (nodes t) \<Longrightarrow> distinct (addrs t) \<Longrightarrow> heap s a \<noteq> None \<and> map_option m_value (heap s a) = Some x"
proof (induction t arbitrary: par)
  case Lf
  then show ?case by simp
next
  case (Nd l b c y r)
  then show ?case by (fastforce simp: image_iff)
qed

text \<open>In a strictly sorted list, the elements below the first one above \<open>v\<close> are those not above \<open>v\<close>.\<close>

lemma sorted_first_above:
  fixes xs :: "'a::linorder list"
  assumes "sorted_wrt (<) xs" "filter (\<lambda>y. v < y) xs = x # rest"
  shows "filter (\<lambda>y. y < x) xs = filter (\<lambda>y. y \<le> v) xs"
proof (rule filter_cong[OF refl])
  fix y assume y: "y \<in> set xs"
  have sf: "sorted_wrt (<) (x # rest)" using assms sorted_wrt_filter by metis
  have "x \<in> set (filter (\<lambda>y. v < y) xs)" using assms(2) by simp
  then have vx: "v < x" by simp
  show "(y < x) = (y \<le> v)"
  proof
    assume "y < x"
    show "y \<le> v"
    proof (rule ccontr)
      assume "\<not> y \<le> v"
      then have "y \<in> set (filter (\<lambda>y. v < y) xs)" using y by simp
      then have "y = x \<or> y \<in> set rest" using assms(2) by simp
      then have "x \<le> y" using sf by auto
      with \<open>y < x\<close> show False by simp
    qed
  next
    assume "y \<le> v" with vx show "y < x" by simp
  qed
qed

lemma sorted_first_not_below:
  fixes xs :: "'a::linorder list"
  assumes "sorted_wrt (<) xs" "filter (\<lambda>y. \<not> y < v) xs = x # rest"
  shows "filter (\<lambda>y. y < x) xs = filter (\<lambda>y. y < v) xs"
proof (rule filter_cong[OF refl])
  fix y assume y: "y \<in> set xs"
  have sf: "sorted_wrt (<) (x # rest)" using assms sorted_wrt_filter by metis
  have "x \<in> set (filter (\<lambda>y. \<not> y < v) xs)" using assms(2) by simp
  then have vx: "\<not> x < v" by simp
  show "(y < x) = (y < v)"
  proof
    assume "y < x"
    show "y < v"
    proof (rule ccontr)
      assume "\<not> y < v"
      then have "y \<in> set (filter (\<lambda>y. \<not> y < v) xs)" using y by simp
      then have "y = x \<or> y \<in> set rest" using assms(2) by simp
      then have "x \<le> y" using sf by auto
      with \<open>y < x\<close> show False by simp
    qed
  next
    assume "y < v" with vx show "y < x" by simp
  qed
qed




lemma filter_nodes_vals:
  "filter (\<lambda>n. P (snd n)) ns = n # rest \<Longrightarrow> filter P (map snd ns) = snd n # map snd rest"
  by (simp add: filter_map comp_def)

lemma filter_nodes_vals_Nil:
  "filter (\<lambda>n. P (snd n)) ns = [] \<Longrightarrow> filter P (map snd ns) = []"
  by (simp add: filter_map comp_def)

lemma abs_tree_rel: "abs_tree s t \<Longrightarrow> rel s Nil t \<and> m_root s = ptr_of t \<and> distinct (addrs t)"
  by (simp add: abs_tree_def zst_def)

lemma rank_upper_bound_abs:
  assumes "abs_tree s t" "bst t"
  shows "rank_upper_bound v s = Some (of_nat (length (filter (\<lambda>x. x \<le> v) (vals t))))"
proof -
  from assms(1) have r: "rel s Nil t" and root: "m_root s = ptr_of t" and d: "distinct (addrs t)"
    by (simp_all add: abs_tree_rel)
  have loop: "rank_upper_bound_loop v (m_root s) Nil s = Some (cand_ptr (ub_node v t None))"
    using rank_upper_bound_loop_rel[OF r, of v None] root by simp
  show ?thesis
  proof (cases "filter (\<lambda>n. v < snd n) (nodes t)")
    case Nil
    then have "ub_node v t None = None" using ub_node_char[OF assms(2)] by simp
    moreover have "filter (\<lambda>x. x \<le> v) (vals t) = vals t"
      using filter_nodes_vals_Nil[of "\<lambda>y. v < y", OF Nil]
      by (intro filter_all) (auto simp: filter_empty_conv)
    ultimately show ?thesis using loop subtree_size_rel[OF r] root
      by (simp add: rank_upper_bound_def size_rb_def)
  next
    case (Cons n ns)
    obtain a x where n: "n = (a, x)" by (cases n)
    have ub: "ub_node v t None = Some (a, x)" using ub_node_char[OF assms(2)] Cons n by simp
    have "n \<in> set (filter (\<lambda>n. v < snd n) (nodes t))" using Cons by simp
    then have mem: "(a, x) \<in> set (nodes t)" using n by simp
    from rel_value[OF r mem d] have val: "value_of (Ref a) s = Some x"
      by (simp add: value_of_Ref)
    have "filter (\<lambda>y. y < x) (vals t) = filter (\<lambda>y. y \<le> v) (vals t)"
      using sorted_first_above[of "vals t" v x "map snd ns"] assms(2)
        filter_nodes_vals[of "\<lambda>y. v < y", OF Cons] n
      by (simp add: bst_def)
    then show ?thesis
      using loop ub val order_statistics_loop_rel[OF r assms(2), of x 0] root
      by (simp add: rank_upper_bound_def order_statistics_def)
  qed
qed

lemma rank_lower_bound_abs:
  assumes "abs_tree s t" "bst t"
  shows "rank_lower_bound v s = Some (of_nat (length (filter (\<lambda>x. x < v) (vals t))))"
proof -
  from assms(1) have r: "rel s Nil t" and root: "m_root s = ptr_of t" and d: "distinct (addrs t)"
    by (simp_all add: abs_tree_rel)
  have loop: "rank_lower_bound_loop v (m_root s) Nil s = Some (cand_ptr (lb_node v t None))"
    using rank_lower_bound_loop_rel[OF r, of v None] root by simp
  show ?thesis
  proof (cases "filter (\<lambda>n. \<not> snd n < v) (nodes t)")
    case Nil
    then have "lb_node v t None = None" using lb_node_char[OF assms(2)] by simp
    moreover have "filter (\<lambda>x. x < v) (vals t) = vals t"
      using filter_nodes_vals_Nil[of "\<lambda>y. \<not> y < v", OF Nil]
      by (intro filter_all) (auto simp: filter_empty_conv)
    ultimately show ?thesis using loop subtree_size_rel[OF r] root
      by (simp add: rank_lower_bound_def size_rb_def)
  next
    case (Cons n ns)
    obtain a x where n: "n = (a, x)" by (cases n)
    have ub: "lb_node v t None = Some (a, x)" using lb_node_char[OF assms(2)] Cons n by simp
    have "n \<in> set (filter (\<lambda>n. \<not> snd n < v) (nodes t))" using Cons by simp
    then have mem: "(a, x) \<in> set (nodes t)" using n by simp
    from rel_value[OF r mem d] have val: "value_of (Ref a) s = Some x"
      by (simp add: value_of_Ref)
    have "filter (\<lambda>y. y < x) (vals t) = filter (\<lambda>y. y < v) (vals t)"
      using sorted_first_not_below[of "vals t" v x "map snd ns"] assms(2)
        filter_nodes_vals[of "\<lambda>y. \<not> y < v", OF Cons] n
      by (simp add: bst_def)
    then show ?thesis
      using loop ub val order_statistics_loop_rel[OF r assms(2), of x 0] root
      by (simp add: rank_lower_bound_def order_statistics_def)
  qed
qed

text \<open>Counts as numbers: a count of stored elements never wraps.\<close>

lemma bst_distinct: "bst t \<Longrightarrow> distinct (vals t)"
  unfolding bst_def by (rule strict_sorted_iff[THEN iffD1, THEN conjunct2]) 

lemma count_filter_card:
  "bst t \<Longrightarrow> length (filter P (vals t)) = card {x \<in> set (vals t). P x}"
  using distinct_length_filter[OF bst_distinct, of t P] by (simp add: Int_def conj_commute)

lemma tree_size_bound:
  assumes "distinct (addrs t)" "0 \<notin> fst ` set (nodes t)"
  shows "length (nodes t) < 2 ^ 64"
  using distinct_word_length[of "addrs t"] assms by simp

lemma unat_count:
  assumes "distinct (addrs t)" "0 \<notin> fst ` set (nodes t)"
  shows "unat (of_nat (length (filter P (vals t))) :: 64 word) = length (filter P (vals t))"
proof -
  have A: "length (filter P (vals t)) \<le> length (vals t)" by (rule length_filter_le)
  have B: "length (vals t) < 2 ^ 64" using tree_size_bound[OF assms] by simp
  have "length (filter P (vals t)) < 2 ^ 64" by (rule le_less_trans[OF A B])
  then show ?thesis by (intro of_nat_inverse[OF refl]) simp
qed




lemma zst_down_left: "zst s (LF a c x r # fs) l = zst s fs (Nd l a c x r)"
  by (simp flip: abs_tree_plug)

lemma zst_down_right: "zst s (RF l a c x # fs) r = zst s fs (Nd l a c x r)"
  by (simp flip: abs_tree_plug)

lemma zst_heap:
  "zst s fs (Nd l a c x r) \<Longrightarrow>
   heap s a = Some \<lparr>base = \<lparr>m_color = c, m_left = ptr_of l, m_right = ptr_of r, m_parent = ptop fs\<rparr>, m_value = x\<rparr>"
  by (simp add: zst_def)

lemma locate_loop_zst:
  "zst s fs t \<Longrightarrow>
   locate_loop v (ptr_of t) (ptop fs) (goleft fs) s = Some (locate_result (alocate v fs t))"
proof (induction t arbitrary: fs)
  case Lf
  show ?case by (subst locate_loop.simps) (simp add: locate_result_def)
next
  case (Nd l a c x r)
  note h = zst_heap[OF Nd.prems]
  have zl: "zst s (LF a c x r # fs) l" and zr: "zst s (RF l a c x # fs) r"
    using Nd.prems by (simp_all add: zst_down_left zst_down_right)
  show ?case
    using Nd.IH(1)[OF zl] Nd.IH(2)[OF zr]
    by (subst locate_loop.simps) (simp add: acc_defs h locate_result_def)
qed

lemma locate_abs:
  "abs_tree s t \<Longrightarrow> locate v s = Some (locate_result (alocate v [] t))"
  using locate_loop_zst[of s "[]" t v]
  by (simp add: locate_def abs_tree_def zst_def)

lemma alocate_plug: "alocate v fs t = (fs', t') \<Longrightarrow> plug fs' t' = plug fs t"
  by (induction t arbitrary: fs) (auto split: if_splits)

lemma alocate_found: "alocate v fs t = (fs', t') \<Longrightarrow> t' \<noteq> Lf \<Longrightarrow> \<exists>l a c r. t' = Nd l a c v r"
  by (induction t arbitrary: fs) (auto split: if_splits)

lemma alocate_path:
  "alocate v fs t = (fs', t') \<Longrightarrow> bst t \<Longrightarrow> path_ok v fs \<Longrightarrow> path_ok v fs'"
proof (induction t arbitrary: fs)
  case Lf
  then show ?case by simp
next
  case (Nd l a c x r)
  then have bl: "bst l" and br: "bst r"
    and lt: "\<forall>n \<in> set (nodes l). snd n < x" and gt: "\<forall>n \<in> set (nodes r). x < snd n"
    by (auto simp: bst_Nd)
  show ?case
  proof (cases "v < x")
    case True
    have "path_ok v (LF a c x r # fs)"
      using Nd.prems(3) True gt by (fastforce simp: path_ok_def)
    with Nd.IH(1)[of "LF a c x r # fs"] Nd.prems(1) True bl show ?thesis by simp
  next
    case False
    show ?thesis
    proof (cases "x < v")
      case True
      have "path_ok v (RF l a c x # fs)"
        using Nd.prems(3) True lt by (fastforce simp: path_ok_def)
      with Nd.IH(2)[of "RF l a c x # fs"] Nd.prems(1) True False br show ?thesis by simp
    next
      case F2: False
      with False Nd.prems show ?thesis by simp
    qed
  qed
qed

lemma path_ok_Nil [simp]: "path_ok v []"
  by (simp add: path_ok_def)

lemma path_ok_absent: "path_ok v fs \<Longrightarrow> v \<notin> set (vals (plug fs Lf))"
  by (auto simp: path_ok_def nodes_plug)

lemma alocate_exists:
  assumes "bst t"
  shows "snd (alocate v [] t) \<noteq> Lf \<longleftrightarrow> v \<in> set (vals t)"
proof (cases "alocate v [] t")
  case (Pair fs' t')
  note pl = alocate_plug[OF Pair]
  show ?thesis
  proof (cases "t' = Lf")
    case True
    have "path_ok v fs'" using alocate_path[OF Pair assms] by simp
    from path_ok_absent[OF this] True pl Pair show ?thesis by simp
  next
    case False
    from alocate_found[OF Pair False] obtain l a c r where "t' = Nd l a c v r" by blast
    then have "v \<in> set (vals (plug fs' t'))" by (simp add: nodes_plug)
    with pl Pair False show ?thesis by simp
  qed
qed

lemma locate_exists:
  assumes "abs_tree s t" "bst t"
  shows "\<exists>res. locate v s = Some res \<and> lr_exists res = (v \<in> set (vals t))"
  using locate_abs[OF assms(1), of v] alocate_exists[OF assms(2), of v]
  by (cases "alocate v [] t") (auto simp: locate_result_def)

lemma child_red:
  "rel s par t \<Longrightarrow>
   (if ptr_of t \<noteq> Nil then map_option (\<lambda>c. c = RED) (color (ptr_of t) s) else Some False)
     = Some (col t = RED)"
  by (cases t) (auto simp: acc_defs)

lemma validate_subtree_rel:
  "rel s par t \<Longrightarrow>
   validate_subtree (ptr_of t) s bho =
     Some (if invc t \<and> invh t then (True, int (bh t)) else (False, bho))"
proof (induction t arbitrary: par bho)
  case Lf
  show ?case by (subst validate_subtree.simps) simp
next
  case (Nd l a c x r)
  from Nd.prems have h: "heap s a = Some \<lparr>base = \<lparr>m_color = c, m_left = ptr_of l, m_right = ptr_of r, m_parent = par\<rparr>, m_value = x\<rparr>"
    and rl: "rel s (Ref a) l" and rr: "rel s (Ref a) r"
    by auto
  have ca: "color (Ref a) s = Some c" "left_child (Ref a) s = Some (ptr_of l)"
    "right_child (Ref a) s = Some (ptr_of r)"
    by (simp_all add: acc_defs h)
  have ce: "\<And>k. k \<noteq> RED \<longleftrightarrow> k = BLACK" by (case_tac k) auto
  have step: "validate_subtree (Ref a) s bho =
     (if c = RED \<and> (col l = RED \<or> col r = RED) then Some (False, bho)
      else if \<not> (invc l \<and> invh l) then Some (False, bho)
      else if \<not> (invc r \<and> invh r) then Some (False, bho)
      else if int (bh l) \<noteq> int (bh r) then Some (False, bho)
      else Some (True, int (bh l) + (if c = BLACK then 1 else 0)))"
    by (subst validate_subtree.simps)
       (simp add: ca child_red[OF rl] child_red[OF rr] Nd.IH(1)[OF rl] Nd.IH(2)[OF rr])
  show ?case
    unfolding ptr_of.simps step by (cases c) (auto simp: ce)
qed

lemma is_valid_abs:
  assumes "abs_tree s t"
  shows "is_valid s = Some (rbt t)"
proof -
  from assms have r: "rel s Nil t" and root: "m_root s = ptr_of t" and n: "nil_ok s"
    by (simp_all add: abs_tree_def zst_def)
  show ?thesis
  proof (cases t)
    case Lf
    then show ?thesis using root n by (simp add: is_valid_def acc_defs rbt_def nil_ok_def)
  next
    case (Nd l a c x r')
    then have "color (Ref a) s = Some c" using r by (simp add: acc_defs)
    then show ?thesis using validate_subtree_rel[OF r, of 0] root Nd
      by (cases c) (auto simp: is_valid_def rbt_def)
  qed
qed




lemma bh_paint_red [simp]: "bh (paint RED (Nd l a BLACK v r)) = bh l"
  by simp

lemma rbt_plug:
  "rbt (plug fs t) = (cinv fs (bh t) \<and> invc t \<and> invh t \<and> hole_ok fs t)"
proof (induction fs arbitrary: t)
  case Nil
  show ?case by (auto simp: rbt_def)
next
  case (Cons f fs)
  show ?case
    unfolding plug.simps Cons.IH
    by (cases f; cases fs) auto
qed

lemma nodes_paint [simp]: "nodes (paint c t) = nodes t"
  by (cases t) auto

lemma invh_paint [simp]: "invh (paint c t) = invh t"
  by (cases t) auto

lemma invc_paint_black [simp]: "invc t \<Longrightarrow> invc (paint BLACK t)"
  by (cases t) auto

lemma col_paint_black [simp]: "col (paint BLACK t) = BLACK"
  by (cases t) auto

lemma nodes_ins_rot: "nodes (ins_rot f g t) = nodes (plug1 g (plug1 f t))"
  by (induction f g t rule: ins_rot.induct) auto

lemma nodes_ins_fix: "nodes (ins_fix fs t) = nodes (plug fs t)"
proof (induction fs t rule: ins_fix.induct)
  case (1 t)
  show ?case by simp
next
  case (2 f t)
  show ?case by (cases f) auto
next
  case (3 f g fs t)
  then show ?case
    by (cases f; cases g) (auto simp: nodes_plug nodes_ins_rot)
qed

lemma ins_fix_rbt:
  "cinv fs (bh t) \<Longrightarrow> invc t \<Longrightarrow> invh t \<Longrightarrow> col t = RED \<Longrightarrow> rbt (ins_fix fs t)"
proof (induction fs t rule: ins_fix.induct)
  case (1 t)
  then show ?case by (cases t) (auto simp: rbt_def)
next
  case (2 f t)
  then show ?case by (cases f) (auto simp: rbt_def)
next
  case (3 f g fs t)
  show ?case
  proof (cases "fcol f = BLACK")
    case True
    have "rbt (plug (f # g # fs) t)"
      unfolding rbt_plug using 3(2-) True by simp
    with True show ?thesis by simp
  next
    case False
    then have fr: "fcol f = RED" by (cases "fcol f") auto
    show ?thesis
    proof (cases "col (fsib g) = RED")
      case True
      let ?t' = "paint RED (plug1 (fpaintsib BLACK g) (plug1 (fsetcol BLACK f) t))"
      have "rbt (ins_fix fs ?t')"
      proof (rule 3(1)[OF False True])
        show "cinv fs (bh ?t')" using 3(2-) fr True by (cases f; cases g; cases "fsib g") auto
        show "invc ?t'" using 3(2-) fr True by (cases f; cases g; cases "fsib g") auto
        show "invh ?t'" using 3(2-) fr True by (cases f; cases g; cases "fsib g") auto
        show "col ?t' = RED" by (cases g) auto
      qed
      with fr True show ?thesis by simp
    next
      case F2: False
      then have ub: "col (fsib g) = BLACK" by (cases "col (fsib g)") auto
      obtain l n v r where t: "t = Nd l n RED v r" using 3(5) by (cases t) auto
      have "rbt (plug fs (ins_rot f g t))"
        unfolding rbt_plug using 3(2-) fr ub t
        by (cases f; cases g; cases fs) auto
      with fr F2 show ?thesis by simp
    qed
  qed
qed

section \<open>Rotations on a state that holds a tree\<close>

lemma rotate_left_zst:
  assumes "zst s fs (Nd l a c v (Nd rl b cb vb rr))"
  shows "\<exists>s'. rotate_left (Ref a) s = Some s' \<and> zst s' fs (Nd (Nd l a c v rl) b cb vb rr)
            \<and> m_nil s' = m_nil s"
  using assms
  apply (cases fs rule: nbefore.cases; cases rl)
  apply (clarsimp simp: zst_def nil_ok_def ptr_of_plug, simp add: rotate_left_def acc_defs rel_upd_other crel_upd_other)+
  done

lemma rotate_right_zst:
  assumes "zst s fs (Nd (Nd ll b cb vb lr) a c v r)"
  shows "\<exists>s'. rotate_right (Ref a) s = Some s' \<and> zst s' fs (Nd ll b cb vb (Nd lr a c v r))
            \<and> m_nil s' = m_nil s"
  using assms
  apply (cases fs rule: nbefore.cases; cases lr)
  apply (clarsimp simp: zst_def nil_ok_def ptr_of_plug, simp add: rotate_right_def acc_defs rel_upd_other crel_upd_other)+
  done



lemma zst_up: "zst s (f # fs) t = zst s fs (plug1 f t)"
  by (simp flip: abs_tree_plug)

lemma set_color_zst:
  assumes "zst s fs (Nd l a c v r)"
  shows "\<exists>s'. set_color (Ref a) k s = Some s' \<and> zst s' fs (Nd l a k v r) \<and> m_nil s' = m_nil s"
  using assms
  apply (cases fs rule: nbefore.cases)
  apply (clarsimp simp: zst_def nil_ok_def ptr_of_plug, simp add: acc_defs rel_upd_other crel_upd_other)+
  done

lemma zst_reads:
  assumes "zst s fs (Nd l a c v r)"
  shows "parent (Ref a) s = Some (ptop fs)" "color (Ref a) s = Some c"
    "left_child (Ref a) s = Some (ptr_of l)" "right_child (Ref a) s = Some (ptr_of r)"
    "value_of (Ref a) s = Some v"
  using zst_heap[OF assms] by (simp_all add: acc_defs)

lemma zst_rel_hole: "zst s fs t \<Longrightarrow> rel s (ptop fs) t"
  by (simp add: zst_def)

lemma ins_reads:
  assumes "zst s (f # g # fs) (Nd l n c v r)"
  shows "parent (Ref n) s = Some (Ref (faddr f))"
    "color (Ref (faddr f)) s = Some (fcol f)"
    "grandparent (Ref n) s = Some (Ref (faddr g))"
    "uncle (Ref n) s = Some (ptr_of (fsib g))"
    "(if ptr_of (fsib g) \<noteq> Nil then map_option (\<lambda>c. c = RED) (color (ptr_of (fsib g)) s) else Some False)
       = Some (col (fsib g) = RED)"
proof -
  show p: "parent (Ref n) s = Some (Ref (faddr f))" using zst_reads(1)[OF assms] by simp
  have zf: "zst s (g # fs) (plug1 f (Nd l n c v r))" using assms by (simp add: zst_up)
  then show c: "color (Ref (faddr f)) s = Some (fcol f)"
    by (cases f) (auto dest: zst_reads(2))
  have pf: "parent (Ref (faddr f)) s = Some (Ref (faddr g))"
    using zf by (cases f) (auto dest: zst_reads(1))
  show gp: "grandparent (Ref n) s = Some (Ref (faddr g))"
    using p pf by (simp add: grandparent_def)
  show "uncle (Ref n) s = Some (ptr_of (fsib g))"
    using assms p gp
    apply (cases g; cases f)
    apply (clarsimp simp: zst_def uncle_def, simp add: acc_defs)+
    done
  have "rel s (Ref (faddr g)) (fsib g)"
    using assms by (cases g; cases f) (auto simp: zst_def)
  then show "(if ptr_of (fsib g) \<noteq> Nil then map_option (\<lambda>c. c = RED) (color (ptr_of (fsib g)) s) else Some False)
       = Some (col (fsib g) = RED)"
    by (rule child_red)
qed


lemma zst_neq_sib:
  assumes "zst s (f # fs) (Nd l n c v r)"
  shows "ptr_of (fsib f) \<noteq> Ref n" "Ref n \<noteq> ptr_of (fsib f)"
  using assms by (cases f; auto simp: zst_def)+

lemma zst_neq_uncle:
  assumes "zst s (f # g # fs) t"
  shows "ptr_of (fsib g) \<noteq> Ref (faddr f)" "Ref (faddr f) \<noteq> ptr_of (fsib g)"
  using assms by (cases f; cases g; auto simp: zst_def)+

lemma insert_case5_L:
  assumes z: "zst s (LF p pc pv pr # LF g gc gv u # fs) (Nd l n c v r)"
  shows "\<exists>s'. insert_case5 (Ref n) s = Some s'
     \<and> zst s' fs (Nd (Nd l n c v r) p BLACK pv (Nd pr g RED gv u)) \<and> m_nil s' = m_nil s"
proof -
  let ?t = "Nd l n c v r"
  note rd = ins_reads[OF z]
  have z1: "zst s (LF g gc gv u # fs) (Nd ?t p pc pv pr)" using z by (simp add: zst_up)
  from set_color_zst[OF z1, of BLACK] obtain s1 where s1: "set_color (Ref p) BLACK s = Some s1"
    and z2: "zst s1 (LF g gc gv u # fs) (Nd ?t p BLACK pv pr)" and n1: "m_nil s1 = m_nil s" by blast
  have z3: "zst s1 fs (Nd (Nd ?t p BLACK pv pr) g gc gv u)" using z2 by (simp add: zst_up)
  from set_color_zst[OF z3, of RED] obtain s2 where s2: "set_color (Ref g) RED s1 = Some s2"
    and z4: "zst s2 fs (Nd (Nd ?t p BLACK pv pr) g RED gv u)" and n2: "m_nil s2 = m_nil s1" by blast
  have z5: "zst s2 (LF g RED gv u # fs) (Nd ?t p BLACK pv pr)" using z4 by (simp add: zst_up)
  note r5 = zst_reads(3)[OF z5] zst_reads(3)[OF z4]
  from rotate_right_zst[OF z4] obtain s3 where s3: "rotate_right (Ref g) s2 = Some s3"
    and z6: "zst s3 fs (Nd ?t p BLACK pv (Nd pr g RED gv u))" and n3: "m_nil s3 = m_nil s2" by blast
  show ?thesis using rd s1 s2 r5 s3 z6 n1 n2 n3 by (simp add: insert_case5_def)
qed

lemma insert_case5_R:
  assumes z: "zst s (RF pl p pc pv # RF u g gc gv # fs) (Nd l n c v r)"
  shows "\<exists>s'. insert_case5 (Ref n) s = Some s'
     \<and> zst s' fs (Nd (Nd u g RED gv pl) p BLACK pv (Nd l n c v r)) \<and> m_nil s' = m_nil s"
proof -
  let ?t = "Nd l n c v r"
  note rd = ins_reads[OF z]
  have z1: "zst s (RF u g gc gv # fs) (Nd pl p pc pv ?t)" using z by (simp add: zst_up)
  from set_color_zst[OF z1, of BLACK] obtain s1 where s1: "set_color (Ref p) BLACK s = Some s1"
    and z2: "zst s1 (RF u g gc gv # fs) (Nd pl p BLACK pv ?t)" and n1: "m_nil s1 = m_nil s" by blast
  have z3: "zst s1 fs (Nd u g gc gv (Nd pl p BLACK pv ?t))" using z2 by (simp add: zst_up)
  from set_color_zst[OF z3, of RED] obtain s2 where s2: "set_color (Ref g) RED s1 = Some s2"
    and z4: "zst s2 fs (Nd u g RED gv (Nd pl p BLACK pv ?t))" and n2: "m_nil s2 = m_nil s1" by blast
  have z5: "zst s2 (RF u g RED gv # fs) (Nd pl p BLACK pv ?t)" using z4 by (simp add: zst_up)
  have z5': "zst s2 (RF pl p BLACK pv # RF u g RED gv # fs) ?t" using z5 by (simp add: zst_up)
  note r5 = zst_reads(3,4)[OF z5] zst_reads(3,4)[OF z4] zst_neq_sib[OF z5'] zst_neq_uncle[OF z5']
  from rotate_left_zst[OF z4] obtain s3 where s3: "rotate_left (Ref g) s2 = Some s3"
    and z6: "zst s3 fs (Nd (Nd u g RED gv pl) p BLACK pv ?t)" and n3: "m_nil s3 = m_nil s2" by blast
  show ?thesis using rd s1 s2 r5 s3 z6 n1 n2 n3 by (simp add: insert_case5_def)
qed

lemma insert_case4_zst:
  assumes z: "zst s (f # g # fs) (Nd l n c v r)"
  shows "\<exists>s'. insert_case4 (Ref n) s = Some s' \<and> zst s' fs (ins_rot f g (Nd l n c v r))
     \<and> m_nil s' = m_nil s"
proof -
  let ?t = "Nd l n c v r"
  note rd = ins_reads[OF z]
  note ne = zst_neq_sib[OF z] zst_neq_uncle[OF z]
  have zp: "zst s (g # fs) (plug1 f ?t)" using z by (simp add: zst_up)
  have zg: "zst s fs (plug1 g (plug1 f ?t))" using zp by (simp add: zst_up)
  show ?thesis
  proof (cases f)
    case f: (LF p pc pv pr)
    show ?thesis
    proof (cases g)
      case g: (LF ga gc gv u)
      note rp = zst_reads(3,4)[OF zp[unfolded f plug1.simps]]
        zst_reads(3,4)[OF zg[unfolded f g plug1.simps]]
      from insert_case5_L[OF z[unfolded f g]] show ?thesis
        using rd ne rp unfolding f g by (simp add: insert_case4_def)
    next
      case g: (RF u ga gc gv)
      note rp = zst_reads(3,4)[OF zp[unfolded f plug1.simps]]
        zst_reads(3,4)[OF zg[unfolded f g plug1.simps]]
      from rotate_right_zst[OF zp[unfolded f g plug1.simps]] obtain s1 where
        s1: "rotate_right (Ref p) s = Some s1"
        and z1: "zst s1 (RF u ga gc gv # fs) (Nd l n c v (Nd r p pc pv pr))"
        and n1: "m_nil s1 = m_nil s" by blast
      have z2: "zst s1 (RF l n c v # RF u ga gc gv # fs) (Nd r p pc pv pr)"
        using z1 by (simp add: zst_up)
      from insert_case5_R[OF z2] obtain s2 where
        s2: "insert_case5 (Ref p) s1 = Some s2"
        and z3: "zst s2 fs (Nd (Nd u ga RED gv l) n BLACK v (Nd r p pc pv pr))"
        and n2: "m_nil s2 = m_nil s1" by blast
      show ?thesis
        using rd ne rp s1 zst_reads(4)[OF z1] s2 z3 n1 n2 unfolding f g
        by (simp add: insert_case4_def)
    qed
  next
    case f: (RF pl p pc pv)
    show ?thesis
    proof (cases g)
      case g: (LF ga gc gv u)
      note rp = zst_reads(3,4)[OF zp[unfolded f plug1.simps]]
        zst_reads(3,4)[OF zg[unfolded f g plug1.simps]]
      from rotate_left_zst[OF zp[unfolded f g plug1.simps]] obtain s1 where
        s1: "rotate_left (Ref p) s = Some s1"
        and z1: "zst s1 (LF ga gc gv u # fs) (Nd (Nd pl p pc pv l) n c v r)"
        and n1: "m_nil s1 = m_nil s" by blast
      have z2: "zst s1 (LF n c v r # LF ga gc gv u # fs) (Nd pl p pc pv l)"
        using z1 by (simp add: zst_up)
      from insert_case5_L[OF z2] obtain s2 where
        s2: "insert_case5 (Ref p) s1 = Some s2"
        and z3: "zst s2 fs (Nd (Nd pl p pc pv l) n BLACK v (Nd r ga RED gv u))"
        and n2: "m_nil s2 = m_nil s1" by blast
      show ?thesis
        using rd ne rp s1 zst_reads(3)[OF z1] s2 z3 n1 n2 unfolding f g
        by (simp add: insert_case4_def)
    next
      case g: (RF u ga gc gv)
      note rp = zst_reads(3,4)[OF zp[unfolded f plug1.simps]]
        zst_reads(3,4)[OF zg[unfolded f g plug1.simps]]
      from insert_case5_R[OF z[unfolded f g]] show ?thesis
        using rd ne rp unfolding f g by (simp add: insert_case4_def)
    qed
  qed
qed


lemma set_color_sib:
  assumes "zst s (g # fs) t" "fsib g \<noteq> Lf"
  shows "\<exists>s'. set_color (ptr_of (fsib g)) k s = Some s' \<and> zst s' (fpaintsib k g # fs) t
     \<and> m_nil s' = m_nil s"
proof (cases g)
  case g: (LF a c v u)
  then obtain ul ua uc uv ur where u: "u = Nd ul ua uc uv ur" using assms(2) by (cases u) auto
  have "zst s (RF t a c v # fs) (Nd ul ua uc uv ur)"
    using assms(1) unfolding g u by (simp add: zst_up)
  from set_color_zst[OF this, of k] obtain s' where "set_color (Ref ua) k s = Some s'"
    and "zst s' (RF t a c v # fs) (Nd ul ua k uv ur)" and "m_nil s' = m_nil s" by blast
  then show ?thesis unfolding g u by (simp add: zst_up)
next
  case g: (RF u a c v)
  then obtain ul ua uc uv ur where u: "u = Nd ul ua uc uv ur" using assms(2) by (cases u) auto
  have "zst s (LF a c v t # fs) (Nd ul ua uc uv ur)"
    using assms(1) unfolding g u by (simp add: zst_up)
  from set_color_zst[OF this, of k] obtain s' where "set_color (Ref ua) k s = Some s'"
    and "zst s' (LF a c v t # fs) (Nd ul ua k uv ur)" and "m_nil s' = m_nil s" by blast
  then show ?thesis unfolding g u by (simp add: zst_up)
qed

lemma set_color_frame:
  assumes "zst s (f # fs) t"
  shows "\<exists>s'. set_color (Ref (faddr f)) k s = Some s' \<and> zst s' (fsetcol k f # fs) t
     \<and> m_nil s' = m_nil s"
proof (cases f)
  case f: (LF a c v r)
  have "zst s fs (Nd t a c v r)" using assms unfolding f by (simp add: zst_up)
  from set_color_zst[OF this, of k] show ?thesis unfolding f by (simp add: zst_up)
next
  case f: (RF l a c v)
  have "zst s fs (Nd l a c v t)" using assms unfolding f by (simp add: zst_up)
  from set_color_zst[OF this, of k] show ?thesis unfolding f by (simp add: zst_up)
qed

lemma faddr_fsetcol [simp]: "faddr (fsetcol k f) = faddr f"
  by (cases f) auto

lemma faddr_fpaintsib [simp]: "faddr (fpaintsib k f) = faddr f"
  by (cases f) auto

lemma paint_plug1: "paint k (plug1 f t) = plug1 (fsetcol k f) t"
  by (cases f) auto

lemma plug1_ptr [simp]: "ptr_of (plug1 f t) = Ref (faddr f)"
  by (cases f) auto

lemma plug1_Nd: "\<exists>l c v r. plug1 f t = Nd l (faddr f) c v r"
  by (cases f) auto

lemma insert_case1_zst:
  assumes "zst s fs t" "t \<noteq> Lf" "fs \<noteq> [] \<Longrightarrow> fcol (last fs) = BLACK"
  shows "\<exists>s'. insert_case1 (ptr_of t) s = Some s' \<and> abs_tree s' (ins_fix fs t)"
  using assms
proof (induction fs t arbitrary: s rule: ins_fix.induct)
  case (1 t)
  then obtain l n c v r where t: "t = Nd l n c v r" by (cases t) auto
  have z: "zst s [] (Nd l n c v r)" using 1 t by simp
  from set_color_zst[OF z, of BLACK] obtain s1 where s1: "set_color (Ref n) BLACK s = Some s1"
    and z1: "zst s1 [] (Nd l n BLACK v r)" by blast
  have "abs_tree (s1\<lparr>m_root := Ref n\<rparr>) (Nd l n BLACK v r)"
    using z1 by (simp add: abs_tree_def zst_def nil_ok_def)
  then show ?case
    using zst_reads(1)[OF z] s1 unfolding t
    by (subst insert_case1.simps) simp
next
  case (2 f t)
  then obtain l n c v r where t: "t = Nd l n c v r" by (cases t) auto
  have z: "zst s [f] (Nd l n c v r)" using 2 t by simp
  have fb: "fcol f = BLACK" using "2.prems"(3) by simp
  then have fe: "fsetcol BLACK f = f" by (cases f) auto
  have z1: "zst s [] (plug1 f (Nd l n c v r))" using z by (simp add: zst_up)
  have cp: "color (Ref (faddr f)) s = Some (fcol f)"
    using z1 by (cases f) (auto dest: zst_reads(2))
  show ?case
    using zst_reads(1)[OF z] cp fb z1 unfolding t
    by (subst insert_case1.simps) (simp add: fe abs_tree_def)
next
  case (3 f g fs t)
  then obtain l n c v r where t: "t = Nd l n c v r" by (cases t) auto
  have z: "zst s (f # g # fs) (Nd l n c v r)" using "3.prems" t by simp
  note rd = ins_reads[OF z]
  show ?case
  proof (cases "fcol f = BLACK")
    case True
    have "abs_tree s (plug (f # g # fs) t)" using "3.prems"(1) by (simp only: abs_tree_plug)
    then show ?thesis using rd True unfolding t
      by (subst insert_case1.simps) simp
  next
    case False
    show ?thesis
    proof (cases "col (fsib g) = RED")
      case True
      then have un: "fsib g \<noteq> Lf" by (cases "fsib g") auto
      then have unp: "ptr_of (fsib g) \<noteq> Nil" by (cases "fsib g") auto
      from set_color_frame[OF z, of BLACK] obtain s1 where
        s1: "set_color (Ref (faddr f)) BLACK s = Some s1"
        and z1: "zst s1 (fsetcol BLACK f # g # fs) (Nd l n c v r)" by blast
      have z1': "zst s1 (g # fs) (plug1 (fsetcol BLACK f) (Nd l n c v r))"
        using z1 by (simp add: zst_up)
      from set_color_sib[OF z1' un, of BLACK] obtain s2 where
        s2: "set_color (ptr_of (fsib g)) BLACK s1 = Some s2"
        and z2: "zst s2 (fpaintsib BLACK g # fs) (plug1 (fsetcol BLACK f) (Nd l n c v r))" by blast
      have z2': "zst s2 (fsetcol BLACK f # fpaintsib BLACK g # fs) (Nd l n c v r)"
        using z2 by (simp add: zst_up)
      note rd2 = ins_reads(3)[OF z2']
      from set_color_frame[OF z2, of RED] obtain s3 where
        s3: "set_color (Ref (faddr g)) RED s2 = Some s3"
        and z3: "zst s3 (fsetcol RED (fpaintsib BLACK g) # fs) (plug1 (fsetcol BLACK f) (Nd l n c v r))"
        by auto
      let ?t' = "paint RED (plug1 (fpaintsib BLACK g) (plug1 (fsetcol BLACK f) t))"
      have z3': "zst s3 fs ?t'"
        using z3 unfolding t by (simp add: zst_up paint_plug1)
      have pt: "ptr_of ?t' = Ref (faddr g)" by (simp add: paint_plug1)
      have lst: "fs \<noteq> [] \<Longrightarrow> fcol (last fs) = BLACK" using "3.prems"(3) by simp
      have tn: "?t' \<noteq> Lf" by (cases g) auto
      from "3.IH"[OF False True z3' tn lst] obtain s' where
        "insert_case1 (Ref (faddr g)) s3 = Some s'" "abs_tree s' (ins_fix fs ?t')"
        unfolding pt by blast
      then show ?thesis
        using rd False True unp s1 s2 rd2 s3 unfolding t
        by (subst insert_case1.simps) simp
    next
      case F2: False
      from insert_case4_zst[OF z] obtain s' where
        "insert_case4 (Ref n) s = Some s'" "zst s' fs (ins_rot f g (Nd l n c v r))" by blast
      then show ?thesis
        using rd False F2 unfolding t
        by (subst insert_case1.simps) (simp add: abs_tree_plug)
    qed
  qed
qed

section \<open>Insertion\<close>


lemma rel_alloc: "rel s par t \<Longrightarrow> x \<in> fst ` set (nodes t) \<Longrightarrow> heap s x \<noteq> None"
  by (induction t arbitrary: par) (fastforce simp: image_iff)+

lemma crel_alloc:
  "crel s fs p \<Longrightarrow> x \<in> fst ` set (nbefore fs @ nafter fs) \<Longrightarrow> heap s x \<noteq> None"
  by (induction fs arbitrary: p rule: nbefore.induct) (auto dest: rel_alloc)

lemma zst_alloc:
  assumes "zst s fs t" "heap s a = None"
  shows "a \<notin> fst ` set (nodes t)" "a \<notin> fst ` set (nbefore fs)" "a \<notin> fst ` set (nafter fs)"
  using assms rel_alloc[of s "ptop fs" t a] crel_alloc[of s fs "ptr_of t" a]
  by (auto simp: zst_def)

lemma heap_new_Node [simp]:
  "heap (new_Node a v c l r p s) =
     (heap s)(a \<mapsto> \<lparr>base = \<lparr>m_color = c, m_left = l, m_right = r, m_parent = p\<rparr>, m_value = v\<rparr>)"
  by (simp add: new_Node_def)

lemma root_new_Node [simp]: "m_root (new_Node a v c l r p s) = m_root s"
  by (simp add: new_Node_def)

lemma nil_new_Node [simp]: "m_nil (new_Node a v c l r p s) = m_nil s"
  by (simp add: new_Node_def)

lemma rel_new_Node: "a \<notin> fst ` set (nodes t) \<Longrightarrow> rel (new_Node a v c l r p s) par t = rel s par t"
  by (rule rel_frame) auto

lemma crel_new_Node:
  "a \<notin> fst ` set (nbefore fs) \<Longrightarrow> a \<notin> fst ` set (nafter fs) \<Longrightarrow>
   crel (new_Node a v c l r p s) fs q = crel s fs q"
  by (rule crel_frame) auto

lemma link_new_zst:
  assumes "zst s fs Lf" "heap s a = None"
  shows "\<exists>s'. (let s1 = new_Node a v RED Nil Nil (ptop fs) s in
            if ptop fs = Nil then Some (s1\<lparr>m_root := Ref a\<rparr>)
            else if goleft fs then set_left_child (ptop fs) (Ref a) s1
            else set_right_child (ptop fs) (Ref a) s1) = Some s'
          \<and> zst s' fs (Nd Lf a RED v Lf)"
  using assms zst_alloc[OF assms]
  apply (cases fs rule: nbefore.cases)
  apply (clarsimp simp: zst_def nil_ok_def ptr_of_plug Let_def image_Un,
         simp add: acc_defs rel_upd_other crel_upd_other rel_new_Node crel_new_Node)+
  done


lemma col_plug_last: "fs \<noteq> [] \<Longrightarrow> col (plug fs t) = fcol (last fs)"
proof (induction fs arbitrary: t)
  case Nil
  then show ?case by simp
next
  case (Cons f fs)
  then show ?case by (cases fs; cases f) auto
qed

lemma insert_rb_abs:
  assumes "abs_tree s t" "rbt t" "heap s a = None"
  shows "\<exists>s'. insert_rb v a s = Some (snd (alocate v [] t) = Lf, s') \<and> abs_tree s' (ains v a t)
     \<and> (snd (alocate v [] t) \<noteq> Lf \<longrightarrow> s' = s)"
proof (cases "alocate v [] t")
  case (Pair fs t')
  note loc = locate_abs[OF assms(1), of v, unfolded Pair]
  show ?thesis
  proof (cases "t' = Lf")
    case False
    then show ?thesis using loc assms(1) Pair
      by (simp add: insert_rb_def locate_result_def ains_def)
  next
    case True
    have pl: "plug fs Lf = t" using alocate_plug[OF Pair] True by simp
    have z: "zst s fs Lf" using assms(1) pl by (simp flip: abs_tree_plug)
    from link_new_zst[OF z assms(3), of v] obtain s1 where
      s1: "(let s1 = new_Node a v RED Nil Nil (ptop fs) s in
            if ptop fs = Nil then Some (s1\<lparr>m_root := Ref a\<rparr>)
            else if goleft fs then set_left_child (ptop fs) (Ref a) s1
            else set_right_child (ptop fs) (Ref a) s1) = Some s1"
      and z1: "zst s1 fs (Nd Lf a RED v Lf)" by blast
    have lst: "fs \<noteq> [] \<Longrightarrow> fcol (last fs) = BLACK"
      using assms(2) col_plug_last[of fs Lf] pl by (simp add: rbt_def)
    from insert_case1_zst[OF z1 _ lst] obtain s' where
      s': "insert_case1 (Ref a) s1 = Some s'" and a': "abs_tree s' (ins_fix fs (Nd Lf a RED v Lf))"
      by auto
    show ?thesis using loc True s1 s' a' Pair
      by (auto simp: insert_rb_def locate_result_def ains_def Let_def split: if_splits)
  qed
qed

lemma ains_rbt:
  assumes "rbt t"
  shows "rbt (ains v a t)"
proof (cases "alocate v [] t")
  case (Pair fs t')
  show ?thesis
  proof (cases "t' = Lf")
    case False
    then show ?thesis using assms Pair by (simp add: ains_def)
  next
    case True
    have pl: "plug fs Lf = t" using alocate_plug[OF Pair] True by simp
    have "cinv fs (bh (Lf :: 'a tr))" using assms rbt_plug[of fs Lf] pl by simp
    then have "rbt (ins_fix fs (Nd Lf a RED v Lf))" by (intro ins_fix_rbt) auto
    then show ?thesis using Pair True by (simp add: ains_def)
  qed
qed

lemma ains_nodes:
  assumes "bst t" "v \<notin> set (vals t)"
  shows "\<exists>xs ys. nodes t = xs @ ys \<and> nodes (ains v a t) = xs @ (a, v) # ys
     \<and> (\<forall>n \<in> set xs. snd n < v) \<and> (\<forall>n \<in> set ys. v < snd n)"
proof (cases "alocate v [] t")
  case (Pair fs t')
  have "t' = Lf" using alocate_exists[OF assms(1), of v] assms(2) Pair by simp
  then have pl: "plug fs Lf = t" and ai: "ains v a t = ins_fix fs (Nd Lf a RED v Lf)"
    using alocate_plug[OF Pair] Pair by (simp_all add: ains_def)
  have po: "path_ok v fs" using alocate_path[OF Pair assms(1)] by simp
  have "nodes t = nbefore fs @ nafter fs" using pl[symmetric] by (simp add: nodes_plug)
  moreover have "nodes (ains v a t) = nbefore fs @ (a, v) # nafter fs"
    unfolding ai by (simp add: nodes_ins_fix nodes_plug)
  ultimately show ?thesis using po unfolding path_ok_def by blast
qed

lemma ains_present: "bst t \<Longrightarrow> v \<in> set (vals t) \<Longrightarrow> ains v a t = t"
  using alocate_exists[of t v] by (cases "alocate v [] t") (auto simp: ains_def)

lemma ains_bst:
  assumes "bst t"
  shows "bst (ains v a t)"
proof (cases "v \<in> set (vals t)")
  case True
  then show ?thesis using assms by (simp add: ains_present)
next
  case False
  from ains_nodes[OF assms False, of a] obtain xs ys where
    "nodes t = xs @ ys" "nodes (ains v a t) = xs @ (a, v) # ys"
    "\<forall>n \<in> set xs. snd n < v" "\<forall>n \<in> set ys. v < snd n" by blast
  then show ?thesis using assms
    by (fastforce simp: bst_def sorted_wrt_append)
qed

lemma ains_vals:
  assumes "bst t"
  shows "set (vals (ains v a t)) = insert v (set (vals t))"
proof (cases "v \<in> set (vals t)")
  case True
  then show ?thesis using assms by (auto simp: ains_present)
next
  case False
  from ains_nodes[OF assms False, of a] obtain xs ys where
    "nodes t = xs @ ys" "nodes (ains v a t) = xs @ (a, v) # ys" by blast
  then show ?thesis by auto
qed

lemma ains_addrs:
  assumes "bst t"
  shows "fst ` set (nodes (ains v a t)) = (if v \<in> set (vals t) then fst ` set (nodes t) else insert a (fst ` set (nodes t)))"
proof (cases "v \<in> set (vals t)")
  case True
  then show ?thesis using assms by (auto simp: ains_present)
next
  case False
  from ains_nodes[OF assms False, of a] obtain xs ys where
    "nodes t = xs @ ys" "nodes (ains v a t) = xs @ (a, v) # ys" by blast
  then show ?thesis using False by auto
qed



text \<open>The shape \<open>insert_case1\<close> has in the source, with the two functions it calls.\<close>

lemma insert_case1_unfold:
  "insert_case1 node t = do {
     p \<leftarrow> parent node t;
     if p = Nil then do {
       t \<leftarrow> set_color node BLACK t;
       Some (t\<lparr>m_root := node\<rparr>) }
     else insert_case2 node t }"
  unfolding insert_case2_def insert_case3_def by (rule insert_case1.simps)

section \<open>Counting\<close>


lemma sorted_filter_takeWhile:
  fixes xs :: "'a::linorder list"
  shows "sorted_wrt (<) xs \<Longrightarrow> filter (\<lambda>x. x < v) xs = takeWhile (\<lambda>x. x < v) xs"
proof (induction xs)
  case Nil
  show ?case by simp
next
  case (Cons x xs)
  show ?case
  proof (cases "x < v")
    case True
    with Cons show ?thesis by simp
  next
    case False
    have "filter (\<lambda>y. y < v) xs = []" using Cons.prems False by (intro filter_none) auto
    with False show ?thesis by simp
  qed
qed

lemma word_of_nat_less:
  "a < 2 ^ 64 \<Longrightarrow> b < 2 ^ 64 \<Longrightarrow> ((of_nat a :: 64 word) < of_nat b) = (a < b)"
  by (simp add: word_less_nat_alt of_nat_inverse)

lemma word_of_nat_le:
  "a < 2 ^ 64 \<Longrightarrow> b < 2 ^ 64 \<Longrightarrow> ((of_nat a :: 64 word) \<le> of_nat b) = (a \<le> b)"
  by (simp add: word_le_nat_alt of_nat_inverse)

lemma word_of_nat_diff:
  "b \<le> a \<Longrightarrow> (of_nat a :: 64 word) - of_nat b = of_nat (a - b)"
  by simp

lemma filter_count_bound:
  assumes "distinct (addrs t)" "0 \<notin> fst ` set (nodes t)"
  shows "length (filter P (vals t)) < 2 ^ 64"
proof -
  have A: "length (filter P (vals t)) \<le> length (vals t)" by (rule length_filter_le)
  have B: "length (vals t) < 2 ^ 64" using tree_size_bound[OF assms] by simp
  show ?thesis by (rule le_less_trans[OF A B])
qed

lemma count_le_split:
  fixes xs :: "'a::linorder list"
  assumes "distinct xs" "v \<in> set xs"
  shows "length (filter (\<lambda>x. x \<le> v) xs) = Suc (length (filter (\<lambda>x. x < v) xs))"
proof -
  have "{x \<in> set xs. x \<le> v} = insert v {x \<in> set xs. x < v}" using assms(2) by auto
  moreover have "v \<notin> {x \<in> set xs. x < v}" by simp
  ultimately have "card {x \<in> set xs. x \<le> v} = Suc (card {x \<in> set xs. x < v})"
    by (simp add: card_insert_if)
  then show ?thesis
    using distinct_length_filter[OF assms(1), of "\<lambda>x. x \<le> v"]
      distinct_length_filter[OF assms(1), of "\<lambda>x. x < v"]
    by (simp add: Int_def conj_commute)
qed

lemma count_le_absent:
  fixes xs :: "'a::linorder list"
  assumes "v \<notin> set xs"
  shows "filter (\<lambda>x. x \<le> v) xs = filter (\<lambda>x. x < v) xs"
  using assms by (intro filter_cong) (auto simp: less_le)

lemma count_range:
  fixes xs :: "'a::linorder list"
  assumes "lo \<le> hi"
  shows "length (filter (\<lambda>x. x \<le> hi) xs) - length (filter (\<lambda>x. x \<le> lo) xs)
           = length (filter (\<lambda>x. lo < x \<and> x \<le> hi) xs)
         \<and> length (filter (\<lambda>x. x \<le> lo) xs) \<le> length (filter (\<lambda>x. x \<le> hi) xs)"
  using assms by (induction xs) auto

lemma count_range_closed:
  fixes xs :: "'a::linorder list"
  assumes "lo \<le> hi"
  shows "length (filter (\<lambda>x. x \<le> hi) xs) - length (filter (\<lambda>x. x < lo) xs)
           = length (filter (\<lambda>x. lo \<le> x \<and> x \<le> hi) xs)
         \<and> length (filter (\<lambda>x. x < lo) xs) \<le> length (filter (\<lambda>x. x \<le> hi) xs)"
  using assms by (induction xs) auto

section \<open>Erasure on the abstract tree\<close>

lemma plug_append: "plug (xs @ ys) t = plug ys (plug xs t)"
  by (induction xs arbitrary: t) auto

lemma nbefore_append: "nbefore (xs @ ys) = nbefore ys @ nbefore xs"
  by (induction xs rule: nbefore.induct) auto

lemma nafter_append: "nafter (xs @ ys) = nafter xs @ nafter ys"
  by (induction xs rule: nbefore.induct) auto

lemma amin_plug: "amin fs t = (fs', t') \<Longrightarrow> plug fs' t' = plug fs t"
  by (induction fs t rule: amin.induct) auto

lemma amin_shape: "amin fs t = (fs', t') \<Longrightarrow> t \<noteq> Lf \<Longrightarrow> \<exists>y yc yv yr. t' = Nd Lf y yc yv yr"
  by (induction fs t rule: amin.induct) auto

lemma amin_before: "amin fs t = (fs', t') \<Longrightarrow> nbefore fs' = nbefore fs"
  by (induction fs t rule: amin.induct) auto

lemma nodes_del_left:
  "del_left p pc pv w fs x = (fs', x') \<Longrightarrow> nodes (plug fs' x') = nodes (plug fs (Nd x p pc pv w))"
  by (cases "(p, pc, pv, w, fs, x)" rule: del_left.cases)
     (auto simp: nodes_plug split: if_splits tr.splits)

lemma nodes_del_right:
  "del_right p pc pv w fs x = (fs', x') \<Longrightarrow> nodes (plug fs' x') = nodes (plug fs (Nd w p pc pv x))"
  by (cases "(p, pc, pv, w, fs, x)" rule: del_right.cases)
     (auto simp: nodes_plug split: if_splits tr.splits)

lemma nodes_efl: "efl fs x = (fs', x') \<Longrightarrow> nodes (plug fs' x') = nodes (plug fs x)"
  by (induction fs x rule: efl.induct)
     (auto dest!: nodes_del_left nodes_del_right simp: nodes_plug
           simp del: del_left.simps del_right.simps)

lemma nodes_del_fix: "nodes (del_fix fs x) = nodes (plug fs x)"
proof (induction fs x rule: del_fix.induct)
  case (1 fs x)
  show ?case
  proof (cases "fs \<noteq> [] \<and> col x = BLACK")
    case True
    obtain fs' x' where e: "efl fs x = (fs', x')" by (cases "efl fs x")
    from 1[OF True e[symmetric]] nodes_efl[OF e] True e show ?thesis
      by (subst del_fix.simps) simp
  next
    case False
    then show ?thesis by (subst del_fix.simps) (auto simp: nodes_plug)
  qed
qed

lemma nodes_adetach:
  assumes "adetach fs (Nd l z c v r) = (fs', x', rc)"
  shows "nodes (plug fs' x') = nbefore fs @ nodes l @ nodes r @ nafter fs"
proof (cases "l = Lf \<or> r = Lf")
  case True
  then show ?thesis using assms by (auto simp: nodes_plug split: if_splits)
next
  case False
  obtain rfs t' where m: "amin [] r = (rfs, t')" by (cases "amin [] r")
  from amin_shape[OF m] False obtain y yc yv yr where t': "t' = Nd Lf y yc yv yr" by auto
  have r: "nodes r = (y, yv) # nodes yr @ nafter rfs"
    using amin_plug[OF m, symmetric] amin_before[OF m] t' by (simp add: nodes_plug)
  show ?thesis using assms False m t' r amin_before[OF m]
    by (auto simp: nodes_plug nbefore_append nafter_append)
qed

lemma bh_pos [simp]: "0 < bh t"
  by (induction t) auto

lemma bh_neq0 [simp]: "bh t \<noteq> 0"
  using bh_pos[of t] by simp

lemma col_cases: "c \<noteq> BLACK \<longleftrightarrow> c = RED" "c \<noteq> RED \<longleftrightarrow> c = BLACK"
  by (cases c; simp)+

lemma invc_paint_any: "invc t \<Longrightarrow> invc (paint BLACK t)"
  by (cases t) auto

lemma bh_paint_black: "bh (paint BLACK t) = (if col t = RED then Suc (bh t) else bh t)"
  by (cases t) (auto simp: col_cases)

lemma rbt_invs: "rbt t \<Longrightarrow> invc t \<and> invh t"
  by (simp add: rbt_def)

lemma dinv_top: "rbt (plug fs t) \<Longrightarrow> dinv [] (plug fs t)"
  by (simp add: dinv_def rbt_def)

lemma del_left_dinv:
  assumes "cinv (LF p pc pv w # fs) (Suc (bh x))" "invc x" "invh x" "col x = BLACK" "col w = BLACK"
    "del_left p pc pv w fs x = (fs', x')"
  shows "dinv fs' x'"
proof (cases w)
  case Lf
  then show ?thesis using assms by simp
next
  case (Nd wl wa wc wv wr)
  show ?thesis
  proof (cases "col wl = BLACK \<and> col wr = BLACK")
    case True
    then show ?thesis using assms Nd by (auto simp: dinv_def col_cases)
  next
    case False
    have "rbt (plug fs' x')"
    proof (cases "col wr = BLACK")
      case True
      with False obtain wll l wlv wlr where wl: "wl = Nd wll l RED wlv wlr"
        by (cases wl) (auto simp: col_cases)
      have x': "fs' = []" "x' = plug fs (Nd (Nd x p BLACK pv wll) l pc wlv (Nd wlr wa BLACK wv wr))"
        using assms(6) Nd wl True by auto
      have "rbt (plug fs (Nd (Nd x p BLACK pv wll) l pc wlv (Nd wlr wa BLACK wv wr)))"
        unfolding rbt_plug using assms(1-5) Nd wl True
        by (cases fs) (auto simp: col_cases)
      then show ?thesis using x' by simp
    next
      case F2: False
      have x': "fs' = []" "x' = plug fs (Nd (Nd x p BLACK pv wl) wa pc wv (paint BLACK wr))"
        using assms(6) Nd F2 by auto
      have "rbt (plug fs (Nd (Nd x p BLACK pv wl) wa pc wv (paint BLACK wr)))"
        unfolding rbt_plug using assms(1-5) Nd F2
        by (cases fs) (auto simp: col_cases bh_paint_black)
      then show ?thesis using x' by simp
    qed
    moreover have "fs' = []" using assms(6) Nd False by (auto split: if_splits tr.splits simp: col_cases)
    ultimately show ?thesis using dinv_top[of "[]" x'] by simp
  qed
qed

lemma del_right_dinv:
  assumes "cinv (RF w p pc pv # fs) (Suc (bh x))" "invc x" "invh x" "col x = BLACK" "col w = BLACK"
    "del_right p pc pv w fs x = (fs', x')"
  shows "dinv fs' x'"
proof (cases w)
  case Lf
  then show ?thesis using assms by simp
next
  case (Nd wl wa wc wv wr)
  show ?thesis
  proof (cases "col wr = BLACK \<and> col wl = BLACK")
    case True
    then show ?thesis using assms Nd by (auto simp: dinv_def col_cases)
  next
    case False
    have "rbt (plug fs' x')"
    proof (cases "col wl = BLACK")
      case True
      with False obtain wrl r wrv wrr where wr: "wr = Nd wrl r RED wrv wrr"
        by (cases wr) (auto simp: col_cases)
      have x': "fs' = []" "x' = plug fs (Nd (Nd wl wa BLACK wv wrl) r pc wrv (Nd wrr p BLACK pv x))"
        using assms(6) Nd wr True by auto
      have "rbt (plug fs (Nd (Nd wl wa BLACK wv wrl) r pc wrv (Nd wrr p BLACK pv x)))"
        unfolding rbt_plug using assms(1-5) Nd wr True
        by (cases fs) (auto simp: col_cases)
      then show ?thesis using x' by simp
    next
      case F2: False
      have x': "fs' = []" "x' = plug fs (Nd (paint BLACK wl) wa pc wv (Nd wr p BLACK pv x))"
        using assms(6) Nd F2 by auto
      have "rbt (plug fs (Nd (paint BLACK wl) wa pc wv (Nd wr p BLACK pv x)))"
        unfolding rbt_plug using assms(1-5) Nd F2
        by (cases fs) (auto simp: col_cases bh_paint_black)
      then show ?thesis using x' by simp
    qed
    moreover have "fs' = []" using assms(6) Nd False by (auto split: if_splits tr.splits simp: col_cases)
    ultimately show ?thesis using dinv_top[of "[]" x'] by simp
  qed
qed

lemma efl_dinv:
  assumes "dinv fs x" "fs \<noteq> []" "col x = BLACK" "efl fs x = (fs', x')"
  shows "dinv fs' x'"
proof -
  from assms(1,3) have ix: "invc x" "invh x" and ci: "cinv fs (Suc (bh x))"
    by (cases x; auto simp: dinv_def)+
  obtain f fs0 where fs: "fs = f # fs0" using assms(2) by (cases fs) auto
  show ?thesis
  proof (cases f)
    case f: (LF p pc pv w)
    show ?thesis
    proof (cases "col w = RED")
      case True
      then obtain wl wa wv wr where w: "w = Nd wl wa RED wv wr" by (cases w) auto
      have e: "del_left p RED pv wl (LF wa BLACK wv wr # fs0) x = (fs', x')"
        using assms(4) fs f w by simp
      have c: "cinv (LF p RED pv wl # LF wa BLACK wv wr # fs0) (Suc (bh x))"
        using ci fs f w by (auto simp: col_cases)
      have "col wl = BLACK" using ci fs f w by (auto simp: col_cases)
      from del_left_dinv[OF c ix assms(3) this e] show ?thesis .
    next
      case False
      then have b: "col w = BLACK" by (simp add: col_cases)
      have e: "del_left p pc pv w fs0 x = (fs', x')"
        using assms(4) fs f b by (cases w; cases "col w") auto
      from del_left_dinv[OF ci[unfolded fs f] ix assms(3) b e] show ?thesis .
    qed
  next
    case f: (RF w p pc pv)
    show ?thesis
    proof (cases "col w = RED")
      case True
      then obtain wl wa wv wr where w: "w = Nd wl wa RED wv wr" by (cases w) auto
      have e: "del_right p RED pv wr (RF wl wa BLACK wv # fs0) x = (fs', x')"
        using assms(4) fs f w by simp
      have c: "cinv (RF wr p RED pv # RF wl wa BLACK wv # fs0) (Suc (bh x))"
        using ci fs f w by (auto simp: col_cases)
      have "col wr = BLACK" using ci fs f w by (auto simp: col_cases)
      from del_right_dinv[OF c ix assms(3) this e] show ?thesis .
    next
      case False
      then have b: "col w = BLACK" by (simp add: col_cases)
      have e: "del_right p pc pv w fs0 x = (fs', x')"
        using assms(4) fs f b by (cases w; cases "col w") auto
      from del_right_dinv[OF ci[unfolded fs f] ix assms(3) b e] show ?thesis .
    qed
  qed
qed

lemma del_fix_rbt: "dinv fs x \<Longrightarrow> rbt (del_fix fs x)"
proof (induction fs x rule: del_fix.induct)
  case (1 fs x)
  show ?case
  proof (cases "fs \<noteq> [] \<and> col x = BLACK")
    case True
    obtain fs' x' where e: "efl fs x = (fs', x')" by (cases "efl fs x")
    have "dinv fs' x'" using efl_dinv[OF "1.prems" _ _ e] True by simp
    from "1.IH"[OF True e[symmetric] this] True e show ?thesis
      by (subst del_fix.simps) simp
  next
    case False
    have "rbt (plug fs (paint BLACK x))"
    proof (cases "fs = []")
      case True
      then show ?thesis using "1.prems" by (simp add: dinv_def rbt_def)
    next
      case F2: False
      with False have r: "col x = RED" by (simp add: col_cases)
      then show ?thesis unfolding rbt_plug using "1.prems" F2
        by (cases fs) (auto simp: dinv_def bh_paint_black)
    qed
    with False show ?thesis by (subst del_fix.simps) auto
  qed
qed

lemma cinv_cong:
  "map fcol fs = map fcol fs' \<Longrightarrow> map fsib fs = map fsib fs' \<Longrightarrow> cinv fs k = cinv fs' k"
proof (induction fs arbitrary: fs' k)
  case Nil
  then show ?case by simp
next
  case (Cons f fs)
  then obtain f' fs0 where fs': "fs' = f' # fs0" by (cases fs') auto
  with Cons.prems have e: "fcol f = fcol f'" "fsib f = fsib f'" "map fcol fs = map fcol fs0"
    "map fsib fs = map fsib fs0" by auto
  have h: "(fs \<noteq> [] \<and> fcol (hd fs) = BLACK) = (fs0 \<noteq> [] \<and> fcol (hd fs0) = BLACK)"
    using e(3) by (cases fs; cases fs0) auto
  show ?case unfolding fs' using Cons.IH[OF e(3,4)] e(1,2) h by simp
qed

lemma hole_ok_cong: "map fcol fs = map fcol fs' \<Longrightarrow> hole_ok fs t = hole_ok fs' t"
  by (cases fs; cases fs') auto

lemma rbt_plug_cong:
  assumes "rbt (plug fs t)" "map fcol fs = map fcol fs'" "map fsib fs = map fsib fs'"
  shows "rbt (plug fs' t)"
  using assms(1) unfolding rbt_plug cinv_cong[OF assms(2,3)] hole_ok_cong[OF assms(2)] .

lemma remove_left_leaf:
  assumes "rbt (plug fs (Nd Lf y yc yv yr))"
  shows "yc = BLACK \<Longrightarrow> dinv fs yr" "yc = BLACK \<Longrightarrow> yr = Lf \<Longrightarrow> fs \<noteq> [] \<Longrightarrow> fsib (hd fs) \<noteq> Lf"
    "yc = RED \<Longrightarrow> rbt (plug fs yr)"
proof -
  from assms have c0: "cinv fs (bh (Nd Lf y yc yv yr))" and i0: "invc (Nd Lf y yc yv yr)"
    and h0: "invh (Nd Lf y yc yv yr)" and ho: "hole_ok fs (Nd Lf y yc yv yr)"
    unfolding rbt_plug by blast+
  from h0 have "1 = bh yr" by simp
  then have b: "bh yr = 1" by (rule sym)
  from c0 have c: "cinv fs (1 + (if yc = BLACK then 1 else 0))" by simp
  from i0 have i: "invc yr" and cc: "yc = BLACK \<or> col yr = BLACK" by simp_all
  from h0 have h: "invh yr" by simp
  show "yc = BLACK \<Longrightarrow> dinv fs yr"
    using c i h b by (simp add: dinv_def invc_paint_any)
  show "yc = BLACK \<Longrightarrow> yr = Lf \<Longrightarrow> fs \<noteq> [] \<Longrightarrow> fsib (hd fs) \<noteq> Lf"
    using c by (cases fs) auto
  show "yc = RED \<Longrightarrow> rbt (plug fs yr)"
    unfolding rbt_plug using c i h b ho cc by (cases fs) auto
qed

lemma remove_right_leaf:
  assumes "rbt (plug fs (Nd yl y yc yv Lf))"
  shows "yc = BLACK \<Longrightarrow> dinv fs yl" "yc = BLACK \<Longrightarrow> yl = Lf \<Longrightarrow> fs \<noteq> [] \<Longrightarrow> fsib (hd fs) \<noteq> Lf"
    "yc = RED \<Longrightarrow> rbt (plug fs yl)"
proof -
  from assms have c0: "cinv fs (bh (Nd yl y yc yv Lf))" and i0: "invc (Nd yl y yc yv Lf)"
    and h0: "invh (Nd yl y yc yv Lf)" and ho: "hole_ok fs (Nd yl y yc yv Lf)"
    unfolding rbt_plug by blast+
  from h0 have b: "bh yl = 1" by simp
  from c0 b have c: "cinv fs (1 + (if yc = BLACK then 1 else 0))" by simp
  from i0 have i: "invc yl" and cc: "yc = BLACK \<or> col yl = BLACK" by simp_all
  from h0 have h: "invh yl" by simp
  show "yc = BLACK \<Longrightarrow> dinv fs yl"
    using c i h b by (simp add: dinv_def invc_paint_any)
  show "yc = BLACK \<Longrightarrow> yl = Lf \<Longrightarrow> fs \<noteq> [] \<Longrightarrow> fsib (hd fs) \<noteq> Lf"
    using c by (cases fs) auto
  show "yc = RED \<Longrightarrow> rbt (plug fs yl)"
    unfolding rbt_plug using c i h b ho cc by (cases fs) auto
qed

lemma adetach_inv:
  assumes "rbt (plug fs (Nd l z c v r))" "adetach fs (Nd l z c v r) = (fs', x', rc)"
  shows "rc = BLACK \<Longrightarrow> dinv fs' x'"
    "rc = BLACK \<Longrightarrow> x' = Lf \<Longrightarrow> fs' \<noteq> [] \<Longrightarrow> fsib (hd fs') \<noteq> Lf"
    "rc = RED \<Longrightarrow> rbt (plug fs' x')"
proof -
  have "(rc = BLACK \<longrightarrow> dinv fs' x' \<and> (x' = Lf \<longrightarrow> fs' \<noteq> [] \<longrightarrow> fsib (hd fs') \<noteq> Lf))
      \<and> (rc = RED \<longrightarrow> rbt (plug fs' x'))"
  proof (cases "l = Lf")
    case True
    then have "fs' = fs" "x' = r" "rc = c" using assms(2) by auto
    then show ?thesis using remove_left_leaf[OF assms(1)[unfolded True]] by auto
  next
    case False
    show ?thesis
    proof (cases "r = Lf")
      case True
      then have "fs' = fs" "x' = l" "rc = c" using assms(2) False by auto
      then show ?thesis using remove_right_leaf[OF assms(1)[unfolded True]] by auto
    next
      case F2: False
      obtain rfs t' where m: "amin [] r = (rfs, t')" by (cases "amin [] r")
      from amin_shape[OF m F2] obtain y yc yv yr where t': "t' = Nd Lf y yc yv yr" by auto
      have r: "r = plug rfs (Nd Lf y yc yv yr)" using amin_plug[OF m] t' by simp
      have e: "fs' = rfs @ RF l y c yv # fs" "x' = yr" "rc = yc"
        using assms(2) False F2 m t' by auto
      have "rbt (plug (rfs @ RF l z c v # fs) (Nd Lf y yc yv yr))"
        using assms(1) r by (simp add: plug_append)
      then have "rbt (plug (rfs @ RF l y c yv # fs) (Nd Lf y yc yv yr))"
        by (rule rbt_plug_cong) simp_all
      from remove_left_leaf[OF this] show ?thesis unfolding e by auto
    qed
  qed
  then show "rc = BLACK \<Longrightarrow> dinv fs' x'"
    "rc = BLACK \<Longrightarrow> x' = Lf \<Longrightarrow> fs' \<noteq> [] \<Longrightarrow> fsib (hd fs') \<noteq> Lf"
    "rc = RED \<Longrightarrow> rbt (plug fs' x')" by auto
qed

lemma rbt_paint: "rbt t \<Longrightarrow> paint BLACK t = t"
  by (cases t) (auto simp: rbt_def)

lemma aerase_absent: "bst t \<Longrightarrow> v \<notin> set (vals t) \<Longrightarrow> aerase v t = t"
  using alocate_exists[of t v] by (cases "alocate v [] t") (auto simp: aerase_def split: tr.splits)

lemma aerase_rbt:
  assumes "rbt t"
  shows "rbt (aerase v t)"
proof (cases "alocate v [] t")
  case (Pair fs zt)
  show ?thesis
  proof (cases zt)
    case Lf
    then show ?thesis using Pair assms by (simp add: aerase_def)
  next
    case (Nd l z c x r)
    obtain fs' x' rc where d: "adetach fs (Nd l z c x r) = (fs', x', rc)"
      by (cases "adetach fs (Nd l z c x r)")
    have pl: "rbt (plug fs (Nd l z c x r))" using alocate_plug[OF Pair] Nd assms by simp
    have "rbt (if rc = BLACK then del_fix fs' x' else plug fs' x')"
      using adetach_inv(1,3)[OF pl d] del_fix_rbt[of fs' x'] by (cases rc) auto
    then show ?thesis using Pair Nd d by (simp add: aerase_def rbt_paint)
  qed
qed

lemma aerase_nodes:
  assumes "bst t" "v \<in> set (vals t)"
  shows "\<exists>xs a ys. nodes t = xs @ (a, v) # ys \<and> nodes (aerase v t) = xs @ ys"
proof (cases "alocate v [] t")
  case (Pair fs zt)
  have "zt \<noteq> Lf" using alocate_exists[OF assms(1), of v] assms(2) Pair by simp
  from alocate_found[OF Pair this] obtain l z c r where zt: "zt = Nd l z c v r" by blast
  obtain fs' x' rc where d: "adetach fs (Nd l z c v r) = (fs', x', rc)"
    by (cases "adetach fs (Nd l z c v r)")
  have t: "nodes t = (nbefore fs @ nodes l) @ (z, v) # (nodes r @ nafter fs)"
    using alocate_plug[OF Pair, symmetric] zt by (simp add: nodes_plug)
  have "nodes (aerase v t) = (nbefore fs @ nodes l) @ (nodes r @ nafter fs)"
    using Pair zt d nodes_adetach[OF d]
    by (simp add: aerase_def nodes_del_fix del: adetach.simps)
  with t show ?thesis by blast
qed

lemma aerase_bst:
  assumes "bst t"
  shows "bst (aerase v t)"
proof (cases "v \<in> set (vals t)")
  case False
  then show ?thesis using assms by (simp add: aerase_absent)
next
  case True
  from aerase_nodes[OF assms True] obtain xs a ys where
    "nodes t = xs @ (a, v) # ys" "nodes (aerase v t) = xs @ ys" by blast
  then show ?thesis using assms by (auto simp: bst_def sorted_wrt_append)
qed

lemma aerase_vals:
  assumes "bst t"
  shows "set (vals (aerase v t)) = set (vals t) - {v}"
proof (cases "v \<in> set (vals t)")
  case False
  then show ?thesis using assms by (simp add: aerase_absent)
next
  case True
  from aerase_nodes[OF assms True] obtain xs a ys where
    n: "nodes t = xs @ (a, v) # ys" "nodes (aerase v t) = xs @ ys" by blast
  have "distinct (vals t)" by (rule bst_distinct[OF assms])
  then show ?thesis unfolding n by auto
qed

lemma aerase_addrs:
  assumes "bst t"
  shows "fst ` set (nodes (aerase v t)) \<subseteq> fst ` set (nodes t)"
proof (cases "v \<in> set (vals t)")
  case False
  then show ?thesis using assms by (simp add: aerase_absent)
next
  case True
  from aerase_nodes[OF assms True] obtain xs a ys where
    n: "nodes t = xs @ (a, v) # ys" "nodes (aerase v t) = xs @ ys" by blast
  show ?thesis unfolding n by auto
qed

section \<open>Erasure on the store\<close>

lemma erase_fixup_left_unfold:
  "erase_fixup_left node t = do {
     p \<leftarrow> parent node t;
     sibling \<leftarrow> right_child p t;
     sc \<leftarrow> color_of sibling t;
     (sibling, t) \<leftarrow>
       (if sc = RED then do {
          t \<leftarrow> (if sibling \<noteq> Nil then set_color sibling BLACK t else Some t);
          p \<leftarrow> parent node t;
          t \<leftarrow> set_color p RED t;
          p \<leftarrow> parent node t;
          t \<leftarrow> rotate_left p t;
          p \<leftarrow> parent node t;
          sibling \<leftarrow> right_child p t;
          Some (sibling, t) }
        else Some (sibling, t));
     erase_fixup_left_tail node sibling t }"
  unfolding erase_fixup_left_def erase_fixup_left_tail_def erase_fixup_left_final_def ..

lemma hole_parent:
  assumes "zst s (f # fs) x" "x = Lf \<longrightarrow> m_parent (m_nil s) = Ref (faddr f)"
  shows "parent (ptr_of x) s = Some (Ref (faddr f))"
proof (cases x)
  case Lf
  then show ?thesis using assms(2) by (simp add: acc_defs)
next
  case (Nd l a c v r)
  then show ?thesis using zst_reads(1)[of s "f # fs" l a c v r] assms(1) by simp
qed

lemma frame_reads:
  assumes "zst s (f # fs) x"
  shows "color (Ref (faddr f)) s = Some (fcol f)"
    "parent (Ref (faddr f)) s = Some (ptop fs)"
  using assms by (cases f; auto simp: zst_up dest: zst_reads(1,2))+

lemma frame_reads_L:
  assumes "zst s (LF p pc pv w # fs) x"
  shows "left_child (Ref p) s = Some (ptr_of x)" "right_child (Ref p) s = Some (ptr_of w)"
  using assms by (auto simp: zst_up dest: zst_reads(3,4))

lemma frame_reads_R:
  assumes "zst s (RF w p pc pv # fs) x"
  shows "left_child (Ref p) s = Some (ptr_of w)" "right_child (Ref p) s = Some (ptr_of x)"
  using assms by (auto simp: zst_up dest: zst_reads(3,4))

lemma nil_reads:
  assumes "zst s fs t"
  shows "left_child Nil s = Some Nil" "right_child Nil s = Some Nil" "color_of Nil s = Some BLACK"
  using assms by (simp_all add: zst_def nil_ok_def acc_defs)

lemma color_of_zst: "zst s fs t \<Longrightarrow> color_of (ptr_of t) s = Some (col t)"
  by (cases t) (auto simp: color_of_def dest: zst_reads(2))

lemma zst_sib_L: "zst s (LF p pc pv w # fs) x = zst s (RF x p pc pv # fs) w"
  by (simp add: zst_up)

lemma paint_zst:
  assumes "zst s fs t"
  shows "\<exists>s'. (if ptr_of t \<noteq> Nil then set_color (ptr_of t) k s else Some s) = Some s'
     \<and> zst s' fs (paint k t) \<and> m_nil s' = m_nil s"
proof (cases t)
  case Lf
  then show ?thesis using assms by simp
next
  case (Nd l a c v r)
  then show ?thesis using set_color_zst[of s fs l a c v r k] assms by simp
qed

lemma efl_final:
  assumes z: "zst s (LF p pc pv (Nd wl w wc wv wr) # fs) x"
    and np: "x = Lf \<longrightarrow> m_parent (m_nil s) = Ref p"
  shows "\<exists>s'. erase_fixup_left_final (ptr_of x) (Ref w) s
        = Some (ptr_of (plug fs (Nd (Nd x p BLACK pv wl) w pc wv (paint BLACK wr))), s')
     \<and> zst s' [] (plug fs (Nd (Nd x p BLACK pv wl) w pc wv (paint BLACK wr)))
     \<and> m_nil s' = m_nil s"
proof -
  have p0: "parent (ptr_of x) s = Some (Ref p)" using hole_parent[OF z] np by simp
  have c0: "color (Ref p) s = Some pc" using frame_reads(1)[OF z] by simp
  from set_color_sib[OF z, of pc] obtain s1 where s1: "set_color (Ref w) pc s = Some s1"
    and z1: "zst s1 (LF p pc pv (Nd wl w pc wv wr) # fs) x" and n1: "m_nil s1 = m_nil s" by auto
  have p1: "parent (ptr_of x) s1 = Some (Ref p)" using hole_parent[OF z1] np n1 by simp
  from set_color_frame[OF z1, of BLACK] obtain s2 where s2: "set_color (Ref p) BLACK s1 = Some s2"
    and z2: "zst s2 (LF p BLACK pv (Nd wl w pc wv wr) # fs) x" and n2: "m_nil s2 = m_nil s1" by auto
  have z2': "zst s2 (RF wl w pc wv # RF x p BLACK pv # fs) wr" using z2 by (simp add: zst_up)
  have r2: "right_child (Ref w) s2 = Some (ptr_of wr)" using z2' by (rule frame_reads_R(2))
  from paint_zst[OF z2', of BLACK] obtain s3 where
    s3: "(if ptr_of wr \<noteq> Nil then set_color (ptr_of wr) BLACK s2 else Some s2) = Some s3"
    and z3: "zst s3 (RF wl w pc wv # RF x p BLACK pv # fs) (paint BLACK wr)"
    and n3: "m_nil s3 = m_nil s2" by blast
  have z3': "zst s3 (LF p BLACK pv (Nd wl w pc wv (paint BLACK wr)) # fs) x"
    using z3 by (simp add: zst_up)
  have p3: "parent (ptr_of x) s3 = Some (Ref p)" using hole_parent[OF z3'] np n1 n2 n3 by simp
  have z3'': "zst s3 fs (Nd x p BLACK pv (Nd wl w pc wv (paint BLACK wr)))"
    using z3 by (simp add: zst_up)
  from rotate_left_zst[OF z3''] obtain s4 where s4: "rotate_left (Ref p) s3 = Some s4"
    and z4: "zst s4 fs (Nd (Nd x p BLACK pv wl) w pc wv (paint BLACK wr))"
    and n4: "m_nil s4 = m_nil s3" by blast
  have z4': "zst s4 [] (plug fs (Nd (Nd x p BLACK pv wl) w pc wv (paint BLACK wr)))"
    using z4 by (simp flip: abs_tree_plug)
  have r4: "m_root s4 = ptr_of (plug fs (Nd (Nd x p BLACK pv wl) w pc wv (paint BLACK wr)))"
    using z4 by (simp add: zst_def)
  show ?thesis using p0 c0 s1 p1 s2 r2 s3 p3 s4 z4' r4 n1 n2 n3 n4
    by (simp add: erase_fixup_left_final_def)
qed

lemma efl_tail:
  assumes z: "zst s (LF p pc pv w # fs) x"
    and np: "x = Lf \<longrightarrow> m_parent (m_nil s) = Ref p"
  shows "\<exists>s'. erase_fixup_left_tail (ptr_of x) (ptr_of w) s
        = Some (ptr_of (snd (del_left p pc pv w fs x)), s')
     \<and> zst s' (fst (del_left p pc pv w fs x)) (snd (del_left p pc pv w fs x))
     \<and> m_nil s' = m_nil s"
proof (cases w)
  case Lf
  have p0: "parent (ptr_of x) s = Some (Ref p)" using hole_parent[OF z] np by simp
  have "zst s fs (Nd x p pc pv Lf)" using z Lf by (simp add: zst_up)
  then show ?thesis using Lf p0 nil_reads[OF z] by (simp add: erase_fixup_left_tail_def)
next
  case (Nd wl w' wc wv wr)
  note z0 = z[unfolded Nd]
  have zw: "zst s (RF x p pc pv # fs) (Nd wl w' wc wv wr)" using z0 by (simp add: zst_up)
  have zl: "zst s (LF w' wc wv wr # RF x p pc pv # fs) wl" using zw by (simp add: zst_up)
  have zr: "zst s (RF wl w' wc wv # RF x p pc pv # fs) wr" using zw by (simp add: zst_up)
  note rd = zst_reads(3,4)[OF zw] color_of_zst[OF zl] color_of_zst[OF zr]
  show ?thesis
  proof (cases "col wl = BLACK \<and> col wr = BLACK")
    case True
    from set_color_sib[OF z0, of RED] obtain s1 where s1: "set_color (Ref w') RED s = Some s1"
      and z1: "zst s1 (LF p pc pv (Nd wl w' RED wv wr) # fs) x" and n1: "m_nil s1 = m_nil s" by auto
    have p1: "parent (ptr_of x) s1 = Some (Ref p)" using hole_parent[OF z1] np n1 by simp
    have "zst s1 fs (Nd x p pc pv (Nd wl w' RED wv wr))" using z1 by (simp add: zst_up)
    then show ?thesis using Nd True rd s1 p1 n1 by (simp add: erase_fixup_left_tail_def)
  next
    case False
    show ?thesis
    proof (cases "col wr = BLACK")
      case wrb: True
      with False have "col wl \<noteq> BLACK" by simp
      then obtain wll l wlv wlr where wl: "wl = Nd wll l RED wlv wlr"
        by (cases wl; cases "col wl") auto
      note zl' = zl[unfolded wl]
      from set_color_zst[OF zl', of BLACK] obtain s1 where s1: "set_color (Ref l) BLACK s = Some s1"
        and z1: "zst s1 (LF w' wc wv wr # RF x p pc pv # fs) (Nd wll l BLACK wlv wlr)"
        and n1: "m_nil s1 = m_nil s" by blast
      from set_color_frame[OF z1, of RED] obtain s2 where s2: "set_color (Ref w') RED s1 = Some s2"
        and z2: "zst s2 (LF w' RED wv wr # RF x p pc pv # fs) (Nd wll l BLACK wlv wlr)"
        and n2: "m_nil s2 = m_nil s1" by auto
      have z2': "zst s2 (RF x p pc pv # fs) (Nd (Nd wll l BLACK wlv wlr) w' RED wv wr)"
        using z2 by (simp add: zst_up)
      from rotate_right_zst[OF z2'] obtain s3 where s3: "rotate_right (Ref w') s2 = Some s3"
        and z3: "zst s3 (RF x p pc pv # fs) (Nd wll l BLACK wlv (Nd wlr w' RED wv wr))"
        and n3: "m_nil s3 = m_nil s2" by blast
      have z3': "zst s3 (LF p pc pv (Nd wll l BLACK wlv (Nd wlr w' RED wv wr)) # fs) x"
        using z3 by (simp add: zst_up)
      have p3: "parent (ptr_of x) s3 = Some (Ref p)" using hole_parent[OF z3'] np n1 n2 n3 by simp
      have r3: "right_child (Ref p) s3 = Some (Ref l)" using frame_reads_L(2)[OF z3'] by simp
      from efl_final[OF z3'] np n1 n2 n3 obtain s4 where
        s4: "erase_fixup_left_final (ptr_of x) (Ref l) s3
          = Some (ptr_of (plug fs (Nd (Nd x p BLACK pv wll) l pc wlv (Nd wlr w' BLACK wv wr))), s4)"
        and z4: "zst s4 [] (plug fs (Nd (Nd x p BLACK pv wll) l pc wlv (Nd wlr w' BLACK wv wr)))"
        and n4: "m_nil s4 = m_nil s3" by auto
      show ?thesis using Nd False wrb wl rd s1 s2 s3 p3 r3 s4 z4 n1 n2 n3 n4
        by (simp add: erase_fixup_left_tail_def)
    next
      case wrr: False
      from efl_final[OF z0 np] obtain s4 where
        s4: "erase_fixup_left_final (ptr_of x) (Ref w') s
          = Some (ptr_of (plug fs (Nd (Nd x p BLACK pv wl) w' pc wv (paint BLACK wr))), s4)"
        and z4: "zst s4 [] (plug fs (Nd (Nd x p BLACK pv wl) w' pc wv (paint BLACK wr)))"
        and n4: "m_nil s4 = m_nil s" by auto
      show ?thesis using Nd False wrr rd s4 z4 n4
        by (simp add: erase_fixup_left_tail_def)
    qed
  qed
qed

lemma erase_fixup_left_zst:
  assumes z: "zst s (LF p pc pv w # fs) x"
    and np: "x = Lf \<longrightarrow> m_parent (m_nil s) = Ref p"
  shows "\<exists>s'. erase_fixup_left (ptr_of x) s
        = Some (ptr_of (snd (efl (LF p pc pv w # fs) x)), s')
     \<and> zst s' (fst (efl (LF p pc pv w # fs) x)) (snd (efl (LF p pc pv w # fs) x))
     \<and> m_nil s' = m_nil s"
proof -
  have p0: "parent (ptr_of x) s = Some (Ref p)" using hole_parent[OF z] np by simp
  have r0: "right_child (Ref p) s = Some (ptr_of w)" using frame_reads_L(2)[OF z] by simp
  have zw: "zst s (RF x p pc pv # fs) w" using z by (simp add: zst_up)
  have c0: "color_of (ptr_of w) s = Some (col w)" using color_of_zst[OF zw] .
  show ?thesis
  proof (cases "col w = RED")
    case True
    then obtain wl w' wv wr where w: "w = Nd wl w' RED wv wr" by (cases w) auto
    note z0 = z[unfolded w]
    from set_color_sib[OF z0, of BLACK] obtain s1 where s1: "set_color (Ref w') BLACK s = Some s1"
      and z1: "zst s1 (LF p pc pv (Nd wl w' BLACK wv wr) # fs) x" and n1: "m_nil s1 = m_nil s" by auto
    have p1: "parent (ptr_of x) s1 = Some (Ref p)" using hole_parent[OF z1] np n1 by simp
    from set_color_frame[OF z1, of RED] obtain s2 where s2: "set_color (Ref p) RED s1 = Some s2"
      and z2: "zst s2 (LF p RED pv (Nd wl w' BLACK wv wr) # fs) x" and n2: "m_nil s2 = m_nil s1" by auto
    have p2: "parent (ptr_of x) s2 = Some (Ref p)" using hole_parent[OF z2] np n1 n2 by simp
    have z2': "zst s2 fs (Nd x p RED pv (Nd wl w' BLACK wv wr))" using z2 by (simp add: zst_up)
    from rotate_left_zst[OF z2'] obtain s3 where s3: "rotate_left (Ref p) s2 = Some s3"
      and z3: "zst s3 fs (Nd (Nd x p RED pv wl) w' BLACK wv wr)"
      and n3: "m_nil s3 = m_nil s2" by blast
    have z3': "zst s3 (LF p RED pv wl # LF w' BLACK wv wr # fs) x" using z3 by (simp add: zst_up)
    have np3: "x = Lf \<longrightarrow> m_parent (m_nil s3) = Ref p" using np n1 n2 n3 by simp
    have p3: "parent (ptr_of x) s3 = Some (Ref p)" using hole_parent[OF z3'] np3 by simp
    have r3: "right_child (Ref p) s3 = Some (ptr_of wl)" using frame_reads_L(2)[OF z3'] by simp
    from efl_tail[OF z3' np3] obtain s4 where
      s4: "erase_fixup_left_tail (ptr_of x) (ptr_of wl) s3
        = Some (ptr_of (snd (del_left p RED pv wl (LF w' BLACK wv wr # fs) x)), s4)"
      and z4: "zst s4 (fst (del_left p RED pv wl (LF w' BLACK wv wr # fs) x))
           (snd (del_left p RED pv wl (LF w' BLACK wv wr # fs) x))"
      and n4: "m_nil s4 = m_nil s3" by blast
    show ?thesis unfolding erase_fixup_left_unfold w
      using p0 r0 c0 w s1 p1 s2 p2 s3 p3 r3 s4 z4 n1 n2 n3 n4
      by (simp del: del_left.simps)
  next
    case False
    then have e: "efl (LF p pc pv w # fs) x = del_left p pc pv w fs x"
      by (cases "(LF p pc pv w # fs, x)" rule: efl.cases) auto
    from efl_tail[OF z np] obtain s4 where
      s4: "erase_fixup_left_tail (ptr_of x) (ptr_of w) s
        = Some (ptr_of (snd (del_left p pc pv w fs x)), s4)"
      and z4: "zst s4 (fst (del_left p pc pv w fs x)) (snd (del_left p pc pv w fs x))"
      and n4: "m_nil s4 = m_nil s" by blast
    show ?thesis unfolding erase_fixup_left_unfold e
      using p0 r0 c0 False s4 z4 n4 by simp
  qed
qed

lemma erase_fixup_right_unfold:
  "erase_fixup_right node t = do {
     p \<leftarrow> parent node t;
     sibling \<leftarrow> left_child p t;
     sc \<leftarrow> color_of sibling t;
     (sibling, t) \<leftarrow>
       (if sc = RED then do {
          t \<leftarrow> (if sibling \<noteq> Nil then set_color sibling BLACK t else Some t);
          p \<leftarrow> parent node t;
          t \<leftarrow> set_color p RED t;
          p \<leftarrow> parent node t;
          t \<leftarrow> rotate_right p t;
          p \<leftarrow> parent node t;
          sibling \<leftarrow> left_child p t;
          Some (sibling, t) }
        else Some (sibling, t));
     erase_fixup_right_tail node sibling t }"
  unfolding erase_fixup_right_def erase_fixup_right_tail_def erase_fixup_right_final_def ..

lemma efr_final:
  assumes z: "zst s (RF (Nd wl w wc wv wr) p pc pv # fs) x"
    and np: "x = Lf \<longrightarrow> m_parent (m_nil s) = Ref p"
  shows "\<exists>s'. erase_fixup_right_final (ptr_of x) (Ref w) s
        = Some (ptr_of (plug fs (Nd (paint BLACK wl) w pc wv (Nd wr p BLACK pv x))), s')
     \<and> zst s' [] (plug fs (Nd (paint BLACK wl) w pc wv (Nd wr p BLACK pv x)))
     \<and> m_nil s' = m_nil s"
proof -
  have p0: "parent (ptr_of x) s = Some (Ref p)" using hole_parent[OF z] np by simp
  have c0: "color (Ref p) s = Some pc" using frame_reads(1)[OF z] by simp
  from set_color_sib[OF z, of pc] obtain s1 where s1: "set_color (Ref w) pc s = Some s1"
    and z1: "zst s1 (RF (Nd wl w pc wv wr) p pc pv # fs) x" and n1: "m_nil s1 = m_nil s" by auto
  have p1: "parent (ptr_of x) s1 = Some (Ref p)" using hole_parent[OF z1] np n1 by simp
  from set_color_frame[OF z1, of BLACK] obtain s2 where s2: "set_color (Ref p) BLACK s1 = Some s2"
    and z2: "zst s2 (RF (Nd wl w pc wv wr) p BLACK pv # fs) x" and n2: "m_nil s2 = m_nil s1" by auto
  have z2': "zst s2 (LF w pc wv wr # LF p BLACK pv x # fs) wl" using z2 by (simp add: zst_up)
  have r2: "left_child (Ref w) s2 = Some (ptr_of wl)" using z2' by (rule frame_reads_L(1))
  from paint_zst[OF z2', of BLACK] obtain s3 where
    s3: "(if ptr_of wl \<noteq> Nil then set_color (ptr_of wl) BLACK s2 else Some s2) = Some s3"
    and z3: "zst s3 (LF w pc wv wr # LF p BLACK pv x # fs) (paint BLACK wl)"
    and n3: "m_nil s3 = m_nil s2" by blast
  have z3': "zst s3 (RF (Nd (paint BLACK wl) w pc wv wr) p BLACK pv # fs) x"
    using z3 by (simp add: zst_up)
  have p3: "parent (ptr_of x) s3 = Some (Ref p)" using hole_parent[OF z3'] np n1 n2 n3 by simp
  have z3'': "zst s3 fs (Nd (Nd (paint BLACK wl) w pc wv wr) p BLACK pv x)"
    using z3 by (simp add: zst_up)
  from rotate_right_zst[OF z3''] obtain s4 where s4: "rotate_right (Ref p) s3 = Some s4"
    and z4: "zst s4 fs (Nd (paint BLACK wl) w pc wv (Nd wr p BLACK pv x))"
    and n4: "m_nil s4 = m_nil s3" by blast
  have z4': "zst s4 [] (plug fs (Nd (paint BLACK wl) w pc wv (Nd wr p BLACK pv x)))"
    using z4 by (simp flip: abs_tree_plug)
  have r4: "m_root s4 = ptr_of (plug fs (Nd (paint BLACK wl) w pc wv (Nd wr p BLACK pv x)))"
    using z4 by (simp add: zst_def)
  show ?thesis using p0 c0 s1 p1 s2 r2 s3 p3 s4 z4' r4 n1 n2 n3 n4
    by (simp add: erase_fixup_right_final_def)
qed

lemma efr_tail:
  assumes z: "zst s (RF w p pc pv # fs) x"
    and np: "x = Lf \<longrightarrow> m_parent (m_nil s) = Ref p"
  shows "\<exists>s'. erase_fixup_right_tail (ptr_of x) (ptr_of w) s
        = Some (ptr_of (snd (del_right p pc pv w fs x)), s')
     \<and> zst s' (fst (del_right p pc pv w fs x)) (snd (del_right p pc pv w fs x))
     \<and> m_nil s' = m_nil s"
proof (cases w)
  case Lf
  have p0: "parent (ptr_of x) s = Some (Ref p)" using hole_parent[OF z] np by simp
  have "zst s fs (Nd Lf p pc pv x)" using z Lf by (simp add: zst_up)
  then show ?thesis using Lf p0 nil_reads[OF z] by (simp add: erase_fixup_right_tail_def)
next
  case (Nd wl w' wc wv wr)
  note z0 = z[unfolded Nd]
  have zw: "zst s (LF p pc pv x # fs) (Nd wl w' wc wv wr)" using z0 by (simp add: zst_up)
  have zl: "zst s (LF w' wc wv wr # LF p pc pv x # fs) wl" using zw by (simp add: zst_up)
  have zr: "zst s (RF wl w' wc wv # LF p pc pv x # fs) wr" using zw by (simp add: zst_up)
  note rd = zst_reads(3,4)[OF zw] color_of_zst[OF zl] color_of_zst[OF zr]
  show ?thesis
  proof (cases "col wr = BLACK \<and> col wl = BLACK")
    case True
    from set_color_sib[OF z0, of RED] obtain s1 where s1: "set_color (Ref w') RED s = Some s1"
      and z1: "zst s1 (RF (Nd wl w' RED wv wr) p pc pv # fs) x" and n1: "m_nil s1 = m_nil s" by auto
    have p1: "parent (ptr_of x) s1 = Some (Ref p)" using hole_parent[OF z1] np n1 by simp
    have "zst s1 fs (Nd (Nd wl w' RED wv wr) p pc pv x)" using z1 by (simp add: zst_up)
    then show ?thesis using Nd True rd s1 p1 n1 by (simp add: erase_fixup_right_tail_def)
  next
    case False
    show ?thesis
    proof (cases "col wl = BLACK")
      case wlb: True
      with False have "col wr \<noteq> BLACK" by simp
      then obtain wrl r wrv wrr where wr: "wr = Nd wrl r RED wrv wrr"
        by (cases wr; cases "col wr") auto
      note zr' = zr[unfolded wr]
      from set_color_zst[OF zr', of BLACK] obtain s1 where s1: "set_color (Ref r) BLACK s = Some s1"
        and z1: "zst s1 (RF wl w' wc wv # LF p pc pv x # fs) (Nd wrl r BLACK wrv wrr)"
        and n1: "m_nil s1 = m_nil s" by blast
      from set_color_frame[OF z1, of RED] obtain s2 where s2: "set_color (Ref w') RED s1 = Some s2"
        and z2: "zst s2 (RF wl w' RED wv # LF p pc pv x # fs) (Nd wrl r BLACK wrv wrr)"
        and n2: "m_nil s2 = m_nil s1" by auto
      have z2': "zst s2 (LF p pc pv x # fs) (Nd wl w' RED wv (Nd wrl r BLACK wrv wrr))"
        using z2 by (simp add: zst_up)
      from rotate_left_zst[OF z2'] obtain s3 where s3: "rotate_left (Ref w') s2 = Some s3"
        and z3: "zst s3 (LF p pc pv x # fs) (Nd (Nd wl w' RED wv wrl) r BLACK wrv wrr)"
        and n3: "m_nil s3 = m_nil s2" by blast
      have z3': "zst s3 (RF (Nd (Nd wl w' RED wv wrl) r BLACK wrv wrr) p pc pv # fs) x"
        using z3 by (simp add: zst_up)
      have p3: "parent (ptr_of x) s3 = Some (Ref p)" using hole_parent[OF z3'] np n1 n2 n3 by simp
      have r3: "left_child (Ref p) s3 = Some (Ref r)" using frame_reads_R(1)[OF z3'] by simp
      from efr_final[OF z3'] np n1 n2 n3 obtain s4 where
        s4: "erase_fixup_right_final (ptr_of x) (Ref r) s3
          = Some (ptr_of (plug fs (Nd (Nd wl w' BLACK wv wrl) r pc wrv (Nd wrr p BLACK pv x))), s4)"
        and z4: "zst s4 [] (plug fs (Nd (Nd wl w' BLACK wv wrl) r pc wrv (Nd wrr p BLACK pv x)))"
        and n4: "m_nil s4 = m_nil s3" by auto
      show ?thesis using Nd False wlb wr rd s1 s2 s3 p3 r3 s4 z4 n1 n2 n3 n4
        by (simp add: erase_fixup_right_tail_def)
    next
      case wlr: False
      from efr_final[OF z0 np] obtain s4 where
        s4: "erase_fixup_right_final (ptr_of x) (Ref w') s
          = Some (ptr_of (plug fs (Nd (paint BLACK wl) w' pc wv (Nd wr p BLACK pv x))), s4)"
        and z4: "zst s4 [] (plug fs (Nd (paint BLACK wl) w' pc wv (Nd wr p BLACK pv x)))"
        and n4: "m_nil s4 = m_nil s" by auto
      show ?thesis using Nd False wlr rd s4 z4 n4
        by (simp add: erase_fixup_right_tail_def)
    qed
  qed
qed

lemma erase_fixup_right_zst:
  assumes z: "zst s (RF w p pc pv # fs) x"
    and np: "x = Lf \<longrightarrow> m_parent (m_nil s) = Ref p"
  shows "\<exists>s'. erase_fixup_right (ptr_of x) s
        = Some (ptr_of (snd (efl (RF w p pc pv # fs) x)), s')
     \<and> zst s' (fst (efl (RF w p pc pv # fs) x)) (snd (efl (RF w p pc pv # fs) x))
     \<and> m_nil s' = m_nil s"
proof -
  have p0: "parent (ptr_of x) s = Some (Ref p)" using hole_parent[OF z] np by simp
  have r0: "left_child (Ref p) s = Some (ptr_of w)" using frame_reads_R(1)[OF z] by simp
  have zw: "zst s (LF p pc pv x # fs) w" using z by (simp add: zst_up)
  have c0: "color_of (ptr_of w) s = Some (col w)" using color_of_zst[OF zw] .
  show ?thesis
  proof (cases "col w = RED")
    case True
    then obtain wl w' wv wr where w: "w = Nd wl w' RED wv wr" by (cases w) auto
    note z0 = z[unfolded w]
    from set_color_sib[OF z0, of BLACK] obtain s1 where s1: "set_color (Ref w') BLACK s = Some s1"
      and z1: "zst s1 (RF (Nd wl w' BLACK wv wr) p pc pv # fs) x" and n1: "m_nil s1 = m_nil s" by auto
    have p1: "parent (ptr_of x) s1 = Some (Ref p)" using hole_parent[OF z1] np n1 by simp
    from set_color_frame[OF z1, of RED] obtain s2 where s2: "set_color (Ref p) RED s1 = Some s2"
      and z2: "zst s2 (RF (Nd wl w' BLACK wv wr) p RED pv # fs) x" and n2: "m_nil s2 = m_nil s1" by auto
    have p2: "parent (ptr_of x) s2 = Some (Ref p)" using hole_parent[OF z2] np n1 n2 by simp
    have z2': "zst s2 fs (Nd (Nd wl w' BLACK wv wr) p RED pv x)" using z2 by (simp add: zst_up)
    from rotate_right_zst[OF z2'] obtain s3 where s3: "rotate_right (Ref p) s2 = Some s3"
      and z3: "zst s3 fs (Nd wl w' BLACK wv (Nd wr p RED pv x))"
      and n3: "m_nil s3 = m_nil s2" by blast
    have z3': "zst s3 (RF wr p RED pv # RF wl w' BLACK wv # fs) x" using z3 by (simp add: zst_up)
    have np3: "x = Lf \<longrightarrow> m_parent (m_nil s3) = Ref p" using np n1 n2 n3 by simp
    have p3: "parent (ptr_of x) s3 = Some (Ref p)" using hole_parent[OF z3'] np3 by simp
    have r3: "left_child (Ref p) s3 = Some (ptr_of wr)" using frame_reads_R(1)[OF z3'] by simp
    from efr_tail[OF z3' np3] obtain s4 where
      s4: "erase_fixup_right_tail (ptr_of x) (ptr_of wr) s3
        = Some (ptr_of (snd (del_right p RED pv wr (RF wl w' BLACK wv # fs) x)), s4)"
      and z4: "zst s4 (fst (del_right p RED pv wr (RF wl w' BLACK wv # fs) x))
           (snd (del_right p RED pv wr (RF wl w' BLACK wv # fs) x))"
      and n4: "m_nil s4 = m_nil s3" by blast
    show ?thesis unfolding erase_fixup_right_unfold w
      using p0 r0 c0 w s1 p1 s2 p2 s3 p3 r3 s4 z4 n1 n2 n3 n4
      by (simp del: del_right.simps)
  next
    case False
    then have e: "efl (RF w p pc pv # fs) x = del_right p pc pv w fs x"
      by (cases "(RF w p pc pv # fs, x)" rule: efl.cases) auto
    from efr_tail[OF z np] obtain s4 where
      s4: "erase_fixup_right_tail (ptr_of x) (ptr_of w) s
        = Some (ptr_of (snd (del_right p pc pv w fs x)), s4)"
      and z4: "zst s4 (fst (del_right p pc pv w fs x)) (snd (del_right p pc pv w fs x))"
      and n4: "m_nil s4 = m_nil s" by blast
    show ?thesis unfolding erase_fixup_right_unfold e
      using p0 r0 c0 False s4 z4 n4 by simp
  qed
qed

lemma last_in_ctx: "fs \<noteq> [] \<Longrightarrow> faddr (last fs) \<in> fst ` set (nbefore fs @ nafter fs)"
  by (induction fs rule: nbefore.induct) (auto split: if_splits)

lemma zst_root_neq: "zst s fs x \<Longrightarrow> (ptr_of x \<noteq> m_root s) = (fs \<noteq> [])"
  using last_in_ctx[of fs] by (cases x) (auto simp: zst_def ptr_of_plug)

lemma plug_nonleaf: "t \<noteq> Lf \<Longrightarrow> plug fs t \<noteq> Lf"
proof (induction fs arbitrary: t)
  case Nil
  then show ?case by simp
next
  case (Cons f fs)
  have "plug1 f t \<noteq> Lf" by (cases f) auto
  then show ?case using Cons.IH by simp
qed

lemma del_left_nonleaf: "snd (del_left p pc pv w fs x) \<noteq> Lf"
  by (cases "(p, pc, pv, w, fs, x)" rule: del_left.cases) (auto simp: plug_nonleaf split: tr.splits)

lemma del_right_nonleaf: "snd (del_right p pc pv w fs x) \<noteq> Lf"
  by (cases "(p, pc, pv, w, fs, x)" rule: del_right.cases) (auto simp: plug_nonleaf split: tr.splits)

lemma efl_nonleaf: "fs \<noteq> [] \<Longrightarrow> snd (efl fs x) \<noteq> Lf"
  by (cases "(fs, x)" rule: efl.cases)
     (auto simp: del_left_nonleaf del_right_nonleaf simp del: del_left.simps del_right.simps)

lemma erase_fixup_zst:
  "zst s fs x \<Longrightarrow> (x = Lf \<longrightarrow> m_parent (m_nil s) = ptop fs)
   \<Longrightarrow> (x = Lf \<longrightarrow> fs \<noteq> [] \<longrightarrow> fsib (hd fs) \<noteq> Lf)
   \<Longrightarrow> \<exists>s'. erase_fixup (ptr_of x) s = Some s' \<and> abs_tree s' (del_fix fs x)"
proof (induction fs x arbitrary: s rule: del_fix.induct)
  case (1 fs x)
  note z = "1.prems"(1) and np = "1.prems"(2) and sb = "1.prems"(3)
  note rn = zst_root_neq[OF z]
  note co = color_of_zst[OF z]
  show ?case
  proof (cases "fs \<noteq> [] \<and> col x = BLACK")
    case True
    then obtain f fs0 where fs: "fs = f # fs0" by (cases fs) auto
    obtain fs' x' where e: "efl fs x = (fs', x')" by (cases "efl fs x")
    have x': "x' \<noteq> Lf" using efl_nonleaf[of fs x] True e by simp
    have p: "parent (ptr_of x) s = Some (Ref (faddr f))"
      using hole_parent[OF z[unfolded fs]] np fs by simp
    have step: "\<exists>s1. (if ptr_of x = ptr_of (case f of LF a c v r \<Rightarrow> x | RF l a c v \<Rightarrow> l)
                      then erase_fixup_left (ptr_of x) s else erase_fixup_right (ptr_of x) s)
                 = Some (ptr_of x', s1) \<and> zst s1 fs' x'
               \<and> left_child (Ref (faddr f)) s
                 = Some (ptr_of (case f of LF a c v r \<Rightarrow> x | RF l a c v \<Rightarrow> l))"
    proof (cases f)
      case (LF p pc pv w)
      note z0 = z[unfolded fs LF]
      from erase_fixup_left_zst[OF z0] np fs LF e
      show ?thesis using frame_reads_L(1)[OF z0] LF by auto
    next
      case (RF w p pc pv)
      note z0 = z[unfolded fs RF]
      have ne: "ptr_of x \<noteq> ptr_of w"
      proof (cases x)
        case Lf
        then show ?thesis using sb fs RF by (cases w) auto
      next
        case (Nd xl xa xc xv xr)
        then show ?thesis using zst_neq_sib(1)[of s f fs0 xl xa xc xv xr] z fs RF by auto
      qed
      from erase_fixup_right_zst[OF z0] np fs RF e
      show ?thesis using frame_reads_R(1)[OF z0] RF ne by auto
    qed
    then obtain s1 where
      s1: "(if ptr_of x = ptr_of (case f of LF a c v r \<Rightarrow> x | RF l a c v \<Rightarrow> l)
            then erase_fixup_left (ptr_of x) s else erase_fixup_right (ptr_of x) s)
           = Some (ptr_of x', s1)"
      and z1: "zst s1 fs' x'"
      and lc: "left_child (Ref (faddr f)) s
                 = Some (ptr_of (case f of LF a c v r \<Rightarrow> x | RF l a c v \<Rightarrow> l))" by blast
    from "1.IH"[OF True e[symmetric] z1] x' obtain s2 where
      s2: "erase_fixup (ptr_of x') s1 = Some s2" and a2: "abs_tree s2 (del_fix fs' x')" by auto
    have d: "del_fix fs x = del_fix fs' x'" using True e by (subst del_fix.simps) simp
    show ?thesis unfolding d
      apply (subst erase_fixup.simps)
      using True rn co p lc s1 s2 a2 by simp
  next
    case False
    have d: "del_fix fs x = plug fs (paint BLACK x)" using False by (subst del_fix.simps) auto
    show ?thesis
    proof (cases x)
      case Lf
      with False have fs: "fs = []" by simp
      show ?thesis unfolding d
        apply (subst erase_fixup.simps)
        using z Lf fs by (simp add: abs_tree_def zst_def nil_ok_def acc_defs)
    next
      case (Nd xl xa xc xv xr)
      from set_color_zst[OF z[unfolded Nd], of BLACK] obtain s1 where
        s1: "set_color (Ref xa) BLACK s = Some s1" and z1: "zst s1 fs (Nd xl xa BLACK xv xr)" by blast
      have a: "abs_tree s1 (plug fs (paint BLACK x))" using z1 Nd by (simp add: abs_tree_plug)
      show ?thesis unfolding d
        apply (subst erase_fixup.simps)
        using False rn co Nd s1 a by auto
    qed
  qed
qed

lemma zst_zctx: "zst s fs (Nd l z c v r) \<Longrightarrow> zctx s fs z"
  by (auto simp: zst_def zctx_def ptr_of_plug)

lemma minimum_rel:
  "rel s par t \<Longrightarrow> t \<noteq> Lf \<Longrightarrow> minimum (ptr_of t) s = Some (ptr_of (snd (amin fs t)))"
proof (induction fs t arbitrary: par rule: amin.induct)
  case (1 fs)
  then show ?case by simp
next
  case (2 fs a c v r)
  then show ?case by (subst minimum.simps) (simp add: acc_defs)
next
  case (3 fs ll b cb vb lr a c v r)
  from "3.prems" have r: "rel s (Ref a) (Nd ll b cb vb lr)" by simp
  from "3.IH"[OF r] "3.prems" show ?case by (subst minimum.simps) (simp add: acc_defs)
qed

lemma transplant_zctx:
  assumes "zctx s fs z" "rel s par t'" "distinct (addrs t' @ caddrs fs)" "z \<notin> fst ` set (nodes t')"
  shows "\<exists>s'. transplant (Ref z) (ptr_of t') s = Some s' \<and> zst s' fs t'
     \<and> (t' = Lf \<longrightarrow> m_parent (m_nil s') = ptop fs) \<and> (t' \<noteq> Lf \<longrightarrow> m_nil s' = m_nil s)
     \<and> (\<forall>a. Ref a \<noteq> ptop fs \<longrightarrow> Ref a \<noteq> ptr_of t' \<longrightarrow> heap s' a = heap s a)"
  using assms
  apply (cases fs rule: nbefore.cases; cases t')
  apply (clarsimp simp: zctx_def zst_def nil_ok_def ptr_of_plug, simp add: transplant_def acc_defs rel_upd_other crel_upd_other)+
  done

lemma set_parent_same:
  assumes "zst s (f # fs) t"
  shows "\<exists>s'. set_parent (ptr_of t) (Ref (faddr f)) s = Some s' \<and> zst s' (f # fs) t
     \<and> (t = Lf \<longrightarrow> m_parent (m_nil s') = Ref (faddr f)) \<and> (t \<noteq> Lf \<longrightarrow> m_nil s' = m_nil s)
     \<and> (\<forall>a. Ref a \<noteq> ptr_of t \<longrightarrow> heap s' a = heap s a)"
  using assms
  apply (cases f; cases t)
  apply (clarsimp simp: zst_def nil_ok_def ptr_of_plug, simp add: acc_defs rel_upd_other crel_upd_other)+
  done

lemma graft_left:
  assumes "zst s fs (Nd Lf y yc yv R)" "rel s par l" "l \<noteq> Lf"
    "distinct (addrs l @ y # addrs R @ caddrs fs)"
  shows "\<exists>s1 s2 s3. set_left_child (Ref y) (ptr_of l) s = Some s1
     \<and> left_child (Ref y) s1 = Some (ptr_of l)
     \<and> set_parent (ptr_of l) (Ref y) s1 = Some s2
     \<and> set_color (Ref y) c s2 = Some s3
     \<and> zst s3 fs (Nd l y c yv R) \<and> m_nil s3 = m_nil s
     \<and> (\<forall>a. a \<noteq> y \<longrightarrow> Ref a \<noteq> ptr_of l \<longrightarrow> heap s2 a = heap s a \<and> heap s3 a = heap s a)"
  using assms
  apply (cases fs rule: nbefore.cases; cases l)
  apply (clarsimp simp: zst_def nil_ok_def ptr_of_plug, simp add: acc_defs rel_upd_other crel_upd_other)+
  done

lemma graft_right:
  assumes "zst s fs (Nd l z c v R)" "R \<noteq> Lf"
    "heap s y = Some \<lparr>base = \<lparr>m_color = yc, m_left = Nil, m_right = yr0, m_parent = yp\<rparr>, m_value = yv\<rparr>"
    "y \<notin> fst ` set (nodes (plug fs (Nd l z c v R)))"
  shows "\<exists>s1 s2. set_right_child (Ref y) (ptr_of R) s = Some s1
     \<and> right_child (Ref y) s1 = Some (ptr_of R)
     \<and> set_parent (ptr_of R) (Ref y) s1 = Some s2
     \<and> zctx s2 fs z \<and> heap s2 z = heap s z \<and> rel s2 (Ref z) l
     \<and> rel s2 yp (Nd Lf y yc yv R) \<and> m_nil s2 = m_nil s"
  using assms
  apply (cases fs rule: nbefore.cases; cases R)
  apply (clarsimp simp: zst_def zctx_def nil_ok_def ptr_of_plug nodes_plug image_Un, simp add: acc_defs rel_upd_other crel_upd_other)+
  done

lemma detach_replace_zst:
  assumes zc: "zctx s fs z"
    and hz: "heap s z = Some \<lparr>base = \<lparr>m_color = c, m_left = ptr_of l, m_right = zr, m_parent = zp\<rparr>, m_value = v\<rparr>"
    and rl: "rel s (Ref z) l" and l: "l \<noteq> Lf"
    and ry: "rel s par (Nd Lf y yc yv R)"
    and d: "distinct (z # addrs l @ y # addrs R @ caddrs fs)"
  shows "\<exists>s'. detach_replace (Ref z) (Ref y) s = Some s' \<and> zst s' fs (Nd l y c yv R)
     \<and> m_nil s' = m_nil s \<and> heap s' z = heap s z"
proof -
  have d1: "distinct (addrs (Nd Lf y yc yv R) @ caddrs fs)" using d by auto
  have d2: "z \<notin> fst ` set (nodes (Nd Lf y yc yv R))" using d by auto
  have zt: "Ref z \<noteq> ptop fs" using zc by (cases fs rule: nbefore.cases) (auto simp: zctx_def)
  from transplant_zctx[OF zc ry d1 d2] obtain s1 where
    s1: "transplant (Ref z) (Ref y) s = Some s1" and z1: "zst s1 fs (Nd Lf y yc yv R)"
    and n1: "m_nil s1 = m_nil s"
    and f1: "\<And>a. Ref a \<noteq> ptop fs \<Longrightarrow> a \<noteq> y \<Longrightarrow> heap s1 a = heap s a" by auto
  have hz1: "heap s1 z = heap s z" using f1[of z] zt d by auto
  have "\<forall>a \<in> fst ` set (nodes l). heap s1 a = heap s a"
  proof
    fix a assume a: "a \<in> fst ` set (nodes l)"
    then have "a \<noteq> y" using d by auto
    moreover have "Ref a \<noteq> ptop fs" using a d by (cases fs rule: nbefore.cases) auto
    ultimately show "heap s1 a = heap s a" by (rule f1[rotated])
  qed
  from rel_frame[OF this] rl have rl1: "rel s1 (Ref z) l" by blast
  have r1: "left_child (Ref z) s1 = Some (ptr_of l)" using hz hz1 by (simp add: acc_defs)
  have d3: "distinct (addrs l @ y # addrs R @ caddrs fs)" using d by simp
  from graft_left[OF z1 rl1 l d3, of c] obtain s2 s3 s4 where
    s2: "set_left_child (Ref y) (ptr_of l) s1 = Some s2"
    and r2: "left_child (Ref y) s2 = Some (ptr_of l)"
    and s3: "set_parent (ptr_of l) (Ref y) s2 = Some s3"
    and s4: "set_color (Ref y) c s3 = Some s4"
    and z4: "zst s4 fs (Nd l y c yv R)" and n4: "m_nil s4 = m_nil s1"
    and f4: "\<And>a. a \<noteq> y \<Longrightarrow> Ref a \<noteq> ptr_of l \<Longrightarrow> heap s3 a = heap s1 a \<and> heap s4 a = heap s1 a"
    by blast
  have zl: "Ref z \<noteq> ptr_of l" using d by (cases l) auto
  have hz3: "heap s3 z = heap s z" "heap s4 z = heap s z" using f4[of z] zl d hz1 by auto
  have r3: "color (Ref z) s3 = Some c" using hz hz3 by (simp add: acc_defs)
  have ln: "ptr_of l \<noteq> Nil" using l by (cases l) auto
  show ?thesis using s1 r1 s2 r2 s3 r3 s4 z4 n4 n1 hz3 ln
    by (simp add: detach_replace_def)
qed

lemma detach_erase_target_unfold:
  "detach_erase_target node t = do {
     rc \<leftarrow> color node t;
     nl \<leftarrow> left_child node t;
     if nl = Nil then do {
       fx \<leftarrow> right_child node t;
       t \<leftarrow> transplant node fx t;
       Some (\<lparr>fixup_node = fx, removed_color = rc\<rparr>, t) }
     else do {
       nr \<leftarrow> right_child node t;
       if nr = Nil then do {
         fx \<leftarrow> left_child node t;
         t \<leftarrow> transplant node fx t;
         Some (\<lparr>fixup_node = fx, removed_color = rc\<rparr>, t) }
       else do {
         successor \<leftarrow> minimum nr t;
         rc \<leftarrow> color successor t;
         fx \<leftarrow> right_child successor t;
         sp \<leftarrow> parent successor t;
         t \<leftarrow> (if sp = node then set_parent fx successor t
               else do {
                 sr \<leftarrow> right_child successor t;
                 t \<leftarrow> transplant successor sr t;
                 nr \<leftarrow> right_child node t;
                 t \<leftarrow> set_right_child successor nr t;
                 sr \<leftarrow> right_child successor t;
                 if sr \<noteq> Nil then set_parent sr successor t else Some t });
         t \<leftarrow> detach_replace node successor t;
         Some (\<lparr>fixup_node = fx, removed_color = rc\<rparr>, t) } } }"
  unfolding detach_erase_target_def detach_replace_def by (simp cong: if_cong)

lemma zst_append: "zst s fs (plug rfs t) = zst s (rfs @ fs) t"
  by (simp flip: abs_tree_plug add: plug_append)

lemma hd_in_ctx: "fs \<noteq> [] \<Longrightarrow> faddr (hd fs) \<in> fst ` set (nbefore fs @ nafter fs)"
  by (cases fs rule: nbefore.cases) auto

lemma ptop_append: "rfs \<noteq> [] \<Longrightarrow> ptop (rfs @ fs) = ptop rfs"
  by (cases rfs) auto

lemma plug_ctx_nonleaf: "fs \<noteq> [] \<Longrightarrow> plug fs t \<noteq> Lf"
proof (cases fs)
  case Nil
  assume "fs \<noteq> []"
  with Nil show ?thesis by simp
next
  case (Cons f fs0)
  have "plug1 f t \<noteq> Lf" by (cases f) auto
  then show ?thesis using Cons by (simp add: plug_nonleaf)
qed

lemma zst_distinct: "zst s fs t \<Longrightarrow> distinct (addrs t @ caddrs fs)"
  by (simp add: zst_def)

lemma detach_leaf_left:
  assumes z: "zst s fs (Nd Lf z c v r)"
  shows "\<exists>s'. detach_erase_target (Ref z) s = Some (\<lparr>fixup_node = ptr_of r, removed_color = c\<rparr>, s')
     \<and> zst s' fs r \<and> (r = Lf \<longrightarrow> m_parent (m_nil s') = ptop fs) \<and> heap s' z = heap s z"
proof -
  note rd = zst_reads[OF z]
  have rr: "rel s (Ref z) r" using z by (simp add: zst_def)
  have d1: "distinct (addrs r @ caddrs fs)" and d2: "z \<notin> fst ` set (nodes r)"
    using zst_distinct[OF z] by auto
  have zt: "Ref z \<noteq> ptop fs" using zst_distinct[OF z] by (cases fs rule: nbefore.cases) auto
  from transplant_zctx[OF zst_zctx[OF z] rr d1 d2] obtain s1 where
    s1: "transplant (Ref z) (ptr_of r) s = Some s1" and z1: "zst s1 fs r"
    and n1: "r = Lf \<longrightarrow> m_parent (m_nil s1) = ptop fs"
    and f1: "\<And>a. Ref a \<noteq> ptop fs \<Longrightarrow> Ref a \<noteq> ptr_of r \<Longrightarrow> heap s1 a = heap s a" by auto
  have "heap s1 z = heap s z" using f1[of z] zt d2 by auto
  then show ?thesis using rd s1 z1 n1 by (simp add: detach_erase_target_def)
qed

lemma detach_leaf_right:
  assumes z: "zst s fs (Nd l z c v Lf)" and l: "l \<noteq> Lf"
  shows "\<exists>s'. detach_erase_target (Ref z) s = Some (\<lparr>fixup_node = ptr_of l, removed_color = c\<rparr>, s')
     \<and> zst s' fs l \<and> heap s' z = heap s z"
proof -
  note rd = zst_reads[OF z]
  have rr: "rel s (Ref z) l" using z by (simp add: zst_def)
  have d1: "distinct (addrs l @ caddrs fs)" and d2: "z \<notin> fst ` set (nodes l)"
    using zst_distinct[OF z] by auto
  have zt: "Ref z \<noteq> ptop fs" using zst_distinct[OF z] by (cases fs rule: nbefore.cases) auto
  from transplant_zctx[OF zst_zctx[OF z] rr d1 d2] obtain s1 where
    s1: "transplant (Ref z) (ptr_of l) s = Some s1" and z1: "zst s1 fs l"
    and f1: "\<And>a. Ref a \<noteq> ptop fs \<Longrightarrow> Ref a \<noteq> ptr_of l \<Longrightarrow> heap s1 a = heap s a" by auto
  have "heap s1 z = heap s z" using f1[of z] zt d2 by auto
  moreover have "ptr_of l \<noteq> Nil" using l by (cases l) auto
  ultimately show ?thesis using rd s1 z1 by (simp add: detach_erase_target_def)
qed

lemma detach_succ_child:
  assumes z: "zst s fs (Nd l z c v (Nd Lf y yc yv yr))" and l: "l \<noteq> Lf"
  shows "\<exists>s'. detach_erase_target (Ref z) s = Some (\<lparr>fixup_node = ptr_of yr, removed_color = yc\<rparr>, s')
     \<and> zst s' (RF l y c yv # fs) yr \<and> (yr = Lf \<longrightarrow> m_parent (m_nil s') = Ref y)
     \<and> heap s' z = heap s z"
proof -
  note rd = zst_reads[OF z]
  have ln: "ptr_of l \<noteq> Nil" using l by (cases l) auto
  have zy: "zst s (RF l z c v # fs) (Nd Lf y yc yv yr)" using z by (simp add: zst_up)
  note rdy = zst_reads[OF zy]
  have mn: "minimum (Ref y) s = Some (Ref y)" using rdy(3) by (subst minimum.simps) simp
  have zyr: "zst s (RF Lf y yc yv # RF l z c v # fs) yr" using zy by (simp add: zst_up)
  from set_parent_same[OF zyr] obtain s1 where
    s1: "set_parent (ptr_of yr) (Ref y) s = Some s1"
    and z1: "zst s1 (RF Lf y yc yv # RF l z c v # fs) yr"
    and n1: "yr = Lf \<longrightarrow> m_parent (m_nil s1) = Ref y"
    and f1: "\<And>a. Ref a \<noteq> ptr_of yr \<Longrightarrow> heap s1 a = heap s a" by auto
  have z1': "zst s1 fs (Nd l z c v (Nd Lf y yc yv yr))" using z1 by (simp add: zst_up)
  have zyr: "Ref z \<noteq> ptr_of yr" using zst_distinct[OF z] by (cases yr) auto
  have hz1: "heap s1 z = heap s z" using f1[OF zyr] .
  have rl1: "rel s1 (Ref z) l" and ry1: "rel s1 (Ref z) (Nd Lf y yc yv yr)"
    using z1' by (simp_all add: zst_def)
  have d: "distinct (z # addrs l @ y # addrs yr @ caddrs fs)"
    using zst_distinct[OF z1'] by auto
  from detach_replace_zst[OF zst_zctx[OF z1'] zst_heap[OF z1'] rl1 l ry1 d] obtain s2 where
    s2: "detach_replace (Ref z) (Ref y) s1 = Some s2" and z2: "zst s2 fs (Nd l y c yv yr)"
    and n2: "m_nil s2 = m_nil s1" and hz2: "heap s2 z = heap s1 z" by blast
  have z2': "zst s2 (RF l y c yv # fs) yr" using z2 by (simp add: zst_up)
  show ?thesis unfolding detach_erase_target_unfold
    using rd ln rdy mn s1 s2 z2' n1 n2 hz1 hz2 by simp
qed

lemma detach_succ_deep:
  assumes z: "zst s fs (Nd l z c v (plug rfs (Nd Lf y yc yv yr)))" and l: "l \<noteq> Lf"
    and rfs: "rfs \<noteq> []"
    and am: "amin [] (plug rfs (Nd Lf y yc yv yr)) = (rfs, Nd Lf y yc yv yr)"
  shows "\<exists>s'. detach_erase_target (Ref z) s = Some (\<lparr>fixup_node = ptr_of yr, removed_color = yc\<rparr>, s')
     \<and> zst s' (rfs @ RF l y c yv # fs) yr
     \<and> (yr = Lf \<longrightarrow> m_parent (m_nil s') = ptop (rfs @ RF l y c yv # fs))
     \<and> heap s' z = heap s z"
proof -
  let ?r = "plug rfs (Nd Lf y yc yv yr)"
  let ?F = "rfs @ RF l z c v # fs"
  let ?R = "plug rfs yr"
  note rd = zst_reads[OF z]
  have ln: "ptr_of l \<noteq> Nil" using l by (cases l) auto
  have rn: "ptr_of ?r \<noteq> Nil" using plug_ctx_nonleaf[OF rfs, of "Nd Lf y yc yv yr"] by (cases ?r) auto
  have Rne: "?R \<noteq> Lf" using plug_ctx_nonleaf[OF rfs] .
  have Rn: "ptr_of ?R \<noteq> Nil" using Rne by (cases ?R) auto
  have zr: "zst s (RF l z c v # fs) ?r" using z by (simp add: zst_up)
  have rr: "rel s (Ref z) ?r" using z by (simp add: zst_def)
  have mn: "minimum (ptr_of ?r) s = Some (Ref y)"
    using minimum_rel[OF rr, of "[]"] am plug_ctx_nonleaf[OF rfs, of "Nd Lf y yc yv yr"] by simp
  have zy: "zst s ?F (Nd Lf y yc yv yr)" using zr by (simp add: zst_append)
  note rdy = zst_reads[OF zy]
  have hin: "faddr (hd rfs) \<in> fst ` set (nodes ?r)"
    using hd_in_ctx[OF rfs] by (auto simp: nodes_plug)
  have zn: "z \<notin> fst ` set (nodes ?r)" using zst_distinct[OF z] by auto
  have pne: "ptop ?F \<noteq> Ref z" "Ref z \<noteq> ptop ?F" using hin zn rfs by (cases rfs; auto)+
  have ryr: "rel s (Ref y) yr" using zy by (simp add: zst_def)
  have dy: "distinct (addrs yr @ caddrs ?F)" and yn: "y \<notin> fst ` set (nodes yr)"
    and yc: "y \<notin> fst ` set (nbefore ?F @ nafter ?F)"
    using zst_distinct[OF zy] by auto
  from transplant_zctx[OF zst_zctx[OF zy] ryr dy yn] obtain s1 where
    s1: "transplant (Ref y) (ptr_of yr) s = Some s1" and z1: "zst s1 ?F yr"
    and n1: "yr = Lf \<longrightarrow> m_parent (m_nil s1) = ptop ?F"
    and f1: "\<And>a. Ref a \<noteq> ptop ?F \<Longrightarrow> Ref a \<noteq> ptr_of yr \<Longrightarrow> heap s1 a = heap s a" by auto
  have za: "zst s1 fs (Nd l z c v ?R)" using z1 by (simp flip: zst_append add: zst_up)
  have zyr: "Ref z \<noteq> ptr_of yr" using zn by (cases yr) (auto simp: nodes_plug)
  have hz1: "heap s1 z = heap s z" using f1[OF pne(2) zyr] .
  have pt0: "ptop ?F = Ref (faddr (hd rfs))" using rfs by (cases rfs) auto
  have "y \<notin> fst ` set (nbefore rfs @ nafter rfs)"
    using yc by (auto simp: nbefore_append nafter_append)
  then have ypt: "Ref y \<noteq> ptop ?F" unfolding pt0 using hd_in_ctx[OF rfs] by auto
  have yyr: "Ref y \<noteq> ptr_of yr" using yn by (cases yr) auto
  have hy1: "heap s1 y = Some \<lparr>base = \<lparr>m_color = yc, m_left = Nil, m_right = ptr_of yr,
      m_parent = ptop ?F\<rparr>, m_value = yv\<rparr>"
    using f1[OF ypt yyr] zst_heap[OF zy] by simp
  have r1: "right_child (Ref z) s1 = Some (ptr_of ?R)" using zst_reads(4)[OF za] .
  have yna: "y \<notin> fst ` set (nodes (plug fs (Nd l z c v ?R)))"
    using yc yn by (auto simp: nodes_plug nbefore_append nafter_append)
  from graft_right[OF za Rne hy1 yna] obtain s2 s3 where
    s2: "set_right_child (Ref y) (ptr_of ?R) s1 = Some s2"
    and r2: "right_child (Ref y) s2 = Some (ptr_of ?R)"
    and s3: "set_parent (ptr_of ?R) (Ref y) s2 = Some s3"
    and zc3: "zctx s3 fs z" and hz3: "heap s3 z = heap s1 z" and rl3: "rel s3 (Ref z) l"
    and ry3: "rel s3 (ptop ?F) (Nd Lf y yc yv ?R)" and n3: "m_nil s3 = m_nil s1" by blast
  have hz3': "heap s3 z = Some \<lparr>base = \<lparr>m_color = c, m_left = ptr_of l, m_right = ptr_of ?R,
      m_parent = ptop fs\<rparr>, m_value = v\<rparr>"
    using hz3 zst_heap[OF za] by simp
  have d: "distinct (z # addrs l @ y # addrs ?R @ caddrs fs)"
    using zst_distinct[OF za] yna by (auto simp: nodes_plug)
  from detach_replace_zst[OF zc3 hz3' rl3 l ry3 d] obtain s4 where
    s4: "detach_replace (Ref z) (Ref y) s3 = Some s4" and z4: "zst s4 fs (Nd l y c yv ?R)"
    and n4: "m_nil s4 = m_nil s3" and hz4: "heap s4 z = heap s3 z" by blast
  have z4': "zst s4 (rfs @ RF l y c yv # fs) yr" using z4 by (simp flip: zst_append add: zst_up)
  have pt: "ptop (rfs @ RF l y c yv # fs) = ptop ?F" using rfs by (simp add: ptop_append)
  show ?thesis unfolding detach_erase_target_unfold pt
    using rd ln rn rdy mn pne s1 r1 s2 r2 Rn s3 s4 z4' n1 n3 n4 hz1 hz3 hz4 by simp
qed

lemma detach_zst:
  assumes z: "zst s fs (Nd l z c v r)" and ad: "adetach fs (Nd l z c v r) = (fs', x', rc)"
  shows "\<exists>s'. detach_erase_target (Ref z) s = Some (\<lparr>fixup_node = ptr_of x', removed_color = rc\<rparr>, s')
     \<and> zst s' fs' x' \<and> (x' = Lf \<longrightarrow> m_parent (m_nil s') = ptop fs') \<and> heap s' z = heap s z"
proof (cases "l = Lf")
  case True
  then have e: "fs' = fs" "x' = r" "rc = c" using ad by auto
  show ?thesis unfolding e using detach_leaf_left[OF z[unfolded True]] by blast
next
  case False
  show ?thesis
  proof (cases "r = Lf")
    case True
    then have e: "fs' = fs" "x' = l" "rc = c" using ad False by auto
    show ?thesis unfolding e using detach_leaf_right[OF z[unfolded True] False] False by blast
  next
    case F2: False
    obtain rfs t' where m: "amin [] r = (rfs, t')" by (cases "amin [] r")
    from amin_shape[OF m F2] obtain y yc yv yr where t': "t' = Nd Lf y yc yv yr" by auto
    have r: "r = plug rfs (Nd Lf y yc yv yr)" using amin_plug[OF m] t' by simp
    have e: "fs' = rfs @ RF l y c yv # fs" "x' = yr" "rc = yc"
      using ad False F2 m t' by auto
    show ?thesis
    proof (cases "rfs = []")
      case True
      show ?thesis unfolding e True
        using detach_succ_child[OF z[unfolded r True, simplified] False] by simp
    next
      case F3: False
      show ?thesis unfolding e
        using detach_succ_deep[OF z[unfolded r] False F3 m[unfolded t' r]] r by simp
    qed
  qed
qed

lemma delete_node_zst:
  assumes "zst s fs t" "z \<notin> fst ` set (nodes (plug fs t))" "heap s z \<noteq> None"
  shows "\<exists>s'. delete_node (Ref z) s = Some s' \<and> zst s' fs t \<and> m_nil s' = m_nil s"
proof -
  let ?s = "s\<lparr>heap := (heap s)(z := None)\<rparr>"
  have d: "delete_node (Ref z) s = Some ?s" using assms(3) by (auto simp: delete_node_def)
  have "\<forall>a \<in> fst ` set (nodes t). heap ?s a = heap s a" using assms(2) by (auto simp: nodes_plug)
  from rel_frame[OF this] have r: "rel ?s (ptop fs) t = rel s (ptop fs) t" .
  have "\<forall>a \<in> fst ` set (nbefore fs @ nafter fs). heap ?s a = heap s a"
    using assms(2) by (auto simp: nodes_plug)
  from crel_frame[OF this] have c: "crel ?s fs (ptr_of t) = crel s fs (ptr_of t)" .
  have "zst ?s fs t" using assms(1) r c by (simp add: zst_def nil_ok_def)
  then show ?thesis using d by simp
qed

lemma root_fix_abs:
  assumes "abs_tree s t"
  shows "\<exists>s'. (if m_root s = Nil then Some (s\<lparr>m_root := Nil\<rparr>)
              else do { u \<leftarrow> set_parent (m_root s) Nil s; set_color (m_root u) BLACK u }) = Some s'
     \<and> abs_tree s' (paint BLACK t)"
  using assms
  apply (cases t)
  apply (clarsimp simp: abs_tree_def zst_def nil_ok_def, simp add: acc_defs rel_upd_other)+
  done

lemma finalize_erase_abs:
  assumes z: "zst s fs x" and np: "x = Lf \<longrightarrow> m_parent (m_nil s) = ptop fs"
    and sb: "rc = BLACK \<longrightarrow> x = Lf \<longrightarrow> fs \<noteq> [] \<longrightarrow> fsib (hd fs) \<noteq> Lf"
  shows "\<exists>s'. finalize_erase \<lparr>fixup_node = ptr_of x, removed_color = rc\<rparr> s = Some s'
     \<and> abs_tree s' (paint BLACK (if rc = BLACK then del_fix fs x else plug fs x))"
proof -
  let ?T = "if rc = BLACK then del_fix fs x else plug fs x"
  have "\<exists>s1. (if rc = BLACK then erase_fixup (ptr_of x) s else Some s) = Some s1 \<and> abs_tree s1 ?T"
  proof (cases "rc = BLACK")
    case True
    then show ?thesis using erase_fixup_zst[OF z np] sb by simp
  next
    case False
    then show ?thesis using z by (simp add: abs_tree_plug)
  qed
  then obtain s1 where s1: "(if rc = BLACK then erase_fixup (ptr_of x) s else Some s) = Some s1"
    and a1: "abs_tree s1 ?T" by blast
  from root_fix_abs[OF a1] obtain s2 where
    s2: "(if m_root s1 = Nil then Some (s1\<lparr>m_root := Nil\<rparr>)
         else do { u \<leftarrow> set_parent (m_root s1) Nil s1; set_color (m_root u) BLACK u }) = Some s2"
    and a2: "abs_tree s2 (paint BLACK ?T)" by blast
  show ?thesis using s1 s2 a2 by (cases "rc = BLACK") (simp_all add: finalize_erase_def)
qed

lemma erase_abs:
  assumes a: "abs_tree s t" and r: "rbt t"
  shows "\<exists>s'. erase v s = Some (snd (alocate v [] t) \<noteq> Lf, s') \<and> abs_tree s' (aerase v t)
     \<and> (snd (alocate v [] t) = Lf \<longrightarrow> s' = s)"
proof (cases "alocate v [] t")
  case (Pair fs zt)
  note loc = locate_abs[OF a, of v, unfolded Pair]
  show ?thesis
  proof (cases zt)
    case Lf
    then show ?thesis using loc Pair a by (simp add: erase_def locate_result_def aerase_def)
  next
    case (Nd l z c x rt)
    have pl: "plug fs (Nd l z c x rt) = t" using alocate_plug[OF Pair] Nd by simp
    have z0: "zst s fs (Nd l z c x rt)" using a pl by (simp flip: abs_tree_plug)
    have rp: "rbt (plug fs (Nd l z c x rt))" using r pl by simp
    obtain fs' x' rc where d: "adetach fs (Nd l z c x rt) = (fs', x', rc)"
      by (cases "adetach fs (Nd l z c x rt)")
    from detach_zst[OF z0 d] obtain s1 where
      s1: "detach_erase_target (Ref z) s = Some (\<lparr>fixup_node = ptr_of x', removed_color = rc\<rparr>, s1)"
      and z1: "zst s1 fs' x'" and n1: "x' = Lf \<longrightarrow> m_parent (m_nil s1) = ptop fs'"
      and h1: "heap s1 z = heap s z" by blast
    have hz: "heap s1 z \<noteq> None" using h1 zst_heap[OF z0] by simp
    have "distinct (addrs (plug fs (Nd l z c x rt)))"
      using zst_distinct[OF z0] by (auto simp: nodes_plug)
    then have zn: "z \<notin> fst ` set (nodes (plug fs' x'))"
      unfolding nodes_adetach[OF d] by (auto simp: nodes_plug)
    from delete_node_zst[OF z1 zn hz] obtain s2 where
      s2: "delete_node (Ref z) s1 = Some s2" and z2: "zst s2 fs' x'"
      and n2: "m_nil s2 = m_nil s1" by blast
    have sb: "rc = BLACK \<longrightarrow> x' = Lf \<longrightarrow> fs' \<noteq> [] \<longrightarrow> fsib (hd fs') \<noteq> Lf"
      using adetach_inv(2)[OF rp d] by blast
    from finalize_erase_abs[OF z2 _ sb] n1 n2 obtain s3 where
      s3: "finalize_erase \<lparr>fixup_node = ptr_of x', removed_color = rc\<rparr> s2 = Some s3"
      and a3: "abs_tree s3 (paint BLACK (if rc = BLACK then del_fix fs' x' else plug fs' x'))"
      by auto
    show ?thesis using loc Pair Nd s1 s2 s3 a3 d
      by (simp add: erase_def locate_result_def aerase_def del: adetach.simps)
  qed
qed

section \<open>The augmented tree: reads, writes and frames\<close>

lemma store_upd_aug [simp]:
  "store (upd_aug a f s) = (store s)(a := map_option (\<lambda>n. n\<lparr>n_base := f (n_base n)\<rparr>) (store s a))"
  by (simp add: upd_aug_def)

lemma root_upd_aug [simp]: "root_aug (upd_aug a f s) = root_aug s"
  by (simp add: upd_aug_def)

lemma modify_aug_Ref: "store s a \<noteq> None \<Longrightarrow> modify_aug (Ref a) f s = Some (upd_aug a f s)"
  by (auto simp: modify_aug_def upd_aug_def)

lemma deref_aug_Ref: "deref_aug (Ref a) s = map_option n_base (store s a)"
  by (simp add: deref_aug_def)

lemma deref_aug_Nil: "deref_aug Nil s = None"
  by (simp add: deref_aug_def)

lemma value_aug_Ref: "value_aug (Ref a) s = map_option n_value (store s a)"
  by (simp add: value_aug_def)

lemmas acc_aug = color_aug_def left_child_aug_def right_child_aug_def parent_aug_def
  subtree_size_aug_def set_color_aug_def set_left_child_aug_def set_right_child_aug_def
  set_parent_aug_def set_subtree_size_def deref_aug_Ref deref_aug_Nil modify_aug_Ref
  value_aug_Ref color_of_aug_def is_nil_def node_size_def is_black_def is_red_def paint_aug_def

lemma rel_aug_frame:
  "\<forall>a \<in> fst ` set (nodes t). store s' a = store s a \<Longrightarrow> rel_aug s' par t = rel_aug s par t"
  by (induction t arbitrary: par) auto

lemma crel_aug_frame:
  "\<forall>a \<in> fst ` set (nbefore fs @ nafter fs). store s' a = store s a
   \<Longrightarrow> crel_aug s' fs p = crel_aug s fs p"
proof (induction fs arbitrary: p rule: nbefore.induct)
  case 1
  then show ?case by simp
next
  case (2 a c v r fs)
  then have "rel_aug s' (Ref a) r = rel_aug s (Ref a) r" by (intro rel_aug_frame) auto
  with 2 show ?case by auto
next
  case (3 l a c v fs)
  then have "rel_aug s' (Ref a) l = rel_aug s (Ref a) l" by (intro rel_aug_frame) auto
  with 3 show ?case by auto
qed

lemma rel_aug_upd_other:
  "a \<notin> fst ` set (nodes t) \<Longrightarrow> rel_aug (upd_aug a f s) par t = rel_aug s par t"
  by (rule rel_aug_frame) auto

lemma crel_aug_upd_other:
  "a \<notin> fst ` set (nbefore fs) \<Longrightarrow> a \<notin> fst ` set (nafter fs)
   \<Longrightarrow> crel_aug (upd_aug a f s) fs p = crel_aug s fs p"
  by (rule crel_aug_frame) auto

lemma rel_aug_root_upd [simp]: "rel_aug (s\<lparr>root_aug := r\<rparr>) par t = rel_aug s par t"
  by (rule rel_aug_frame) simp

lemma crel_aug_root_upd [simp]: "crel_aug (s\<lparr>root_aug := r\<rparr>) fs p = crel_aug s fs p"
  by (rule crel_aug_frame) simp

lemma nodes_len_szs: "szs s t \<Longrightarrow> node_size (ptr_of t) s = Some (of_nat (length (nodes t)))"
  by (cases t) (simp_all add: node_size_def is_nil_def)

lemma rel_aug_plug: "rel_aug s Nil (plug fs t) = (crel_aug s fs (ptr_of t) \<and> rel_aug s (ptop fs) t)"
proof (induction fs arbitrary: t rule: nbefore.induct)
  case 1
  then show ?case by simp
next
  case (2 a c v r fs)
  then show ?case by (cases fs) auto
next
  case (3 l a c v fs)
  then show ?case by (cases fs) auto
qed

lemma abs_aug_plug: "abs_aug s (plug fs t) = zst_aug s fs t"
  unfolding abs_aug_def zst_aug_def
  by (simp add: rel_aug_plug nodes_plug) (auto simp: ptr_of_plug)

lemma zst_aug_up: "zst_aug s (f # fs) t = zst_aug s fs (plug1 f t)"
  by (simp flip: abs_aug_plug)

lemma zst_aug_append: "zst_aug s fs (plug rfs t) = zst_aug s (rfs @ fs) t"
  by (simp flip: abs_aug_plug add: plug_append)

lemma zst_aug_store:
  "zst_aug s fs (Nd l a c x r) \<Longrightarrow>
   \<exists>k. store s a = Some \<lparr>n_base = \<lparr>n_color = c, n_left = ptr_of l, n_right = ptr_of r,
                                   n_parent = ptop fs, n_subtree_size = k\<rparr>, n_value = x\<rparr>"
  by (simp add: zst_aug_def)

lemma zst_aug_reads:
  assumes "zst_aug s fs (Nd l a c v r)"
  shows "parent_aug (Ref a) s = Some (ptop fs)" "color_aug (Ref a) s = Some c"
    "left_child_aug (Ref a) s = Some (ptr_of l)" "right_child_aug (Ref a) s = Some (ptr_of r)"
    "value_aug (Ref a) s = Some v"
  using zst_aug_store[OF assms] by (auto simp: acc_aug)

lemma zst_aug_distinct: "zst_aug s fs t \<Longrightarrow> distinct (addrs t @ caddrs fs)"
  by (simp add: zst_aug_def)

lemma zst_aug_rel: "zst_aug s fs t \<Longrightarrow> rel_aug s (ptop fs) t"
  by (simp add: zst_aug_def)

section \<open>The augmented tree: ranks, distance and iteration\<close>

lemma rank_comp_bound_loop_rel:
  fixes v :: "'a::linorder"
  assumes "\<And>x y. x \<le> y \<Longrightarrow> cmp y v \<Longrightarrow> cmp x v"
  shows "rel_aug s par t \<Longrightarrow> szs s t \<Longrightarrow> sorted_wrt (<) (vals t)
   \<Longrightarrow> rank_comp_bound_loop v cmp (ptr_of t) acc s
       = Some (acc + of_nat (length (filter (\<lambda>x. cmp x v) (vals t))))"
proof (induction t arbitrary: par acc)
  case Lf
  then show ?case by (subst rank_comp_bound_loop.simps) (simp add: is_nil_def)
next
  case (Nd l a c x r)
  from Nd.prems(1) obtain k where
    st: "store s a = Some \<lparr>n_base = \<lparr>n_color = c, n_left = ptr_of l, n_right = ptr_of r,
           n_parent = par, n_subtree_size = k\<rparr>, n_value = x\<rparr>"
    and rl: "rel_aug s (Ref a) l" and rr: "rel_aug s (Ref a) r" by auto
  from Nd.prems(2) have sl: "szs s l" and sr: "szs s r" by simp_all
  from Nd.prems(3) have ol: "sorted_wrt (<) (vals l)" and or: "sorted_wrt (<) (vals r)"
    and lx: "\<forall>y \<in> set (vals l). y < x" and xr: "\<forall>y \<in> set (vals r). x < y"
    by (auto simp: sorted_wrt_append)
  show ?case
  proof (cases "cmp x v")
    case True
    have "\<forall>y \<in> set (vals l). cmp y v"
    proof
      fix y assume "y \<in> set (vals l)"
      with lx have "y < x" by fastforce
      then have "y \<le> x" by simp
      from assms[OF this True] show "cmp y v" .
    qed
    then have fl: "filter (\<lambda>x. cmp x v) (vals l) = vals l" by (simp add: filter_id_conv)
    have "rank_comp_bound_loop v cmp (Ref a) acc s
        = rank_comp_bound_loop v cmp (ptr_of r) (acc + (of_nat (length (nodes l)) + 1)) s"
      using st True nodes_len_szs[OF sl]
      by (subst rank_comp_bound_loop.simps) (simp add: acc_aug)
    also have "\<dots> = Some (acc + (of_nat (length (nodes l)) + 1)
        + of_nat (length (filter (\<lambda>x. cmp x v) (vals r))))"
      by (rule Nd.IH(2)[OF rr sr or])
    finally show ?thesis using True fl by simp
  next
    case False
    have "\<forall>y \<in> set (vals r). \<not> cmp y v"
    proof
      fix y assume "y \<in> set (vals r)"
      with xr have "x < y" by fastforce
      then have "x \<le> y" by simp
      from assms[OF this] False show "\<not> cmp y v" by blast
    qed
    then have fr: "filter (\<lambda>x. cmp x v) (vals r) = []" by (simp add: filter_empty_conv)
    have "rank_comp_bound_loop v cmp (Ref a) acc s
        = rank_comp_bound_loop v cmp (ptr_of l) acc s"
      using st False by (subst rank_comp_bound_loop.simps) (simp add: acc_aug)
    also have "\<dots> = Some (acc + of_nat (length (filter (\<lambda>x. cmp x v) (vals l))))"
      by (rule Nd.IH(1)[OF rl sl ol])
    finally show ?thesis using False fr by simp
  qed
qed

lemma rank_comp_bound_abs:
  assumes "aug_inv s t" "\<And>x y. x \<le> y \<Longrightarrow> cmp y v \<Longrightarrow> cmp x v"
  shows "rank_comp_bound v cmp s = Some (of_nat (length (filter (\<lambda>x. cmp x v) (vals t))))"
proof -
  from assms(1) have r: "rel_aug s Nil t" and root: "root_aug s = ptr_of t" and z: "szs s t"
    and b: "sorted_wrt (<) (vals t)"
    by (simp_all add: aug_inv_def abs_aug_def zst_aug_def bst_def)
  show ?thesis unfolding rank_comp_bound_def root
    using rank_comp_bound_loop_rel[of cmp v s Nil t 0, OF assms(2) r z b] by simp
qed

lemma aug_inv_distinct: "aug_inv s t \<Longrightarrow> distinct (addrs t)"
  by (simp add: aug_inv_def abs_aug_def zst_aug_def)

lemma distance_aug_abs:
  assumes "aug_inv s t" "\<not> second < first"
  shows "\<exists>r1 r2. rank_comp_bound first compare_lower_bound s = Some r1
     \<and> rank_comp_bound second compare_upper_bound s = Some r2
     \<and> r1 \<le> r2 \<and> distance_aug first second s = Some (r2 - r1)
     \<and> unat r1 = card {x \<in> set (vals t). x < first}
     \<and> unat r2 = card {x \<in> set (vals t). x \<le> second}
     \<and> unat (r2 - r1) = card {x \<in> set (vals t). first \<le> x \<and> x \<le> second}"
proof -
  from assms(1) have b: "bst t" and z: "0 \<notin> fst ` set (nodes t)" by (simp_all add: aug_inv_def)
  note d = aug_inv_distinct[OF assms(1)]
  define A where "A = length (filter (\<lambda>x. x < first) (vals t))"
  define B where "B = length (filter (\<lambda>x. x \<le> second) (vals t))"
  define K where "K = length (filter (\<lambda>x. first \<le> x \<and> x \<le> second) (vals t))"
  have r1: "rank_comp_bound first compare_lower_bound s = Some (of_nat A)"
    using rank_comp_bound_abs[OF assms(1), of compare_lower_bound first]
    unfolding A_def by (simp add: compare_lower_bound_def)
  have r2: "rank_comp_bound second compare_upper_bound s = Some (of_nat B)"
    using rank_comp_bound_abs[OF assms(1), of compare_upper_bound second]
    unfolding B_def by (simp add: compare_upper_bound_def)
  have bA: "A < 2 ^ 64" and bB: "B < 2 ^ 64" and bK: "K < 2 ^ 64"
    unfolding A_def B_def K_def by (rule filter_count_bound[OF d z])+
  from assms(2) have le: "first \<le> second" by simp
  from count_range_closed[OF le, of "vals t"] have k: "B - A = K" and m: "A \<le> B"
    unfolding A_def B_def K_def by blast+
  have wle: "(of_nat A :: 64 word) \<le> of_nat B" using word_of_nat_le[OF bA bB] m by simp
  have df: "(of_nat B :: 64 word) - of_nat A = of_nat K" using word_of_nat_diff[OF m] k by simp
  have uA: "unat (of_nat A :: 64 word) = A" by (rule of_nat_inverse[OF refl]) (use bA in simp)
  have uB: "unat (of_nat B :: 64 word) = B" by (rule of_nat_inverse[OF refl]) (use bB in simp)
  have uK: "unat (of_nat K :: 64 word) = K" by (rule of_nat_inverse[OF refl]) (use bK in simp)
  have cA: "A = card {x \<in> set (vals t). x < first}" unfolding A_def by (rule count_filter_card[OF b])
  have cB: "B = card {x \<in> set (vals t). x \<le> second}" unfolding B_def by (rule count_filter_card[OF b])
  have cK: "K = card {x \<in> set (vals t). first \<le> x \<and> x \<le> second}"
    unfolding K_def by (rule count_filter_card[OF b])
  have dist: "distance_aug first second s = Some (of_nat B - of_nat A)"
    using assms(2) r1 r2 wle by (simp add: distance_aug_def)
  show ?thesis
    apply (rule exI[of _ "of_nat A"], rule exI[of _ "of_nat B"])
    using r1 r2 wle dist uA uB uK df cA cB cK by simp
qed

text \<open>Iteration: the leftmost node, the successor, and the loop over all nodes.\<close>

lemma nodes_nonempty: "t \<noteq> Lf \<Longrightarrow> nodes t \<noteq> []"
  by (cases t) auto

lemma first_ptr_append: "xs \<noteq> [] \<Longrightarrow> first_ptr (xs @ ys) = first_ptr xs"
  by (cases xs) auto

lemma first_ptr_mid:
  "first_ptr (xs @ y # ys) = (case xs of [] \<Rightarrow> Ref (fst y) | x # zs \<Rightarrow> Ref (fst x))"
  by (cases xs) auto

lemma amin_first: "t \<noteq> Lf \<Longrightarrow> ptr_of (snd (amin fs t)) = first_ptr (nodes t)"
  by (induction fs t rule: amin.induct) (auto simp: first_ptr_mid)

lemma minimum_aug_rel: "rel_aug s par t \<Longrightarrow> minimum_aug (ptr_of t) s = Some (first_ptr (nodes t))"
proof (induction t arbitrary: par)
  case Lf
  then show ?case by (subst minimum_aug.simps) simp
next
  case (Nd l a c v r)
  from Nd.prems have rl: "rel_aug s (Ref a) l" by simp
  show ?case
  proof (cases l)
    case Lf
    then show ?thesis using Nd.prems by (subst minimum_aug.simps) (auto simp: acc_aug)
  next
    case N: (Nd ll b cb vb lr)
    then have "first_ptr (nodes (Nd l a c v r)) = first_ptr (nodes l)"
      by (simp add: first_ptr_mid)
    then show ?thesis using Nd.prems Nd.IH(1)[OF rl] N
      by (subst minimum_aug.simps) (auto simp: acc_aug)
  qed
qed

lemma left_anc_first: "first_ptr (nafter fs) = left_anc fs"
  by (induction fs rule: nbefore.induct) auto

lemma next_loop_zst:
  "zst_aug s fs x \<Longrightarrow> x \<noteq> Lf \<Longrightarrow> next_loop (ptr_of x) (ptop fs) s = Some (left_anc fs)"
proof (induction fs arbitrary: x)
  case Nil
  then show ?case by (subst next_loop.simps) simp
next
  case (Cons f fs)
  have zu: "zst_aug s fs (plug1 f x)" using Cons.prems(1) by (simp add: zst_aug_up)
  have ne: "plug1 f x \<noteq> Lf" by (cases f) auto
  obtain xl xa xc xv xr where x: "x = Nd xl xa xc xv xr" using Cons.prems(2) by (cases x) auto
  show ?case
  proof (cases f)
    case (LF a c v r)
    have "ptr_of r \<noteq> Ref xa"
      using zst_aug_distinct[OF Cons.prems(1)] x LF by (cases r) auto
    then show ?thesis using zst_aug_reads(4)[OF zu[unfolded LF plug1.simps]] LF x
      by (subst next_loop.simps) auto
  next
    case (RF l a c v)
    from Cons.IH[OF zu ne] have "next_loop (Ref a) (ptop fs) s = Some (left_anc fs)"
      using RF by simp
    then show ?thesis
      using zst_aug_reads(1,4)[OF zu[unfolded RF plug1.simps]] RF
      by (subst next_loop.simps) auto
  qed
qed

lemma next_aug_zst:
  assumes "zst_aug s fs (Nd l a c v r)"
  shows "next_aug (Ref a) s = Some (if r \<noteq> Lf then ptr_of (snd (amin [] r)) else left_anc fs)"
    "next_aug (Ref a) s = Some (first_ptr (nodes r @ nafter fs))"
proof -
  note rd = zst_aug_reads[OF assms]
  have rr: "rel_aug s (Ref a) r" using assms by (simp add: zst_aug_def)
  show "next_aug (Ref a) s = Some (if r \<noteq> Lf then ptr_of (snd (amin [] r)) else left_anc fs)"
  proof (cases r)
    case Lf
    then show ?thesis using rd next_loop_zst[OF assms] by (simp add: next_aug_def)
  next
    case (Nd rl b cb vb rr')
    then show ?thesis using rd minimum_aug_rel[OF rr] amin_first[of r "[]"]
      by (simp add: next_aug_def)
  qed
  then show "next_aug (Ref a) s = Some (first_ptr (nodes r @ nafter fs))"
    using amin_first[of r "[]"] nodes_nonempty[of r]
    by (auto simp: first_ptr_append left_anc_first)
qed

lemma zipper_of_split:
  "nodes t = xs @ (b, w) # ys
   \<Longrightarrow> \<exists>fs l c r. plug fs (Nd l b c w r) = t \<and> nodes r @ nafter fs = ys"
proof (induction t arbitrary: xs ys)
  case Lf
  then show ?case by simp
next
  case (Nd L a c v R)
  from Nd.prems have e: "nodes L @ (a, v) # nodes R = xs @ (b, w) # ys" by simp
  then consider
    (left) us where "nodes L = xs @ (b, w) # us" "ys = us @ (a, v) # nodes R"
    | (mid) "xs = nodes L" "(b, w) = (a, v)" "ys = nodes R"
    | (right) us where "xs = nodes L @ (a, v) # us" "nodes R = us @ (b, w) # ys"
    by (auto simp: append_eq_append_conv2 Cons_eq_append_conv append_eq_Cons_conv)
  then show ?case
  proof cases
    case left
    from Nd.IH(1)[OF left(1)] obtain fs l c' r where
      p: "plug fs (Nd l b c' w r) = L" and n: "nodes r @ nafter fs = us" by blast
    have "plug (fs @ [LF a c v R]) (Nd l b c' w r) = Nd L a c v R"
      using p by (simp add: plug_append)
    moreover have "nodes r @ nafter (fs @ [LF a c v R]) = ys"
      using n left(2) by (simp add: nafter_append)
    ultimately show ?thesis by blast
  next
    case mid
    then have "plug [] (Nd L b c w R) = Nd L a c v R \<and> nodes R @ nafter [] = ys" by simp
    then show ?thesis by blast
  next
    case right
    from Nd.IH(2)[OF right(2)] obtain fs l c' r where
      p: "plug fs (Nd l b c' w r) = R" and n: "nodes r @ nafter fs = ys" by blast
    have "plug (fs @ [RF L a c v]) (Nd l b c' w r) = Nd L a c v R"
      using p by (simp add: plug_append)
    moreover have "nodes r @ nafter (fs @ [RF L a c v]) = ys"
      using n by (simp add: nafter_append)
    ultimately show ?thesis by blast
  qed
qed

lemma iterate_from_abs:
  "abs_aug s t \<Longrightarrow> nodes t = xs @ (b, w) # ys
   \<Longrightarrow> iterate_from (Ref b) s = Some (w # map snd ys)"
proof (induction ys arbitrary: xs b w)
  case Nil
  from zipper_of_split[OF Nil.prems(2)] obtain fs l c r where
    p: "plug fs (Nd l b c w r) = t" and n: "nodes r @ nafter fs = []" by blast
  have z: "zst_aug s fs (Nd l b c w r)" using Nil.prems(1) p by (simp flip: abs_aug_plug)
  have "iterate_from Nil s = Some []" by (subst iterate_from.simps) (simp add: end_aug_def)
  then show ?case using zst_aug_reads(5)[OF z] next_aug_zst(2)[OF z] n
    by (subst iterate_from.simps) (simp add: end_aug_def)
next
  case (Cons y ys)
  obtain b' w' where y: "y = (b', w')" by (cases y)
  from zipper_of_split[OF Cons.prems(2)] obtain fs l c r where
    p: "plug fs (Nd l b c w r) = t" and n: "nodes r @ nafter fs = y # ys" by blast
  have z: "zst_aug s fs (Nd l b c w r)" using Cons.prems(1) p by (simp flip: abs_aug_plug)
  have "nodes t = (xs @ [(b, w)]) @ (b', w') # ys" using Cons.prems(2) y by simp
  from Cons.IH[OF Cons.prems(1) this] have
    "iterate_from (Ref b') s = Some (w' # map snd ys)" .
  then show ?case using zst_aug_reads(5)[OF z] next_aug_zst(2)[OF z] n y
    by (subst iterate_from.simps) (simp add: end_aug_def)
qed

lemma iterate_abs:
  assumes "abs_aug s t"
  shows "iterate s = Some (vals t)"
proof (cases "nodes t")
  case Nil
  then have "t = Lf" by (cases t) auto
  then have "root_aug s = Nil" using assms by (simp add: abs_aug_def zst_aug_def)
  moreover have "iterate_from Nil s = Some []" by (subst iterate_from.simps) (simp add: end_aug_def)
  ultimately show ?thesis using Nil by (simp add: iterate_def begin_aug_def)
next
  case (Cons y ys)
  obtain b w where y: "y = (b, w)" by (cases y)
  have ne: "t \<noteq> Lf" using Cons by auto
  have r: "rel_aug s Nil t" and root: "root_aug s = ptr_of t"
    using assms by (simp_all add: abs_aug_def zst_aug_def)
  have rn: "root_aug s \<noteq> Nil" using root ne by (cases t) auto
  have "nodes t = [] @ (b, w) # ys" using Cons y by simp
  from iterate_from_abs[OF assms this] have "iterate_from (Ref b) s = Some (w # map snd ys)" .
  then show ?thesis using minimum_aug_rel[OF r] root rn Cons y
    by (simp add: iterate_def begin_aug_def)
qed

section \<open>The augmented tree: writes of colours and sizes\<close>

lemma same_sz_refl [simp]: "same_sz s s"
  by (simp add: same_sz_def)

lemma same_sz_trans: "same_sz s s1 \<Longrightarrow> same_sz s1 s2 \<Longrightarrow> same_sz s s2"
  by (simp add: same_sz_def)

lemma dp_frame:
  "\<forall>a \<in> fst ` set (nodes t). subtree_size_aug (Ref a) s' = subtree_size_aug (Ref a) s
   \<Longrightarrow> dp s' m t = dp s m t"
  by (induction t) auto

lemma dp_same: "same_sz s s' \<Longrightarrow> dp s' m t = dp s m t"
  by (rule dp_frame) (simp add: same_sz_def)

lemma nodes_sk [simp]: "nodes (sk t) = nodes t"
  by (induction t) auto

lemma dp_sk: "dp s m (sk t) = dp s m t"
  by (induction t) auto

lemma dp_sk_eq: "sk t = sk t' \<Longrightarrow> dp s m t = dp s m t'"
  using dp_sk[of s m t] dp_sk[of s m t'] by simp

lemma dp_szs: "m \<notin> fst ` set (nodes t) \<Longrightarrow> dp s m t = szs s t"
  by (induction t) auto

lemma sk_plug_cong: "sk t = sk t' \<Longrightarrow> sk (plug fs t) = sk (plug fs t')"
proof (induction fs arbitrary: t t')
  case Nil
  then show ?case by simp
next
  case (Cons f fs)
  have "sk (plug1 f t) = sk (plug1 f t')" using Cons.prems by (cases f) auto
  from Cons.IH[OF this] show ?case by simp
qed

lemma sk_paint [simp]: "sk (paint c t) = sk t"
  by (cases t) auto

lemma sk_plug1_fsetcol [simp]: "sk (plug1 (fsetcol k f) t) = sk (plug1 f t)"
  by (cases f) auto

lemma sk_plug1_fpaintsib [simp]: "sk (plug1 (fpaintsib k f) t) = sk (plug1 f t)"
  by (cases f) auto

lemma dp_plug_inside:
  "m \<in> fst ` set (nodes t) \<Longrightarrow> dp s m (plug fs t) = (dp s m t \<and> (\<forall>f \<in> set fs. dp s m (fsib f)))"
proof (induction fs arbitrary: t)
  case Nil
  then show ?case by simp
next
  case (Cons f fs)
  have "m \<in> fst ` set (nodes (plug1 f t))" using Cons.prems by (cases f) auto
  from Cons.IH[OF this] Cons.prems show ?case by (cases f) auto
qed

lemma dp_plug_parts: "dp s m (plug fs t) \<Longrightarrow> dp s m t \<and> (\<forall>f \<in> set fs. dp s m (fsib f))"
proof (induction fs arbitrary: t)
  case Nil
  then show ?case by simp
next
  case (Cons f fs)
  from Cons.IH[of "plug1 f t"] Cons.prems show ?case by (cases f) auto
qed

lemma szs_sub: "subtree_size_aug (Ref a) s = Some k \<Longrightarrow> store s a \<noteq> None"
  by (auto simp: acc_aug)

lemma set_color_aug_zst:
  assumes "zst_aug s fs (Nd l a c v r)"
  shows "\<exists>s'. set_color_aug (Ref a) k s = Some s' \<and> zst_aug s' fs (Nd l a k v r) \<and> same_sz s s'"
  using assms
  apply (cases fs rule: nbefore.cases)
  apply (clarsimp simp: zst_aug_def ptr_of_plug same_sz_def, simp add: acc_aug rel_aug_upd_other crel_aug_upd_other)+
  done

lemma set_color_aug_sib:
  assumes "zst_aug s (g # fs) t" "fsib g \<noteq> Lf"
  shows "\<exists>s'. set_color_aug (ptr_of (fsib g)) k s = Some s' \<and> zst_aug s' (fpaintsib k g # fs) t
     \<and> same_sz s s'"
proof (cases g)
  case g: (LF a c v u)
  then obtain ul ua uc uv ur where u: "u = Nd ul ua uc uv ur" using assms(2) by (cases u) auto
  have "zst_aug s (RF t a c v # fs) (Nd ul ua uc uv ur)"
    using assms(1) unfolding g u by (simp add: zst_aug_up)
  from set_color_aug_zst[OF this, of k] obtain s' where "set_color_aug (Ref ua) k s = Some s'"
    and "zst_aug s' (RF t a c v # fs) (Nd ul ua k uv ur)" and "same_sz s s'" by blast
  then show ?thesis unfolding g u by (simp add: zst_aug_up)
next
  case g: (RF u a c v)
  then obtain ul ua uc uv ur where u: "u = Nd ul ua uc uv ur" using assms(2) by (cases u) auto
  have "zst_aug s (LF a c v t # fs) (Nd ul ua uc uv ur)"
    using assms(1) unfolding g u by (simp add: zst_aug_up)
  from set_color_aug_zst[OF this, of k] obtain s' where "set_color_aug (Ref ua) k s = Some s'"
    and "zst_aug s' (LF a c v t # fs) (Nd ul ua k uv ur)" and "same_sz s s'" by blast
  then show ?thesis unfolding g u by (simp add: zst_aug_up)
qed

lemma set_color_aug_frame:
  assumes "zst_aug s (f # fs) t"
  shows "\<exists>s'. set_color_aug (Ref (faddr f)) k s = Some s' \<and> zst_aug s' (fsetcol k f # fs) t
     \<and> same_sz s s'"
proof (cases f)
  case f: (LF a c v r)
  have "zst_aug s fs (Nd t a c v r)" using assms unfolding f by (simp add: zst_aug_up)
  from set_color_aug_zst[OF this, of k] show ?thesis unfolding f by (simp add: zst_aug_up)
next
  case f: (RF l a c v)
  have "zst_aug s fs (Nd l a c v t)" using assms unfolding f by (simp add: zst_aug_up)
  from set_color_aug_zst[OF this, of k] show ?thesis unfolding f by (simp add: zst_aug_up)
qed

lemma paint_aug_zst:
  assumes "zst_aug s fs t"
  shows "\<exists>s'. paint_aug (ptr_of t) k s = Some s' \<and> zst_aug s' fs (paint k t) \<and> same_sz s s'"
proof (cases t)
  case Lf
  then show ?thesis using assms by (simp add: paint_aug_def is_nil_def)
next
  case (Nd l a c v r)
  then show ?thesis using set_color_aug_zst[of s fs l a c v r k] assms
    by (simp add: paint_aug_def is_nil_def)
qed

lemma color_of_aug_zst: "zst_aug s fs t \<Longrightarrow> color_of_aug (ptr_of t) s = Some (col t)"
  by (cases t) (auto simp: color_of_aug_def is_nil_def dest: zst_aug_reads(2))

lemma frame_reads_aug:
  assumes "zst_aug s (f # fs) x"
  shows "color_aug (Ref (faddr f)) s = Some (fcol f)"
    "parent_aug (Ref (faddr f)) s = Some (ptop fs)"
  using assms by (cases f; auto simp: zst_aug_up dest: zst_aug_reads(1,2))+

lemma frame_reads_aug_L:
  assumes "zst_aug s (LF p pc pv w # fs) x"
  shows "left_child_aug (Ref p) s = Some (ptr_of x)" "right_child_aug (Ref p) s = Some (ptr_of w)"
  using assms by (auto simp: zst_aug_up dest: zst_aug_reads(3,4))

lemma frame_reads_aug_R:
  assumes "zst_aug s (RF w p pc pv # fs) x"
  shows "left_child_aug (Ref p) s = Some (ptr_of w)" "right_child_aug (Ref p) s = Some (ptr_of x)"
  using assms by (auto simp: zst_aug_up dest: zst_aug_reads(3,4))

text \<open>Sizes: one node, and the way up.\<close>

lemma recalc_size_zst:
  assumes "zst_aug s fs (Nd l a c v r)"
  shows "\<exists>s'. recalc_size (Ref a) s = Some s' \<and> zst_aug s' fs (Nd l a c v r)
     \<and> (\<forall>b. b \<noteq> a \<longrightarrow> store s' b = store s b)
     \<and> (node_size (ptr_of l) s = Some kl \<longrightarrow> node_size (ptr_of r) s = Some kr \<longrightarrow>
          subtree_size_aug (Ref a) s' = Some (kl + kr + 1))"
  using assms
  apply (cases fs rule: nbefore.cases; cases l; cases r)
  apply (clarsimp simp: zst_aug_def ptr_of_plug, simp add: recalc_size_def acc_aug rel_aug_upd_other crel_aug_upd_other)+
  done

lemma dp_store_frame:
  "\<forall>b \<in> fst ` set (nodes t). store s' b = store s b \<Longrightarrow> dp s' m t = dp s m t"
  by (rule dp_frame) (simp add: acc_aug)

lemma szs_store_frame:
  "\<forall>b \<in> fst ` set (nodes t). store s' b = store s b \<Longrightarrow> szs s' t = szs s t"
  by (induction t) (auto simp: acc_aug)

lemma node_size_rel: "rel_aug s par t \<Longrightarrow> \<exists>k. node_size (ptr_of t) s = Some k"
  by (cases t) (auto simp: acc_aug)

lemma recalc_size_dp:
  assumes z: "zst_aug s fs (Nd l a c v r)"
  shows "\<exists>s'. recalc_size (Ref a) s = Some s' \<and> zst_aug s' fs (Nd l a c v r)
     \<and> (\<forall>b. b \<noteq> a \<longrightarrow> store s' b = store s b)
     \<and> (\<forall>m. dp s m l \<longrightarrow> dp s m r \<longrightarrow> dp s' m (Nd l a c v r))"
proof -
  have rl: "rel_aug s (Ref a) l" and rr: "rel_aug s (Ref a) r" using z by (simp_all add: zst_aug_def)
  from node_size_rel[OF rl] obtain kl where kl: "node_size (ptr_of l) s = Some kl" by blast
  from node_size_rel[OF rr] obtain kr where kr: "node_size (ptr_of r) s = Some kr" by blast
  from recalc_size_zst[OF z, of kl kr] kl kr obtain s' where
    s': "recalc_size (Ref a) s = Some s'" and z': "zst_aug s' fs (Nd l a c v r)"
    and fr: "\<forall>b. b \<noteq> a \<longrightarrow> store s' b = store s b"
    and sz: "subtree_size_aug (Ref a) s' = Some (kl + kr + 1)" by blast
  have d: "a \<notin> fst ` set (nodes l)" "a \<notin> fst ` set (nodes r)"
    using zst_aug_distinct[OF z] by auto
  have fl: "dp s' m l = dp s m l" for m by (rule dp_store_frame) (use fr d in auto)
  have fr': "dp s' m r = dp s m r" for m by (rule dp_store_frame) (use fr d in auto)
  have "dp s' m (Nd l a c v r)" if pl: "dp s m l" and pr: "dp s m r" for m
  proof (cases "m \<in> fst ` set (nodes (Nd l a c v r))")
    case True
    then show ?thesis using pl pr fl fr' by simp
  next
    case False
    then have "szs s l" "szs s r" using pl pr dp_szs[of m l s] dp_szs[of m r s] by auto
    then have "kl = of_nat (length (nodes l))" "kr = of_nat (length (nodes r))"
      using nodes_len_szs[of s l] nodes_len_szs[of s r] kl kr by auto
    then show ?thesis using sz pl pr fl fr' by simp
  qed
  then show ?thesis using s' z' fr by blast
qed

lemma upward_zst:
  "zst_aug s fs (Nd l a c v r) \<Longrightarrow>
   \<exists>s1 s'. recalc_size (Ref a) s = Some s1 \<and> update_size_upwards (ptop fs) s1 = Some s'
     \<and> zst_aug s' fs (Nd l a c v r)
     \<and> (\<forall>b. b \<noteq> a \<longrightarrow> b \<notin> faddr ` set fs \<longrightarrow> store s' b = store s b)
     \<and> (\<forall>m. dp s m l \<longrightarrow> dp s m r \<longrightarrow> (\<forall>f \<in> set fs. dp s m (fsib f))
            \<longrightarrow> dp s' m (plug fs (Nd l a c v r)))"
proof (induction fs arbitrary: s l a c v r)
  case Nil
  from recalc_size_dp[OF Nil] obtain s1 where
    s1: "recalc_size (Ref a) s = Some s1" and z1: "zst_aug s1 [] (Nd l a c v r)"
    and fr: "\<forall>b. b \<noteq> a \<longrightarrow> store s1 b = store s b"
    and d1: "\<forall>m. dp s m l \<longrightarrow> dp s m r \<longrightarrow> dp s1 m (Nd l a c v r)" by blast
  have "update_size_upwards Nil s1 = Some s1"
    by (subst update_size_upwards.simps) (simp add: is_nil_def)
  then show ?case using s1 z1 fr d1 by simp
next
  case (Cons f fs)
  let ?X = "Nd l a c v r"
  from recalc_size_dp[OF Cons.prems] obtain s1 where
    s1: "recalc_size (Ref a) s = Some s1" and z1: "zst_aug s1 (f # fs) ?X"
    and fr: "\<forall>b. b \<noteq> a \<longrightarrow> store s1 b = store s b"
    and d1: "\<forall>m. dp s m l \<longrightarrow> dp s m r \<longrightarrow> dp s1 m ?X" by blast
  obtain pl' pc' pv' pr' where p1: "plug1 f ?X = Nd pl' (faddr f) pc' pv' pr'"
    using plug1_Nd[of f ?X] by blast
  have zu: "zst_aug s1 fs (Nd pl' (faddr f) pc' pv' pr')"
    using z1 p1 by (simp add: zst_aug_up)
  from Cons.IH[OF zu] obtain s2 s' where
    s2: "recalc_size (Ref (faddr f)) s1 = Some s2"
    and u: "update_size_upwards (ptop fs) s2 = Some s'"
    and z': "zst_aug s' fs (Nd pl' (faddr f) pc' pv' pr')"
    and fr2: "\<forall>b. b \<noteq> faddr f \<longrightarrow> b \<notin> faddr ` set fs \<longrightarrow> store s' b = store s1 b"
    and d2: "\<forall>m. dp s1 m pl' \<longrightarrow> dp s1 m pr' \<longrightarrow> (\<forall>g \<in> set fs. dp s1 m (fsib g))
            \<longrightarrow> dp s' m (plug fs (Nd pl' (faddr f) pc' pv' pr'))" by blast
  from recalc_size_dp[OF zu] s2 have z2: "zst_aug s2 fs (Nd pl' (faddr f) pc' pv' pr')" by auto
  have par: "parent_aug (Ref (faddr f)) s2 = Some (ptop fs)" using zst_aug_reads(1)[OF z2] .
  have up: "update_size_upwards (Ref (faddr f)) s1 = Some s'"
    using s2 par u by (subst update_size_upwards.simps) (simp add: is_nil_def)
  have dist: "distinct (addrs ?X @ caddrs (f # fs))" using zst_aug_distinct[OF Cons.prems] .
  have sibf: "dp s1 m (fsib g) = dp s m (fsib g)" if "g \<in> set (f # fs)" for g m
  proof (rule dp_store_frame, rule ballI)
    fix b assume b: "b \<in> fst ` set (nodes (fsib g))"
    have "b \<in> fst ` set (nbefore (f # fs) @ nafter (f # fs))"
      using that b
    proof (induction "f # fs" arbitrary: f fs rule: nbefore.induct)
      case (2 a' c' v' r' fs')
      then show ?case by (cases "g = LF a' c' v' r'") (auto, (cases fs'; force)+)
    next
      case (3 l' a' c' v' fs')
      then show ?case by (cases "g = RF l' a' c' v'") (auto, (cases fs'; force)+)
    qed
    then have "b \<noteq> a" using dist by auto
    then show "store s1 b = store s b" using fr by simp
  qed
  have zp: "zst_aug s' (f # fs) ?X" using z' p1 by (simp add: zst_aug_up)
  have dpc: "dp s' m (plug (f # fs) ?X)"
    if a1: "dp s m l" and a2: "dp s m r" and a3: "\<forall>g \<in> set (f # fs). dp s m (fsib g)" for m
  proof -
    have x: "dp s1 m ?X" using d1 a1 a2 by blast
    have sf: "dp s1 m (fsib f)" using sibf[of f m] a3 by simp
    have rest: "\<forall>g \<in> set fs. dp s1 m (fsib g)" using sibf a3 by simp
    have "dp s1 m pl' \<and> dp s1 m pr'" using p1 x sf by (cases f) auto
    with d2 rest have "dp s' m (plug fs (Nd pl' (faddr f) pc' pv' pr'))" by blast
    then show ?thesis using p1 by simp
  qed
  have frm: "\<forall>b. b \<noteq> a \<longrightarrow> b \<notin> faddr ` set (f # fs) \<longrightarrow> store s' b = store s b"
    using fr fr2 by auto
  show ?case using s1 up zp frm dpc by (simp del: plug.simps)
qed

section \<open>The augmented tree: rotations\<close>

lemma sib_in_ctx:
  "g \<in> set fs \<Longrightarrow> b \<in> fst ` set (nodes (fsib g)) \<Longrightarrow> b \<in> fst ` set (nbefore fs @ nafter fs)"
proof (induction fs rule: nbefore.induct)
  case 1
  then show ?case by simp
next
  case (2 a c v r fs)
  then show ?case by (cases "g = LF a c v r") auto
next
  case (3 l a c v fs)
  then show ?case by (cases "g = RF l a c v") auto
qed

lemma frame_in_ctx: "g \<in> set fs \<Longrightarrow> faddr g \<in> fst ` set (nbefore fs @ nafter fs)"
proof (induction fs rule: nbefore.induct)
  case 1
  then show ?case by simp
next
  case (2 a c v r fs)
  then show ?case by (cases "g = LF a c v r") auto
next
  case (3 l a c v fs)
  then show ?case by (cases "g = RF l a c v") auto
qed

lemma rotate_unfold:
  "rotate node dir t = do {
     pivot \<leftarrow> (if dir = LEFT then right_child_aug node t else left_child_aug node t);
     if is_nil pivot then None else do {
       pivot_parent \<leftarrow> parent_aug node t;
       t \<leftarrow> rotate_links node pivot pivot_parent dir t;
       t \<leftarrow> recalc_size node t;
       t \<leftarrow> recalc_size pivot t;
       update_size_upwards pivot_parent t } }"
  unfolding rotate_def rotate_links_def by (simp cong: if_cong)

lemma rotate_links_L_zst:
  assumes "zst_aug s fs (Nd l a c v (Nd rl b cb vb rr))"
  shows "\<exists>s'. rotate_links (Ref a) (Ref b) (ptop fs) LEFT s = Some s'
     \<and> zst_aug s' fs (Nd (Nd l a c v rl) b cb vb rr) \<and> same_sz s s'"
  using assms
  apply (cases fs rule: nbefore.cases; cases rl)
  apply (clarsimp simp: zst_aug_def ptr_of_plug same_sz_def, simp add: rotate_links_def acc_aug rel_aug_upd_other crel_aug_upd_other)+
  done

lemma rotate_links_R_zst:
  assumes "zst_aug s fs (Nd (Nd ll b cb vb lr) a c v r)"
  shows "\<exists>s'. rotate_links (Ref a) (Ref b) (ptop fs) RIGHT s = Some s'
     \<and> zst_aug s' fs (Nd ll b cb vb (Nd lr a c v r)) \<and> same_sz s s'"
  using assms
  apply (cases fs rule: nbefore.cases; cases lr)
  apply (clarsimp simp: zst_aug_def ptr_of_plug same_sz_def, simp add: rotate_links_def acc_aug rel_aug_upd_other crel_aug_upd_other)+
  done


lemma rotate_L_zst:
  assumes z: "zst_aug s fs (Nd l a c v (Nd rl b cb vb rr))"
  shows "\<exists>s'. rotate (Ref a) LEFT s = Some s' \<and> zst_aug s' fs (Nd (Nd l a c v rl) b cb vb rr)
     \<and> (\<forall>m. dp s m (plug fs (Nd l a c v (Nd rl b cb vb rr))) \<longrightarrow> dp s' m (plug fs (Nd (Nd l a c v rl) b cb vb rr)))"
proof -
  note rd = zst_aug_reads[OF z]
  from rotate_links_L_zst[OF z] obtain s1 where
    s1: "rotate_links (Ref a) (Ref b) (ptop fs) LEFT s = Some s1"
    and z1: "zst_aug s1 fs (Nd (Nd l a c v rl) b cb vb rr)" and e1: "same_sz s s1" by blast
  have z1': "zst_aug s1 (LF b cb vb rr # fs) (Nd l a c v rl)" using z1 by (simp add: zst_aug_up)
  from recalc_size_dp[OF z1'] obtain s2 where
    s2: "recalc_size (Ref a) s1 = Some s2" and z2: "zst_aug s2 (LF b cb vb rr # fs) (Nd l a c v rl)"
    and f2: "\<forall>x. x \<noteq> a \<longrightarrow> store s2 x = store s1 x"
    and d2: "\<forall>m. dp s1 m l \<longrightarrow> dp s1 m rl \<longrightarrow> dp s2 m (Nd l a c v rl)" by blast
  have z2': "zst_aug s2 fs (Nd (Nd l a c v rl) b cb vb rr)" using z2 by (simp add: zst_aug_up)
  from upward_zst[OF z2'] obtain s3 s' where
    s3: "recalc_size (Ref b) s2 = Some s3" and u: "update_size_upwards (ptop fs) s3 = Some s'"
    and z': "zst_aug s' fs (Nd (Nd l a c v rl) b cb vb rr)"
    and d3: "\<forall>m. dp s2 m (Nd l a c v rl) \<longrightarrow> dp s2 m (rr) \<longrightarrow> (\<forall>f \<in> set fs. dp s2 m (fsib f))
            \<longrightarrow> dp s' m (plug fs (Nd (Nd l a c v rl) b cb vb rr))" by blast
  have dist: "distinct (addrs (Nd l a c v (Nd rl b cb vb rr)) @ caddrs fs)" using zst_aug_distinct[OF z] .
  have "dp s' m (plug fs (Nd (Nd l a c v rl) b cb vb rr))" if p: "dp s m (plug fs (Nd l a c v (Nd rl b cb vb rr)))" for m
  proof -
    from dp_plug_parts[OF p] have a1: "dp s m l" and a2: "dp s m rl" and a3: "dp s m rr"
      and a4: "\<forall>f \<in> set fs. dp s m (fsib f)" by auto
    have b1: "dp s1 m l" "dp s1 m rl" "dp s1 m rr" "\<forall>f \<in> set fs. dp s1 m (fsib f)"
      using a1 a2 a3 a4 dp_same[OF e1] by auto
    have i: "dp s2 m (Nd l a c v rl)" using d2 b1 by blast
    have o: "dp s2 m rr"
    proof -
      have "dp s2 m rr = dp s1 m rr" by (rule dp_store_frame) (use f2 dist in auto)
      then show ?thesis using b1 by simp
    qed
    have sb: "\<forall>f \<in> set fs. dp s2 m (fsib f)"
    proof
      fix f assume f: "f \<in> set fs"
      have "dp s2 m (fsib f) = dp s1 m (fsib f)"
      proof (rule dp_store_frame, rule ballI)
        fix x assume "x \<in> fst ` set (nodes (fsib f))"
        from sib_in_ctx[OF f this] have "x \<noteq> a" using dist by auto
        then show "store s2 x = store s1 x" using f2 by simp
      qed
      then show "dp s2 m (fsib f)" using b1(4) f by simp
    qed
    show ?thesis using d3 i o sb by blast
  qed
  then show ?thesis unfolding rotate_unfold using rd s1 s2 s3 u z' by (simp add: is_nil_def)
qed

lemma rotate_R_zst:
  assumes z: "zst_aug s fs (Nd (Nd ll b cb vb lr) a c v r)"
  shows "\<exists>s'. rotate (Ref a) RIGHT s = Some s' \<and> zst_aug s' fs (Nd ll b cb vb (Nd lr a c v r))
     \<and> (\<forall>m. dp s m (plug fs (Nd (Nd ll b cb vb lr) a c v r)) \<longrightarrow> dp s' m (plug fs (Nd ll b cb vb (Nd lr a c v r))))"
proof -
  note rd = zst_aug_reads[OF z]
  from rotate_links_R_zst[OF z] obtain s1 where
    s1: "rotate_links (Ref a) (Ref b) (ptop fs) RIGHT s = Some s1"
    and z1: "zst_aug s1 fs (Nd ll b cb vb (Nd lr a c v r))" and e1: "same_sz s s1" by blast
  have z1': "zst_aug s1 (RF ll b cb vb # fs) (Nd lr a c v r)" using z1 by (simp add: zst_aug_up)
  from recalc_size_dp[OF z1'] obtain s2 where
    s2: "recalc_size (Ref a) s1 = Some s2" and z2: "zst_aug s2 (RF ll b cb vb # fs) (Nd lr a c v r)"
    and f2: "\<forall>x. x \<noteq> a \<longrightarrow> store s2 x = store s1 x"
    and d2: "\<forall>m. dp s1 m lr \<longrightarrow> dp s1 m r \<longrightarrow> dp s2 m (Nd lr a c v r)" by blast
  have z2': "zst_aug s2 fs (Nd ll b cb vb (Nd lr a c v r))" using z2 by (simp add: zst_aug_up)
  from upward_zst[OF z2'] obtain s3 s' where
    s3: "recalc_size (Ref b) s2 = Some s3" and u: "update_size_upwards (ptop fs) s3 = Some s'"
    and z': "zst_aug s' fs (Nd ll b cb vb (Nd lr a c v r))"
    and d3: "\<forall>m. dp s2 m (ll) \<longrightarrow> dp s2 m (Nd lr a c v r) \<longrightarrow> (\<forall>f \<in> set fs. dp s2 m (fsib f))
            \<longrightarrow> dp s' m (plug fs (Nd ll b cb vb (Nd lr a c v r)))" by blast
  have dist: "distinct (addrs (Nd (Nd ll b cb vb lr) a c v r) @ caddrs fs)" using zst_aug_distinct[OF z] .
  have "dp s' m (plug fs (Nd ll b cb vb (Nd lr a c v r)))" if p: "dp s m (plug fs (Nd (Nd ll b cb vb lr) a c v r))" for m
  proof -
    from dp_plug_parts[OF p] have a1: "dp s m ll" and a2: "dp s m lr" and a3: "dp s m r"
      and a4: "\<forall>f \<in> set fs. dp s m (fsib f)" by auto
    have b1: "dp s1 m ll" "dp s1 m lr" "dp s1 m r" "\<forall>f \<in> set fs. dp s1 m (fsib f)"
      using a1 a2 a3 a4 dp_same[OF e1] by auto
    have i: "dp s2 m (Nd lr a c v r)" using d2 b1 by blast
    have o: "dp s2 m ll"
    proof -
      have "dp s2 m ll = dp s1 m ll" by (rule dp_store_frame) (use f2 dist in auto)
      then show ?thesis using b1 by simp
    qed
    have sb: "\<forall>f \<in> set fs. dp s2 m (fsib f)"
    proof
      fix f assume f: "f \<in> set fs"
      have "dp s2 m (fsib f) = dp s1 m (fsib f)"
      proof (rule dp_store_frame, rule ballI)
        fix x assume "x \<in> fst ` set (nodes (fsib f))"
        from sib_in_ctx[OF f this] have "x \<noteq> a" using dist by auto
        then show "store s2 x = store s1 x" using f2 by simp
      qed
      then show "dp s2 m (fsib f)" using b1(4) f by simp
    qed
    show ?thesis using d3 i o sb by blast
  qed
  then show ?thesis unfolding rotate_unfold using rd s1 s2 s3 u z' by (simp add: is_nil_def)
qed

section \<open>The augmented tree: insertion\<close>

lemma zst_aug_neq_sib:
  assumes "zst_aug s (f # fs) (Nd l n c v r)"
  shows "ptr_of (fsib f) \<noteq> Ref n" "Ref n \<noteq> ptr_of (fsib f)"
  using assms by (cases f; auto simp: zst_aug_def)+

lemma zst_aug_neq_uncle:
  assumes "zst_aug s (f # g # fs) t"
  shows "ptr_of (fsib g) \<noteq> Ref (faddr f)" "Ref (faddr f) \<noteq> ptr_of (fsib g)"
  using assms by (cases f; cases g; auto simp: zst_aug_def)+

lemma child_red_aug:
  "rel_aug s par u \<Longrightarrow>
   (if ptr_of u \<noteq> Nil then map_option (\<lambda>c. c = RED) (color_aug (ptr_of u) s) else Some False)
     = Some (col u = RED)"
  by (cases u) (auto simp: acc_aug)

lemma ins_reads_aug:
  assumes "zst_aug s (f # g # fs) (Nd l n c v r)"
  shows "parent_aug (Ref n) s = Some (Ref (faddr f))"
    "color_aug (Ref (faddr f)) s = Some (fcol f)"
    "grandparent_aug (Ref n) s = Some (Ref (faddr g))"
    "uncle_aug (Ref n) s = Some (ptr_of (fsib g))"
    "(if ptr_of (fsib g) \<noteq> Nil then map_option (\<lambda>c. c = RED) (color_aug (ptr_of (fsib g)) s) else Some False)
       = Some (col (fsib g) = RED)"
proof -
  show p: "parent_aug (Ref n) s = Some (Ref (faddr f))" using zst_aug_reads(1)[OF assms] by simp
  have zf: "zst_aug s (g # fs) (plug1 f (Nd l n c v r))" using assms by (simp add: zst_aug_up)
  then show c: "color_aug (Ref (faddr f)) s = Some (fcol f)"
    by (cases f) (auto dest: zst_aug_reads(2))
  have pf: "parent_aug (Ref (faddr f)) s = Some (Ref (faddr g))"
    using zf by (cases f) (auto dest: zst_aug_reads(1))
  show gp: "grandparent_aug (Ref n) s = Some (Ref (faddr g))"
    using p pf by (simp add: grandparent_aug_def)
  have zg: "zst_aug s fs (plug1 g (plug1 f (Nd l n c v r)))" using zf by (simp add: zst_aug_up)
  have lg: "left_child_aug (Ref (faddr g)) s
      = Some (case g of LF a c v r \<Rightarrow> Ref (faddr f) | RF l a c v \<Rightarrow> ptr_of l)"
    "right_child_aug (Ref (faddr g)) s
      = Some (case g of LF a c v r \<Rightarrow> ptr_of r | RF l a c v \<Rightarrow> Ref (faddr f))"
    using zg by (cases g; auto dest: zst_aug_reads(3,4))+
  show "uncle_aug (Ref n) s = Some (ptr_of (fsib g))"
    using p gp lg zst_aug_neq_uncle[OF assms]
    by (cases g) (auto simp: uncle_aug_def)
  have "rel_aug s (Ref (faddr g)) (fsib g)"
    using assms by (cases g; cases f) (auto simp: zst_aug_def)
  then show "(if ptr_of (fsib g) \<noteq> Nil then map_option (\<lambda>c. c = RED) (color_aug (ptr_of (fsib g)) s) else Some False)
       = Some (col (fsib g) = RED)"
    by (rule child_red_aug)
qed

lemma finalize_insert_rebalance_L:
  assumes z: "zst_aug s (LF p pc pv pr # LF g gc gv u # fs) (Nd l n c v r)"
  shows "\<exists>s'. finalize_insert_rebalance (Ref n) s = Some s'
     \<and> zst_aug s' fs (Nd (Nd l n c v r) p BLACK pv (Nd pr g RED gv u))
     \<and> (\<forall>m. dp s m (plug (LF p pc pv pr # LF g gc gv u # fs) (Nd l n c v r))
            \<longrightarrow> dp s' m (plug fs (Nd (Nd l n c v r) p BLACK pv (Nd pr g RED gv u))))"
proof -
  let ?t = "Nd l n c v r"
  note rd = ins_reads_aug[OF z]
  have z1: "zst_aug s (LF g gc gv u # fs) (Nd ?t p pc pv pr)" using z by (simp add: zst_aug_up)
  from set_color_aug_zst[OF z1, of BLACK] obtain s1 where s1: "set_color_aug (Ref p) BLACK s = Some s1"
    and z2: "zst_aug s1 (LF g gc gv u # fs) (Nd ?t p BLACK pv pr)" and e1: "same_sz s s1" by blast
  have z3: "zst_aug s1 fs (Nd (Nd ?t p BLACK pv pr) g gc gv u)" using z2 by (simp add: zst_aug_up)
  from set_color_aug_zst[OF z3, of RED] obtain s2 where s2: "set_color_aug (Ref g) RED s1 = Some s2"
    and z4: "zst_aug s2 fs (Nd (Nd ?t p BLACK pv pr) g RED gv u)" and e2: "same_sz s1 s2" by blast
  have z5: "zst_aug s2 (LF g RED gv u # fs) (Nd ?t p BLACK pv pr)" using z4 by (simp add: zst_aug_up)
  note r5 = zst_aug_reads(3)[OF z5] zst_aug_reads(3)[OF z4]
  from rotate_R_zst[OF z4] obtain s3 where s3: "rotate (Ref g) RIGHT s2 = Some s3"
    and z6: "zst_aug s3 fs (Nd ?t p BLACK pv (Nd pr g RED gv u))"
    and d3: "\<forall>m. dp s2 m (plug fs (Nd (Nd ?t p BLACK pv pr) g RED gv u))
            \<longrightarrow> dp s3 m (plug fs (Nd ?t p BLACK pv (Nd pr g RED gv u)))" by blast
  have "dp s3 m (plug fs (Nd ?t p BLACK pv (Nd pr g RED gv u)))"
    if "dp s m (plug (LF p pc pv pr # LF g gc gv u # fs) ?t)" for m
  proof -
    have "sk (plug fs (Nd (Nd ?t p BLACK pv pr) g RED gv u))
        = sk (plug (LF p pc pv pr # LF g gc gv u # fs) ?t)"
      by (simp, rule sk_plug_cong) simp
    from dp_sk_eq[OF this] have "dp s2 m (plug fs (Nd (Nd ?t p BLACK pv pr) g RED gv u))"
      using that dp_same[OF same_sz_trans[OF e1 e2]] by simp
    with d3 show ?thesis by blast
  qed
  then show ?thesis using rd s1 s2 r5 s3 z6
    by (simp add: finalize_insert_rebalance_def rotate_right_aug_def)
qed

lemma finalize_insert_rebalance_R:
  assumes z: "zst_aug s (RF pl p pc pv # RF u g gc gv # fs) (Nd l n c v r)"
  shows "\<exists>s'. finalize_insert_rebalance (Ref n) s = Some s'
     \<and> zst_aug s' fs (Nd (Nd u g RED gv pl) p BLACK pv (Nd l n c v r))
     \<and> (\<forall>m. dp s m (plug (RF pl p pc pv # RF u g gc gv # fs) (Nd l n c v r))
            \<longrightarrow> dp s' m (plug fs (Nd (Nd u g RED gv pl) p BLACK pv (Nd l n c v r))))"
proof -
  let ?t = "Nd l n c v r"
  note rd = ins_reads_aug[OF z]
  have z1: "zst_aug s (RF u g gc gv # fs) (Nd pl p pc pv ?t)" using z by (simp add: zst_aug_up)
  from set_color_aug_zst[OF z1, of BLACK] obtain s1 where s1: "set_color_aug (Ref p) BLACK s = Some s1"
    and z2: "zst_aug s1 (RF u g gc gv # fs) (Nd pl p BLACK pv ?t)" and e1: "same_sz s s1" by blast
  have z3: "zst_aug s1 fs (Nd u g gc gv (Nd pl p BLACK pv ?t))" using z2 by (simp add: zst_aug_up)
  from set_color_aug_zst[OF z3, of RED] obtain s2 where s2: "set_color_aug (Ref g) RED s1 = Some s2"
    and z4: "zst_aug s2 fs (Nd u g RED gv (Nd pl p BLACK pv ?t))" and e2: "same_sz s1 s2" by blast
  have z5: "zst_aug s2 (RF u g RED gv # fs) (Nd pl p BLACK pv ?t)" using z4 by (simp add: zst_aug_up)
  have z5': "zst_aug s2 (RF pl p BLACK pv # RF u g RED gv # fs) ?t" using z5 by (simp add: zst_aug_up)
  note r5 = zst_aug_reads(3,4)[OF z5] zst_aug_reads(3,4)[OF z4] zst_aug_neq_sib[OF z5']
    zst_aug_neq_uncle[OF z5']
  from rotate_L_zst[OF z4] obtain s3 where s3: "rotate (Ref g) LEFT s2 = Some s3"
    and z6: "zst_aug s3 fs (Nd (Nd u g RED gv pl) p BLACK pv ?t)"
    and d3: "\<forall>m. dp s2 m (plug fs (Nd u g RED gv (Nd pl p BLACK pv ?t)))
            \<longrightarrow> dp s3 m (plug fs (Nd (Nd u g RED gv pl) p BLACK pv ?t))" by blast
  have "dp s3 m (plug fs (Nd (Nd u g RED gv pl) p BLACK pv ?t))"
    if "dp s m (plug (RF pl p pc pv # RF u g gc gv # fs) ?t)" for m
  proof -
    have "sk (plug fs (Nd u g RED gv (Nd pl p BLACK pv ?t)))
        = sk (plug (RF pl p pc pv # RF u g gc gv # fs) ?t)"
      by (simp, rule sk_plug_cong) simp
    from dp_sk_eq[OF this] have "dp s2 m (plug fs (Nd u g RED gv (Nd pl p BLACK pv ?t)))"
      using that dp_same[OF same_sz_trans[OF e1 e2]] by simp
    with d3 show ?thesis by blast
  qed
  then show ?thesis using rd s1 s2 r5 s3 z6
    by (simp add: finalize_insert_rebalance_def rotate_left_aug_def)
qed

text \<open>The shape \<open>fix_insert_root\<close> has in the source, with the two functions it calls.\<close>

lemma fix_insert_root_unfold:
  "fix_insert_root node t = do {
     p \<leftarrow> parent_aug node t;
     if p = Nil then do {
       t \<leftarrow> set_color_aug node BLACK t;
       Some (t\<lparr>root_aug := node\<rparr>) }
     else fix_insert_black_parent node t }"
  unfolding fix_insert_black_parent_def fix_insert_red_uncle_def by (rule fix_insert_root.simps)


lemma fix_insert_inner_child_zst:
  assumes z: "zst_aug s (f # g # fs) (Nd l n c v r)"
  shows "\<exists>s'. fix_insert_inner_child (Ref n) s = Some s' \<and> zst_aug s' fs (ins_rot f g (Nd l n c v r))
     \<and> (\<forall>m. dp s m (plug (f # g # fs) (Nd l n c v r)) \<longrightarrow> dp s' m (plug fs (ins_rot f g (Nd l n c v r))))"
proof -
  let ?t = "Nd l n c v r"
  note rd = ins_reads_aug[OF z]
  note ne = zst_aug_neq_sib[OF z] zst_aug_neq_uncle[OF z]
  have zp: "zst_aug s (g # fs) (plug1 f ?t)" using z by (simp add: zst_aug_up)
  have zg: "zst_aug s fs (plug1 g (plug1 f ?t))" using zp by (simp add: zst_aug_up)
  show ?thesis
  proof (cases f)
    case f: (LF p pc pv pr)
    show ?thesis
    proof (cases g)
      case g: (LF ga gc gv u)
      note rp = zst_aug_reads(3,4)[OF zp[unfolded f plug1.simps]]
        zst_aug_reads(3,4)[OF zg[unfolded f g plug1.simps]]
      from finalize_insert_rebalance_L[OF z[unfolded f g]] show ?thesis
        using rd ne rp unfolding f g by (simp add: fix_insert_inner_child_def)
    next
      case g: (RF u ga gc gv)
      note rp = zst_aug_reads(3,4)[OF zp[unfolded f plug1.simps]]
        zst_aug_reads(3,4)[OF zg[unfolded f g plug1.simps]]
      from rotate_R_zst[OF zp[unfolded f g plug1.simps]] obtain s1 where
        s1: "rotate (Ref p) RIGHT s = Some s1"
        and z1: "zst_aug s1 (RF u ga gc gv # fs) (Nd l n c v (Nd r p pc pv pr))"
        and d1: "\<forall>m. dp s m (plug (RF u ga gc gv # fs) (Nd (Nd l n c v r) p pc pv pr))
            \<longrightarrow> dp s1 m (plug (RF u ga gc gv # fs) (Nd l n c v (Nd r p pc pv pr)))" by blast
      have z2: "zst_aug s1 (RF l n c v # RF u ga gc gv # fs) (Nd r p pc pv pr)"
        using z1 by (simp add: zst_aug_up)
      from finalize_insert_rebalance_R[OF z2] obtain s2 where
        s2: "finalize_insert_rebalance (Ref p) s1 = Some s2"
        and z3: "zst_aug s2 fs (Nd (Nd u ga RED gv l) n BLACK v (Nd r p pc pv pr))"
        and d2: "\<forall>m. dp s1 m (plug (RF l n c v # RF u ga gc gv # fs) (Nd r p pc pv pr))
            \<longrightarrow> dp s2 m (plug fs (Nd (Nd u ga RED gv l) n BLACK v (Nd r p pc pv pr)))" by blast
      have d: "\<forall>m. dp s m (plug (f # g # fs) ?t) \<longrightarrow> dp s2 m (plug fs (ins_rot f g ?t))"
        using d1 d2 unfolding f g by simp
      show ?thesis
        using rd ne rp s1 zst_aug_reads(4)[OF z1] s2 z3 d unfolding f g
        by (simp add: fix_insert_inner_child_def rotate_right_aug_def)
    qed
  next
    case f: (RF pl p pc pv)
    show ?thesis
    proof (cases g)
      case g: (LF ga gc gv u)
      note rp = zst_aug_reads(3,4)[OF zp[unfolded f plug1.simps]]
        zst_aug_reads(3,4)[OF zg[unfolded f g plug1.simps]]
      from rotate_L_zst[OF zp[unfolded f g plug1.simps]] obtain s1 where
        s1: "rotate (Ref p) LEFT s = Some s1"
        and z1: "zst_aug s1 (LF ga gc gv u # fs) (Nd (Nd pl p pc pv l) n c v r)"
        and d1: "\<forall>m. dp s m (plug (LF ga gc gv u # fs) (Nd pl p pc pv (Nd l n c v r)))
            \<longrightarrow> dp s1 m (plug (LF ga gc gv u # fs) (Nd (Nd pl p pc pv l) n c v r))" by blast
      have z2: "zst_aug s1 (LF n c v r # LF ga gc gv u # fs) (Nd pl p pc pv l)"
        using z1 by (simp add: zst_aug_up)
      from finalize_insert_rebalance_L[OF z2] obtain s2 where
        s2: "finalize_insert_rebalance (Ref p) s1 = Some s2"
        and z3: "zst_aug s2 fs (Nd (Nd pl p pc pv l) n BLACK v (Nd r ga RED gv u))"
        and d2: "\<forall>m. dp s1 m (plug (LF n c v r # LF ga gc gv u # fs) (Nd pl p pc pv l))
            \<longrightarrow> dp s2 m (plug fs (Nd (Nd pl p pc pv l) n BLACK v (Nd r ga RED gv u)))" by blast
      have d: "\<forall>m. dp s m (plug (f # g # fs) ?t) \<longrightarrow> dp s2 m (plug fs (ins_rot f g ?t))"
        using d1 d2 unfolding f g by simp
      show ?thesis
        using rd ne rp s1 zst_aug_reads(3)[OF z1] s2 z3 d unfolding f g
        by (simp add: fix_insert_inner_child_def rotate_left_aug_def)
    next
      case g: (RF u ga gc gv)
      note rp = zst_aug_reads(3,4)[OF zp[unfolded f plug1.simps]]
        zst_aug_reads(3,4)[OF zg[unfolded f g plug1.simps]]
      from finalize_insert_rebalance_R[OF z[unfolded f g]] show ?thesis
        using rd ne rp unfolding f g by (simp add: fix_insert_inner_child_def)
    qed
  qed
qed

lemma fix_insert_root_zst:
  assumes "zst_aug s fs t" "t \<noteq> Lf" "fs \<noteq> [] \<Longrightarrow> fcol (last fs) = BLACK"
  shows "\<exists>s'. fix_insert_root (ptr_of t) s = Some s' \<and> abs_aug s' (ins_fix fs t)
     \<and> (\<forall>m. dp s m (plug fs t) \<longrightarrow> dp s' m (ins_fix fs t))"
  using assms
proof (induction fs t arbitrary: s rule: ins_fix.induct)
  case (1 t)
  then obtain l n c v r where t: "t = Nd l n c v r" by (cases t) auto
  have z: "zst_aug s [] (Nd l n c v r)" using 1 t by simp
  from set_color_aug_zst[OF z, of BLACK] obtain s1 where s1: "set_color_aug (Ref n) BLACK s = Some s1"
    and z1: "zst_aug s1 [] (Nd l n BLACK v r)" and e1: "same_sz s s1" by blast
  have a: "abs_aug (s1\<lparr>root_aug := Ref n\<rparr>) (Nd l n BLACK v r)"
    using z1 by (simp add: abs_aug_def zst_aug_def)
  have e2: "same_sz s (s1\<lparr>root_aug := Ref n\<rparr>)" using e1 by (simp add: same_sz_def acc_aug)
  have k: "sk (Nd l n BLACK v r) = sk (Nd l n c v r)" by simp
  have d: "\<forall>m. dp s m (Nd l n c v r) \<longrightarrow> dp (s1\<lparr>root_aug := Ref n\<rparr>) m (Nd l n BLACK v r)"
    using dp_same[OF e2] dp_sk_eq[OF k] by blast
  show ?case
    using zst_aug_reads(1)[OF z] s1 a d unfolding t
    by (subst fix_insert_root.simps) (simp del: dp.simps)
next
  case (2 f t)
  then obtain l n c v r where t: "t = Nd l n c v r" by (cases t) auto
  have z: "zst_aug s [f] (Nd l n c v r)" using 2 t by simp
  have fb: "fcol f = BLACK" using "2.prems"(3) by simp
  then have fe: "fsetcol BLACK f = f" by (cases f) auto
  have z1: "zst_aug s [] (plug1 f (Nd l n c v r))" using z by (simp add: zst_aug_up)
  have cp: "color_aug (Ref (faddr f)) s = Some (fcol f)"
    using z1 by (cases f) (auto dest: zst_aug_reads(2))
  show ?case
    using zst_aug_reads(1)[OF z] cp fb z1 unfolding t
    by (subst fix_insert_root.simps) (simp add: fe abs_aug_def)
next
  case (3 f g fs t)
  then obtain l n c v r where t: "t = Nd l n c v r" by (cases t) auto
  have z: "zst_aug s (f # g # fs) (Nd l n c v r)" using "3.prems" t by simp
  note rd = ins_reads_aug[OF z]
  show ?case
  proof (cases "fcol f = BLACK")
    case True
    have "abs_aug s (plug (f # g # fs) t)" using "3.prems"(1) by (simp only: abs_aug_plug)
    then show ?thesis using rd True unfolding t
      by (subst fix_insert_root.simps) simp
  next
    case False
    show ?thesis
    proof (cases "col (fsib g) = RED")
      case True
      then have un: "fsib g \<noteq> Lf" by (cases "fsib g") auto
      then have unp: "ptr_of (fsib g) \<noteq> Nil" by (cases "fsib g") auto
      from set_color_aug_frame[OF z, of BLACK] obtain s1 where
        s1: "set_color_aug (Ref (faddr f)) BLACK s = Some s1"
        and z1: "zst_aug s1 (fsetcol BLACK f # g # fs) (Nd l n c v r)"
        and e1: "same_sz s s1" by blast
      have z1': "zst_aug s1 (g # fs) (plug1 (fsetcol BLACK f) (Nd l n c v r))"
        using z1 by (simp add: zst_aug_up)
      from set_color_aug_sib[OF z1' un, of BLACK] obtain s2 where
        s2: "set_color_aug (ptr_of (fsib g)) BLACK s1 = Some s2"
        and z2: "zst_aug s2 (fpaintsib BLACK g # fs) (plug1 (fsetcol BLACK f) (Nd l n c v r))"
        and e2: "same_sz s1 s2" by blast
      have z2': "zst_aug s2 (fsetcol BLACK f # fpaintsib BLACK g # fs) (Nd l n c v r)"
        using z2 by (simp add: zst_aug_up)
      note rd2 = ins_reads_aug(3)[OF z2']
      from set_color_aug_frame[OF z2, of RED] obtain s3 where
        s3: "set_color_aug (Ref (faddr g)) RED s2 = Some s3"
        and z3: "zst_aug s3 (fsetcol RED (fpaintsib BLACK g) # fs) (plug1 (fsetcol BLACK f) (Nd l n c v r))"
        and e3: "same_sz s2 s3"
        by auto
      let ?t' = "paint RED (plug1 (fpaintsib BLACK g) (plug1 (fsetcol BLACK f) t))"
      have z3': "zst_aug s3 fs ?t'"
        using z3 unfolding t by (simp add: zst_aug_up paint_plug1)
      have pt: "ptr_of ?t' = Ref (faddr g)" by (simp add: paint_plug1)
      have lst: "fs \<noteq> [] \<Longrightarrow> fcol (last fs) = BLACK" using "3.prems"(3) by simp
      have tn: "?t' \<noteq> Lf" by (cases g) auto
      from "3.IH"[OF False True z3' tn lst] obtain s' where
        r: "fix_insert_root (Ref (faddr g)) s3 = Some s'" "abs_aug s' (ins_fix fs ?t')"
        and d: "\<forall>m. dp s3 m (plug fs ?t') \<longrightarrow> dp s' m (ins_fix fs ?t')"
        unfolding pt by blast
      have e: "same_sz s s3" using e1 e2 e3 same_sz_trans by blast
      have "sk ?t' = sk (plug1 g (plug1 f t))" by (cases g; cases f) simp_all
      then have "sk (plug fs ?t') = sk (plug (f # g # fs) t)"
        by (simp del: sk_paint sk_plug1_fpaintsib sk_plug1_fsetcol) (rule sk_plug_cong)
      from dp_sk_eq[OF this] have "\<forall>m. dp s m (plug (f # g # fs) t) \<longrightarrow> dp s3 m (plug fs ?t')"
        using dp_same[OF e] by simp
      with d have d': "\<forall>m. dp s m (plug (f # g # fs) t) \<longrightarrow> dp s' m (ins_fix (f # g # fs) t)"
        using False True by simp
      show ?thesis
        using rd False True unp s1 s2 rd2 s3 r d' unfolding t
        by (subst fix_insert_root.simps) (simp del: dp.simps)
    next
      case F2: False
      from fix_insert_inner_child_zst[OF z] obtain s' where
        "fix_insert_inner_child (Ref n) s = Some s'" "zst_aug s' fs (ins_rot f g (Nd l n c v r))"
        "\<forall>m. dp s m (plug (f # g # fs) (Nd l n c v r)) \<longrightarrow> dp s' m (plug fs (ins_rot f g (Nd l n c v r)))"
        by blast
      then show ?thesis
        using rd False F2 unfolding t
        by (subst fix_insert_root.simps) (simp add: abs_aug_plug)
    qed
  qed
qed

lemma locate_aug_loop_zst:
  "zst_aug s fs t \<Longrightarrow>
   locate_aug_loop v (ptr_of t) (ptop fs) (goleft fs) s = Some (locate_result (alocate v fs t))"
proof (induction t arbitrary: fs)
  case Lf
  show ?case by (subst locate_aug_loop.simps) (simp add: locate_result_def)
next
  case (Nd l a c x r)
  note h = zst_aug_reads[OF Nd.prems]
  have zl: "zst_aug s (LF a c x r # fs) l" and zr: "zst_aug s (RF l a c x # fs) r"
    using Nd.prems by (simp_all add: zst_aug_up)
  show ?case
    using Nd.IH(1)[OF zl] Nd.IH(2)[OF zr]
    by (subst locate_aug_loop.simps) (simp add: h locate_result_def)
qed

lemma locate_aug_abs:
  "abs_aug s t \<Longrightarrow> locate_aug v s = Some (locate_result (alocate v [] t))"
  using locate_aug_loop_zst[of s "[]" t v]
  by (simp add: locate_aug_def abs_aug_def zst_aug_def)

lemma rel_aug_alloc: "rel_aug s par t \<Longrightarrow> x \<in> fst ` set (nodes t) \<Longrightarrow> store s x \<noteq> None"
  by (induction t arbitrary: par) (fastforce simp: image_iff)+

lemma crel_aug_alloc:
  "crel_aug s fs p \<Longrightarrow> x \<in> fst ` set (nbefore fs @ nafter fs) \<Longrightarrow> store s x \<noteq> None"
  by (induction fs arbitrary: p rule: nbefore.induct) (auto dest: rel_aug_alloc)

lemma zst_aug_alloc:
  assumes "zst_aug s fs t" "store s a = None"
  shows "a \<notin> fst ` set (nodes t)" "a \<notin> fst ` set (nbefore fs)" "a \<notin> fst ` set (nafter fs)"
  using assms rel_aug_alloc[of s "ptop fs" t a] crel_aug_alloc[of s fs "ptr_of t" a]
  by (auto simp: zst_aug_def)

lemma abs_aug_alloc: "abs_aug s t \<Longrightarrow> store s a = None \<Longrightarrow> a \<notin> fst ` set (nodes t)"
  using zst_aug_alloc(1)[of s "[]" t a] by (simp add: abs_aug_def)

lemma make_node_leaf:
  "make_node a v c Nil Nil p s =
     Some (s\<lparr>store := (store s)(a \<mapsto>
          \<lparr>n_base = \<lparr>n_color = c, n_left = Nil, n_right = Nil, n_parent = p, n_subtree_size = 1\<rparr>,
           n_value = v\<rparr>)\<rparr>)"
  by (simp add: make_node_def recalc_size_def acc_aug modify_aug_def)

lemma rel_aug_new:
  "a \<notin> fst ` set (nodes t) \<Longrightarrow> rel_aug (s\<lparr>store := (store s)(a \<mapsto> n)\<rparr>) par t = rel_aug s par t"
  by (rule rel_aug_frame) auto

lemma crel_aug_new:
  "a \<notin> fst ` set (nbefore fs) \<Longrightarrow> a \<notin> fst ` set (nafter fs) \<Longrightarrow>
   crel_aug (s\<lparr>store := (store s)(a \<mapsto> n)\<rparr>) fs q = crel_aug s fs q"
  by (rule crel_aug_frame) auto

lemma link_new_aug_zst:
  assumes "zst_aug s fs Lf" "store s a = None"
  shows "\<exists>s1 s'. make_node a v RED Nil Nil (ptop fs) s = Some s1
          \<and> (if ptop fs = Nil then Some (s1\<lparr>root_aug := Ref a\<rparr>)
             else if goleft fs then set_left_child_aug (ptop fs) (Ref a) s1
             else set_right_child_aug (ptop fs) (Ref a) s1) = Some s'
          \<and> zst_aug s' fs (Nd Lf a RED v Lf)
          \<and> (\<forall>b. b \<noteq> a \<longrightarrow> subtree_size_aug (Ref b) s' = subtree_size_aug (Ref b) s)"
  using assms zst_aug_alloc[OF assms]
  apply (cases fs rule: nbefore.cases)
  apply (clarsimp simp: zst_aug_def ptr_of_plug make_node_leaf image_Un,
         simp add: acc_aug rel_aug_upd_other crel_aug_upd_other rel_aug_new crel_aug_new)+
  done

lemma szs_plug_dp:
  assumes "szs s (plug fs t)" "a \<notin> fst ` set (nodes (plug fs t))"
  shows "\<forall>f \<in> set fs. dp s a (fsib f)"
proof -
  have "dp s a (plug fs t)" using assms by (simp add: dp_szs)
  from dp_plug_parts[OF this] show ?thesis by simp
qed

lemma link_new_aug_dp:
  assumes sz: "szs s (plug fs Lf)" and a: "a \<notin> fst ` set (nodes (plug fs Lf))"
    and fr: "\<forall>b. b \<noteq> a \<longrightarrow> subtree_size_aug (Ref b) s' = subtree_size_aug (Ref b) s"
  shows "dp s' a (plug fs (Nd Lf a RED v Lf))"
proof -
  have sb: "\<forall>f \<in> set fs. dp s a (fsib f)" using szs_plug_dp[OF sz a] .
  have "dp s' a (fsib f)" if f: "f \<in> set fs" for f
  proof -
    have "dp s' a (fsib f) = dp s a (fsib f)"
    proof (rule dp_frame, rule ballI)
      fix x assume x: "x \<in> fst ` set (nodes (fsib f))"
      from sib_in_ctx[OF f x] have "x \<in> fst ` set (nodes (plug fs Lf))"
        by (simp add: nodes_plug)
      then have "x \<noteq> a" using a by auto
      then show "subtree_size_aug (Ref x) s' = subtree_size_aug (Ref x) s" using fr by simp
    qed
    then show ?thesis using sb f by simp
  qed
  then show ?thesis by (subst dp_plug_inside) simp_all
qed

lemma upward_szs:
  assumes z: "abs_aug s t" and a: "a \<in> fst ` set (nodes t)" and d: "dp s a t"
    and n: "0 \<notin> fst ` set (nodes t)"
  shows "\<exists>s'. update_size_upwards (Ref a) s = Some s' \<and> abs_aug s' t \<and> szs s' t"
proof -
  from a obtain w where "(a, w) \<in> set (nodes t)" by auto
  then obtain xs ys where "nodes t = xs @ (a, w) # ys" by (auto simp: in_set_conv_decomp)
  from zipper_of_split[OF this] obtain fs l c r where t: "plug fs (Nd l a c w r) = t" by blast
  have zz: "zst_aug s fs (Nd l a c w r)" using z t by (simp flip: abs_aug_plug)
  from upward_zst[OF zz] obtain s1 s' where
    s1: "recalc_size (Ref a) s = Some s1" and u: "update_size_upwards (ptop fs) s1 = Some s'"
    and z': "zst_aug s' fs (Nd l a c w r)"
    and dd: "\<forall>m. dp s m l \<longrightarrow> dp s m r \<longrightarrow> (\<forall>f \<in> set fs. dp s m (fsib f))
            \<longrightarrow> dp s' m (plug fs (Nd l a c w r))" by blast
  from recalc_size_dp[OF zz] s1 have z1: "zst_aug s1 fs (Nd l a c w r)" by auto
  have par: "parent_aug (Ref a) s1 = Some (ptop fs)" using zst_aug_reads(1)[OF z1] .
  have up: "update_size_upwards (Ref a) s = Some s'"
    using s1 par u by (subst update_size_upwards.simps) (simp add: is_nil_def)
  have dist: "distinct (addrs (Nd l a c w r) @ caddrs fs)" using zst_aug_distinct[OF zz] .
  have n0: "0 \<notin> fst ` set (nodes (Nd l a c w r))" "0 \<notin> fst ` set (nbefore fs @ nafter fs)"
    using n t[symmetric] by (auto simp: nodes_plug)
  from d t have "dp s a (plug fs (Nd l a c w r))" by simp
  from dp_plug_parts[OF this] have p1: "dp s a l" "dp s a r" and p2: "\<forall>f \<in> set fs. dp s a (fsib f)"
    by auto
  have al: "a \<notin> fst ` set (nodes l)" "a \<notin> fst ` set (nodes r)" using dist by auto
  have nl: "0 \<notin> fst ` set (nodes l)" "0 \<notin> fst ` set (nodes r)" using n0 by auto
  have q1: "dp s 0 l" "dp s 0 r" using p1 al nl by (simp_all add: dp_szs)
  have q2: "\<forall>f \<in> set fs. dp s 0 (fsib f)"
  proof
    fix f assume f: "f \<in> set fs"
    have "a \<notin> fst ` set (nodes (fsib f))" using sib_in_ctx[OF f, of a] dist by auto
    moreover have "0 \<notin> fst ` set (nodes (fsib f))" using sib_in_ctx[OF f, of 0] n0 by auto
    ultimately show "dp s 0 (fsib f)" using p2 f by (auto simp: dp_szs)
  qed
  from dd q1 q2 have "dp s' 0 (plug fs (Nd l a c w r))" by blast
  then have "szs s' t" using n t by (simp add: dp_szs)
  then show ?thesis using up z' t by (auto simp flip: abs_aug_plug)
qed

lemma insert_aug_abs:
  assumes inv: "aug_inv s t" and fr: "store s a = None" and a0: "a \<noteq> 0"
  shows "\<exists>s'. insert_aug v a s = Some (v \<notin> set (vals t), s') \<and> aug_inv s' (ains v a t)"
proof (cases "alocate v [] t")
  case (Pair fs t')
  from inv have ab: "abs_aug s t" and rb: "rbt t" and bs: "bst t" and sz: "szs s t"
    and n0: "0 \<notin> fst ` set (nodes t)" by (simp_all add: aug_inv_def)
  note loc = locate_aug_abs[OF ab, of v, unfolded Pair]
  note ex = alocate_exists[OF bs, of v, unfolded Pair]
  show ?thesis
  proof (cases "t' = Lf")
    case False
    then show ?thesis using loc inv Pair ex
      by (simp add: insert_aug_def locate_result_def ains_def)
  next
    case True
    have nv: "v \<notin> set (vals t)" using ex True by simp
    have pl: "plug fs Lf = t" using alocate_plug[OF Pair] True by simp
    have z: "zst_aug s fs Lf" using ab pl by (simp flip: abs_aug_plug)
    have an: "a \<notin> fst ` set (nodes (plug fs Lf))" using abs_aug_alloc[OF ab fr] pl by simp
    from link_new_aug_zst[OF z fr, of v] obtain s1 s2 where
      s1: "make_node a v RED Nil Nil (ptop fs) s = Some s1"
      and s2: "(if ptop fs = Nil then Some (s1\<lparr>root_aug := Ref a\<rparr>)
             else if goleft fs then set_left_child_aug (ptop fs) (Ref a) s1
             else set_right_child_aug (ptop fs) (Ref a) s1) = Some s2"
      and z2: "zst_aug s2 fs (Nd Lf a RED v Lf)"
      and f2: "\<forall>b. b \<noteq> a \<longrightarrow> subtree_size_aug (Ref b) s2 = subtree_size_aug (Ref b) s" by blast
    have d2: "dp s2 a (plug fs (Nd Lf a RED v Lf))"
      using link_new_aug_dp[OF _ an f2] sz pl by simp
    have lst: "fs \<noteq> [] \<Longrightarrow> fcol (last fs) = BLACK"
      using rb col_plug_last[of fs Lf] pl by (simp add: rbt_def)
    from fix_insert_root_zst[OF z2 _ lst] obtain s3 where
      s3: "fix_insert_root (Ref a) s2 = Some s3" and a3: "abs_aug s3 (ins_fix fs (Nd Lf a RED v Lf))"
      and d3: "\<forall>m. dp s2 m (plug fs (Nd Lf a RED v Lf)) \<longrightarrow> dp s3 m (ins_fix fs (Nd Lf a RED v Lf))"
      by auto
    have ai: "ains v a t = ins_fix fs (Nd Lf a RED v Lf)" using Pair True by (simp add: ains_def)
    have ad: "fst ` set (nodes (ains v a t)) = insert a (fst ` set (nodes t))"
      using ains_addrs[OF bs, of v a] nv by simp
    have a3': "abs_aug s3 (ains v a t)" and d3': "dp s3 a (ains v a t)"
      using a3 d3 d2 ai by simp_all
    have "0 \<notin> fst ` set (nodes (ains v a t))" using ad n0 a0 by simp
    from upward_szs[OF a3' _ d3' this] ad obtain s4 where
      s4: "update_size_upwards (Ref a) s3 = Some s4" and a4: "abs_aug s4 (ains v a t)"
      and z4: "szs s4 (ains v a t)" by auto
    have "aug_inv s4 (ains v a t)"
      using a4 z4 ains_rbt[OF rb] ains_bst[OF bs] ad n0 a0 by (simp add: aug_inv_def)
    then show ?thesis using loc True s1 s2 s3 s4 nv
      by (auto simp: insert_aug_def locate_result_def Let_def split: if_splits)
  qed
qed

section \<open>The augmented tree: the fix-up of erasure\<close>

lemma erase_fixup_direction_unfold:
  "erase_fixup_direction node par dir t =
     (if par = Nil then Some (root_aug t, par, t)
      else do {
        sibling \<leftarrow> (if dir = LEFT then right_child_aug par t else left_child_aug par t);
        (sibling, t) \<leftarrow> ensure_black_sibling par sibling dir t;
        erase_fixup_direction_tail node par sibling dir t })"
  unfolding erase_fixup_direction_def erase_fixup_direction_tail_def ..

lemma dp_recolor: "same_sz s s' \<Longrightarrow> sk t = sk t' \<Longrightarrow> dp s m t \<Longrightarrow> dp s' m t'"
  using dp_same[of s s' m t'] dp_sk_eq[of t t' s m] by simp

lemma zst_aug_top: "zst_aug s fs t \<Longrightarrow> zst_aug s [] (plug fs t)"
  using abs_aug_plug[of s fs t] by (simp add: abs_aug_def)

lemma zst_aug_root: "zst_aug s fs t \<Longrightarrow> root_aug s = ptr_of (plug fs t)"
  by (simp add: zst_aug_def)

lemma is_black_zst: "zst_aug s fs t \<Longrightarrow> is_black (ptr_of t) s = Some (col t = BLACK)"
  using color_of_aug_zst[of s fs t] by (simp add: is_black_def)

lemma is_red_zst: "zst_aug s fs t \<Longrightarrow> is_red (ptr_of t) s = Some (col t = RED)"
  using color_of_aug_zst[of s fs t] by (simp add: is_red_def)

lemma paint_aug_Ref: "paint_aug (Ref a) k s = set_color_aug (Ref a) k s"
  by (simp add: paint_aug_def is_nil_def)

lemma apply_outer_rotation_L:
  assumes z: "zst_aug s (LF p pc pv (Nd wl w wc wv wr) # fs) x"
  shows "\<exists>s'. apply_outer_rotation node (Ref p) (Ref w) (ptr_of wr) LEFT s
        = Some (ptr_of (plug fs (Nd (Nd x p BLACK pv wl) w pc wv (paint BLACK wr))), Nil, s')
     \<and> zst_aug s' [] (plug fs (Nd (Nd x p BLACK pv wl) w pc wv (paint BLACK wr)))
     \<and> (\<forall>m. dp s m (plug (LF p pc pv (Nd wl w wc wv wr) # fs) x)
            \<longrightarrow> dp s' m (plug fs (Nd (Nd x p BLACK pv wl) w pc wv (paint BLACK wr))))"
proof -
  let ?T = "plug fs (Nd (Nd x p BLACK pv wl) w pc wv (paint BLACK wr))"
  have c0: "color_aug (Ref p) s = Some pc" using frame_reads_aug(1)[OF z] by simp
  from set_color_aug_sib[OF z, of pc] obtain s1 where s1: "paint_aug (Ref w) pc s = Some s1"
    and z1: "zst_aug s1 (LF p pc pv (Nd wl w pc wv wr) # fs) x" and e1: "same_sz s s1"
    by (auto simp: paint_aug_Ref)
  from set_color_aug_frame[OF z1, of BLACK] obtain s2 where s2: "paint_aug (Ref p) BLACK s1 = Some s2"
    and z2: "zst_aug s2 (LF p BLACK pv (Nd wl w pc wv wr) # fs) x" and e2: "same_sz s1 s2"
    by (auto simp: paint_aug_Ref)
  have z2': "zst_aug s2 (RF wl w pc wv # RF x p BLACK pv # fs) wr" using z2 by (simp add: zst_aug_up)
  from paint_aug_zst[OF z2', of BLACK] obtain s3 where
    s3: "paint_aug (ptr_of wr) BLACK s2 = Some s3"
    and z3: "zst_aug s3 (RF wl w pc wv # RF x p BLACK pv # fs) (paint BLACK wr)"
    and e3: "same_sz s2 s3" by blast
  have z3'': "zst_aug s3 fs (Nd x p BLACK pv (Nd wl w pc wv (paint BLACK wr)))"
    using z3 by (simp add: zst_aug_up)
  from rotate_L_zst[OF z3''] obtain s4 where s4: "rotate (Ref p) LEFT s3 = Some s4"
    and z4: "zst_aug s4 fs (Nd (Nd x p BLACK pv wl) w pc wv (paint BLACK wr))"
    and d4: "\<forall>m. dp s3 m (plug fs (Nd x p BLACK pv (Nd wl w pc wv (paint BLACK wr)))) \<longrightarrow> dp s4 m ?T"
    by blast
  note z4' = zst_aug_top[OF z4] and r4 = zst_aug_root[OF z4]
  have e: "same_sz s s3" using e1 e2 e3 same_sz_trans by blast
  have k: "sk (plug (LF p pc pv (Nd wl w wc wv wr) # fs) x)
      = sk (plug fs (Nd x p BLACK pv (Nd wl w pc wv (paint BLACK wr))))"
    by (simp, rule sk_plug_cong) simp
  have d: "\<forall>m. dp s m (plug (LF p pc pv (Nd wl w wc wv wr) # fs) x) \<longrightarrow> dp s4 m ?T"
    using dp_recolor[OF e k] d4 by blast
  show ?thesis using c0 s1 s2 s3 s4 z4' r4 d
    by (simp add: apply_outer_rotation_def del: dp.simps)
qed

lemma erase_fixup_direction_tail_L:
  assumes z: "zst_aug s (LF p pc pv w # fs) x"
  shows "\<exists>s'. erase_fixup_direction_tail node (Ref p) (ptr_of w) LEFT s
        = Some (ptr_of (snd (del_left p pc pv w fs x)), ptop (fst (del_left p pc pv w fs x)), s')
     \<and> zst_aug s' (fst (del_left p pc pv w fs x)) (snd (del_left p pc pv w fs x))
     \<and> (\<forall>m. dp s m (plug (LF p pc pv w # fs) x)
            \<longrightarrow> dp s' m (plug (fst (del_left p pc pv w fs x)) (snd (del_left p pc pv w fs x))))"
proof (cases w)
  case Lf
  have pp: "parent_aug (Ref p) s = Some (ptop fs)" using frame_reads_aug(2)[OF z] by simp
  have "zst_aug s fs (Nd x p pc pv Lf)" using z Lf by (simp add: zst_aug_up)
  then show ?thesis using Lf pp
    by (simp add: erase_fixup_direction_tail_def fetch_sibling_children_def is_black_def
          color_of_aug_def is_nil_def paint_aug_def)
next
  case (Nd wl w' wc wv wr)
  note z0 = z[unfolded Nd]
  have zw: "zst_aug s (RF x p pc pv # fs) (Nd wl w' wc wv wr)" using z0 by (simp add: zst_aug_up)
  have zl: "zst_aug s (LF w' wc wv wr # RF x p pc pv # fs) wl" using zw by (simp add: zst_aug_up)
  have zr: "zst_aug s (RF wl w' wc wv # RF x p pc pv # fs) wr" using zw by (simp add: zst_aug_up)
  note rd = zst_aug_reads(3,4)[OF zw] is_black_zst[OF zl] is_black_zst[OF zr]
  show ?thesis
  proof (cases "col wl = BLACK \<and> col wr = BLACK")
    case True
    from set_color_aug_sib[OF z0, of RED] obtain s1 where s1: "paint_aug (Ref w') RED s = Some s1"
      and z1: "zst_aug s1 (LF p pc pv (Nd wl w' RED wv wr) # fs) x" and e1: "same_sz s s1"
      by (auto simp: paint_aug_Ref)
    have pp: "parent_aug (Ref p) s1 = Some (ptop fs)" using frame_reads_aug(2)[OF z1] by simp
    have z1': "zst_aug s1 fs (Nd x p pc pv (Nd wl w' RED wv wr))" using z1 by (simp add: zst_aug_up)
    have k: "sk (plug (LF p pc pv (Nd wl w' wc wv wr) # fs) x)
        = sk (plug fs (Nd x p pc pv (Nd wl w' RED wv wr)))"
      by (simp, rule sk_plug_cong) simp
    have d: "\<forall>m. dp s m (plug (LF p pc pv (Nd wl w' wc wv wr) # fs) x)
        \<longrightarrow> dp s1 m (plug fs (Nd x p pc pv (Nd wl w' RED wv wr)))"
      using dp_recolor[OF e1 k] by blast
    show ?thesis using Nd True rd s1 pp z1' d
      by (simp add: erase_fixup_direction_tail_def fetch_sibling_children_def del: dp.simps)
  next
    case False
    show ?thesis
    proof (cases "col wr = BLACK")
      case wrb: True
      with False have "col wl \<noteq> BLACK" by simp
      then obtain wll l wlv wlr where wl: "wl = Nd wll l RED wlv wlr"
        by (cases wl; cases "col wl") auto
      note zl' = zl[unfolded wl]
      from set_color_aug_zst[OF zl', of BLACK] obtain s1 where s1: "paint_aug (Ref l) BLACK s = Some s1"
        and z1: "zst_aug s1 (LF w' wc wv wr # RF x p pc pv # fs) (Nd wll l BLACK wlv wlr)"
        and e1: "same_sz s s1" by (auto simp: paint_aug_Ref)
      from set_color_aug_frame[OF z1, of RED] obtain s2 where s2: "paint_aug (Ref w') RED s1 = Some s2"
        and z2: "zst_aug s2 (LF w' RED wv wr # RF x p pc pv # fs) (Nd wll l BLACK wlv wlr)"
        and e2: "same_sz s1 s2" by (auto simp: paint_aug_Ref)
      have z2': "zst_aug s2 (RF x p pc pv # fs) (Nd (Nd wll l BLACK wlv wlr) w' RED wv wr)"
        using z2 by (simp add: zst_aug_up)
      from rotate_R_zst[OF z2'] obtain s3 where s3: "rotate (Ref w') RIGHT s2 = Some s3"
        and z3: "zst_aug s3 (RF x p pc pv # fs) (Nd wll l BLACK wlv (Nd wlr w' RED wv wr))"
        and d3: "\<forall>m. dp s2 m (plug (RF x p pc pv # fs) (Nd (Nd wll l BLACK wlv wlr) w' RED wv wr))
            \<longrightarrow> dp s3 m (plug (RF x p pc pv # fs) (Nd wll l BLACK wlv (Nd wlr w' RED wv wr)))"
        by blast
      have z3': "zst_aug s3 (LF p pc pv (Nd wll l BLACK wlv (Nd wlr w' RED wv wr)) # fs) x"
        using z3 by (simp add: zst_aug_up)
      have r3: "right_child_aug (Ref p) s3 = Some (Ref l)" using frame_reads_aug_L(2)[OF z3'] by simp
      note r3' = zst_aug_reads(3,4)[OF z3]
      from apply_outer_rotation_L[OF z3', of node] obtain s4 where
        s4: "apply_outer_rotation node (Ref p) (Ref l) (Ref w') LEFT s3
          = Some (ptr_of (plug fs (Nd (Nd x p BLACK pv wll) l pc wlv (Nd wlr w' BLACK wv wr))), Nil, s4)"
        and z4: "zst_aug s4 [] (plug fs (Nd (Nd x p BLACK pv wll) l pc wlv (Nd wlr w' BLACK wv wr)))"
        and d4: "\<forall>m. dp s3 m (plug (LF p pc pv (Nd wll l BLACK wlv (Nd wlr w' RED wv wr)) # fs) x)
            \<longrightarrow> dp s4 m (plug fs (Nd (Nd x p BLACK pv wll) l pc wlv (Nd wlr w' BLACK wv wr)))"
        by auto
      have e: "same_sz s s2" using e1 e2 same_sz_trans by blast
      have k: "sk (plug (LF p pc pv (Nd wl w' wc wv wr) # fs) x)
          = sk (plug (RF x p pc pv # fs) (Nd (Nd wll l BLACK wlv wlr) w' RED wv wr))"
        unfolding wl by (simp, rule sk_plug_cong) simp
      have d: "\<forall>m. dp s m (plug (LF p pc pv (Nd wl w' wc wv wr) # fs) x)
          \<longrightarrow> dp s4 m (plug fs (Nd (Nd x p BLACK pv wll) l pc wlv (Nd wlr w' BLACK wv wr)))"
        using dp_recolor[OF e k] d3 d4 by (simp del: dp.simps)
      show ?thesis using Nd False wrb wl rd s1 s2 s3 r3 r3' s4 z4 d
        by (simp add: erase_fixup_direction_tail_def fetch_sibling_children_def del: dp.simps)
    next
      case wrr: False
      from apply_outer_rotation_L[OF z0, of node] obtain s4 where
        s4: "apply_outer_rotation node (Ref p) (Ref w') (ptr_of wr) LEFT s
          = Some (ptr_of (plug fs (Nd (Nd x p BLACK pv wl) w' pc wv (paint BLACK wr))), Nil, s4)"
        and z4: "zst_aug s4 [] (plug fs (Nd (Nd x p BLACK pv wl) w' pc wv (paint BLACK wr)))"
        and d4: "\<forall>m. dp s m (plug (LF p pc pv (Nd wl w' wc wv wr) # fs) x)
            \<longrightarrow> dp s4 m (plug fs (Nd (Nd x p BLACK pv wl) w' pc wv (paint BLACK wr)))"
        by auto
      show ?thesis using Nd False wrr rd s4 z4 d4
        by (simp add: erase_fixup_direction_tail_def fetch_sibling_children_def del: dp.simps)
    qed
  qed
qed

lemma erase_fixup_direction_L:
  assumes z: "zst_aug s (LF p pc pv w # fs) x"
  shows "\<exists>s'. erase_fixup_direction node (Ref p) LEFT s
        = Some (ptr_of (snd (efl (LF p pc pv w # fs) x)), ptop (fst (efl (LF p pc pv w # fs) x)), s')
     \<and> zst_aug s' (fst (efl (LF p pc pv w # fs) x)) (snd (efl (LF p pc pv w # fs) x))
     \<and> (\<forall>m. dp s m (plug (LF p pc pv w # fs) x)
            \<longrightarrow> dp s' m (plug (fst (efl (LF p pc pv w # fs) x)) (snd (efl (LF p pc pv w # fs) x))))"
proof -
  have r0: "right_child_aug (Ref p) s = Some (ptr_of w)" using frame_reads_aug_L(2)[OF z] by simp
  have zw: "zst_aug s (RF x p pc pv # fs) w" using z by (simp add: zst_aug_up)
  have c0: "is_red (ptr_of w) s = Some (col w = RED)" using is_red_zst[OF zw] .
  show ?thesis
  proof (cases "col w = RED")
    case True
    then obtain wl w' wv wr where w: "w = Nd wl w' RED wv wr" by (cases w) auto
    note z0 = z[unfolded w]
    from set_color_aug_sib[OF z0, of BLACK] obtain s1 where s1: "paint_aug (Ref w') BLACK s = Some s1"
      and z1: "zst_aug s1 (LF p pc pv (Nd wl w' BLACK wv wr) # fs) x" and e1: "same_sz s s1"
      by (auto simp: paint_aug_Ref)
    from set_color_aug_frame[OF z1, of RED] obtain s2 where s2: "paint_aug (Ref p) RED s1 = Some s2"
      and z2: "zst_aug s2 (LF p RED pv (Nd wl w' BLACK wv wr) # fs) x" and e2: "same_sz s1 s2"
      by (auto simp: paint_aug_Ref)
    have z2': "zst_aug s2 fs (Nd x p RED pv (Nd wl w' BLACK wv wr))" using z2 by (simp add: zst_aug_up)
    from rotate_L_zst[OF z2'] obtain s3 where s3: "rotate (Ref p) LEFT s2 = Some s3"
      and z3: "zst_aug s3 fs (Nd (Nd x p RED pv wl) w' BLACK wv wr)"
      and d3: "\<forall>m. dp s2 m (plug fs (Nd x p RED pv (Nd wl w' BLACK wv wr)))
          \<longrightarrow> dp s3 m (plug fs (Nd (Nd x p RED pv wl) w' BLACK wv wr))" by blast
    have z3': "zst_aug s3 (LF p RED pv wl # LF w' BLACK wv wr # fs) x" using z3 by (simp add: zst_aug_up)
    have r3: "right_child_aug (Ref p) s3 = Some (ptr_of wl)" using frame_reads_aug_L(2)[OF z3'] by simp
    let ?D = "del_left p RED pv wl (LF w' BLACK wv wr # fs) x"
    from erase_fixup_direction_tail_L[OF z3', of node] obtain s4 where
      s4: "erase_fixup_direction_tail node (Ref p) (ptr_of wl) LEFT s3
        = Some (ptr_of (snd ?D), ptop (fst ?D), s4)"
      and z4: "zst_aug s4 (fst ?D) (snd ?D)"
      and d4: "\<forall>m. dp s3 m (plug (LF p RED pv wl # LF w' BLACK wv wr # fs) x)
          \<longrightarrow> dp s4 m (plug (fst ?D) (snd ?D))" by blast
    have e: "same_sz s s2" using e1 e2 same_sz_trans by blast
    have k: "sk (plug (LF p pc pv (Nd wl w' RED wv wr) # fs) x)
        = sk (plug fs (Nd x p RED pv (Nd wl w' BLACK wv wr)))"
      by (simp, rule sk_plug_cong) simp
    have d: "\<forall>m. dp s m (plug (LF p pc pv (Nd wl w' RED wv wr) # fs) x)
        \<longrightarrow> dp s4 m (plug (fst ?D) (snd ?D))"
      using dp_recolor[OF e k] d3 d4 by (simp del: dp.simps del_left.simps)
    show ?thesis unfolding erase_fixup_direction_unfold w
      using r0 c0 w s1 s2 s3 r3 s4 z4 d
      by (simp add: ensure_black_sibling_def del: del_left.simps dp.simps)
  next
    case False
    then have e: "efl (LF p pc pv w # fs) x = del_left p pc pv w fs x"
      by (cases "(LF p pc pv w # fs, x)" rule: efl.cases) auto
    from erase_fixup_direction_tail_L[OF z, of node]
    show ?thesis unfolding erase_fixup_direction_unfold e
      using r0 c0 False by (simp add: ensure_black_sibling_def del: del_left.simps dp.simps)
  qed
qed

lemma apply_outer_rotation_R:
  assumes z: "zst_aug s (RF (Nd wl w wc wv wr) p pc pv # fs) x"
  shows "\<exists>s'. apply_outer_rotation node (Ref p) (Ref w) (ptr_of wl) RIGHT s
        = Some (ptr_of (plug fs (Nd (paint BLACK wl) w pc wv (Nd wr p BLACK pv x))), Nil, s')
     \<and> zst_aug s' [] (plug fs (Nd (paint BLACK wl) w pc wv (Nd wr p BLACK pv x)))
     \<and> (\<forall>m. dp s m (plug (RF (Nd wl w wc wv wr) p pc pv # fs) x)
            \<longrightarrow> dp s' m (plug fs (Nd (paint BLACK wl) w pc wv (Nd wr p BLACK pv x))))"
proof -
  let ?T = "plug fs (Nd (paint BLACK wl) w pc wv (Nd wr p BLACK pv x))"
  have c0: "color_aug (Ref p) s = Some pc" using frame_reads_aug(1)[OF z] by simp
  from set_color_aug_sib[OF z, of pc] obtain s1 where s1: "paint_aug (Ref w) pc s = Some s1"
    and z1: "zst_aug s1 (RF (Nd wl w pc wv wr) p pc pv # fs) x" and e1: "same_sz s s1"
    by (auto simp: paint_aug_Ref)
  from set_color_aug_frame[OF z1, of BLACK] obtain s2 where s2: "paint_aug (Ref p) BLACK s1 = Some s2"
    and z2: "zst_aug s2 (RF (Nd wl w pc wv wr) p BLACK pv # fs) x" and e2: "same_sz s1 s2"
    by (auto simp: paint_aug_Ref)
  have z2': "zst_aug s2 (LF w pc wv wr # LF p BLACK pv x # fs) wl" using z2 by (simp add: zst_aug_up)
  from paint_aug_zst[OF z2', of BLACK] obtain s3 where
    s3: "paint_aug (ptr_of wl) BLACK s2 = Some s3"
    and z3: "zst_aug s3 (LF w pc wv wr # LF p BLACK pv x # fs) (paint BLACK wl)"
    and e3: "same_sz s2 s3" by blast
  have z3'': "zst_aug s3 fs (Nd (Nd (paint BLACK wl) w pc wv wr) p BLACK pv x)"
    using z3 by (simp add: zst_aug_up)
  from rotate_R_zst[OF z3''] obtain s4 where s4: "rotate (Ref p) RIGHT s3 = Some s4"
    and z4: "zst_aug s4 fs (Nd (paint BLACK wl) w pc wv (Nd wr p BLACK pv x))"
    and d4: "\<forall>m. dp s3 m (plug fs (Nd (Nd (paint BLACK wl) w pc wv wr) p BLACK pv x)) \<longrightarrow> dp s4 m ?T"
    by blast
  note z4' = zst_aug_top[OF z4] and r4 = zst_aug_root[OF z4]
  have e: "same_sz s s3" using e1 e2 e3 same_sz_trans by blast
  have k: "sk (plug (RF (Nd wl w wc wv wr) p pc pv # fs) x)
      = sk (plug fs (Nd (Nd (paint BLACK wl) w pc wv wr) p BLACK pv x))"
    by (simp, rule sk_plug_cong) simp
  have d: "\<forall>m. dp s m (plug (RF (Nd wl w wc wv wr) p pc pv # fs) x) \<longrightarrow> dp s4 m ?T"
    using dp_recolor[OF e k] d4 by blast
  show ?thesis using c0 s1 s2 s3 s4 z4' r4 d
    by (simp add: apply_outer_rotation_def del: dp.simps)
qed

lemma erase_fixup_direction_tail_R:
  assumes z: "zst_aug s (RF w p pc pv # fs) x"
  shows "\<exists>s'. erase_fixup_direction_tail node (Ref p) (ptr_of w) RIGHT s
        = Some (ptr_of (snd (del_right p pc pv w fs x)), ptop (fst (del_right p pc pv w fs x)), s')
     \<and> zst_aug s' (fst (del_right p pc pv w fs x)) (snd (del_right p pc pv w fs x))
     \<and> (\<forall>m. dp s m (plug (RF w p pc pv # fs) x)
            \<longrightarrow> dp s' m (plug (fst (del_right p pc pv w fs x)) (snd (del_right p pc pv w fs x))))"
proof (cases w)
  case Lf
  have pp: "parent_aug (Ref p) s = Some (ptop fs)" using frame_reads_aug(2)[OF z] by simp
  have "zst_aug s fs (Nd Lf p pc pv x)" using z Lf by (simp add: zst_aug_up)
  then show ?thesis using Lf pp
    by (simp add: erase_fixup_direction_tail_def fetch_sibling_children_def is_black_def
          color_of_aug_def is_nil_def paint_aug_def)
next
  case (Nd wl w' wc wv wr)
  note z0 = z[unfolded Nd]
  have zw: "zst_aug s (LF p pc pv x # fs) (Nd wl w' wc wv wr)" using z0 by (simp add: zst_aug_up)
  have zl: "zst_aug s (LF w' wc wv wr # LF p pc pv x # fs) wl" using zw by (simp add: zst_aug_up)
  have zr: "zst_aug s (RF wl w' wc wv # LF p pc pv x # fs) wr" using zw by (simp add: zst_aug_up)
  note rd = zst_aug_reads(3,4)[OF zw] is_black_zst[OF zl] is_black_zst[OF zr]
  show ?thesis
  proof (cases "col wr = BLACK \<and> col wl = BLACK")
    case True
    from set_color_aug_sib[OF z0, of RED] obtain s1 where s1: "paint_aug (Ref w') RED s = Some s1"
      and z1: "zst_aug s1 (RF (Nd wl w' RED wv wr) p pc pv # fs) x" and e1: "same_sz s s1"
      by (auto simp: paint_aug_Ref)
    have pp: "parent_aug (Ref p) s1 = Some (ptop fs)" using frame_reads_aug(2)[OF z1] by simp
    have z1': "zst_aug s1 fs (Nd (Nd wl w' RED wv wr) p pc pv x)" using z1 by (simp add: zst_aug_up)
    have k: "sk (plug (RF (Nd wl w' wc wv wr) p pc pv # fs) x)
        = sk (plug fs (Nd (Nd wl w' RED wv wr) p pc pv x))"
      by (simp, rule sk_plug_cong) simp
    have d: "\<forall>m. dp s m (plug (RF (Nd wl w' wc wv wr) p pc pv # fs) x)
        \<longrightarrow> dp s1 m (plug fs (Nd (Nd wl w' RED wv wr) p pc pv x))"
      using dp_recolor[OF e1 k] by blast
    show ?thesis using Nd True rd s1 pp z1' d
      by (simp add: erase_fixup_direction_tail_def fetch_sibling_children_def del: dp.simps)
  next
    case False
    show ?thesis
    proof (cases "col wl = BLACK")
      case wlb: True
      with False have "col wr \<noteq> BLACK" by simp
      then obtain wrl r wrv wrr where wr: "wr = Nd wrl r RED wrv wrr"
        by (cases wr; cases "col wr") auto
      note zr' = zr[unfolded wr]
      from set_color_aug_zst[OF zr', of BLACK] obtain s1 where s1: "paint_aug (Ref r) BLACK s = Some s1"
        and z1: "zst_aug s1 (RF wl w' wc wv # LF p pc pv x # fs) (Nd wrl r BLACK wrv wrr)"
        and e1: "same_sz s s1" by (auto simp: paint_aug_Ref)
      from set_color_aug_frame[OF z1, of RED] obtain s2 where s2: "paint_aug (Ref w') RED s1 = Some s2"
        and z2: "zst_aug s2 (RF wl w' RED wv # LF p pc pv x # fs) (Nd wrl r BLACK wrv wrr)"
        and e2: "same_sz s1 s2" by (auto simp: paint_aug_Ref)
      have z2': "zst_aug s2 (LF p pc pv x # fs) (Nd wl w' RED wv (Nd wrl r BLACK wrv wrr))"
        using z2 by (simp add: zst_aug_up)
      from rotate_L_zst[OF z2'] obtain s3 where s3: "rotate (Ref w') LEFT s2 = Some s3"
        and z3: "zst_aug s3 (LF p pc pv x # fs) (Nd (Nd wl w' RED wv wrl) r BLACK wrv wrr)"
        and d3: "\<forall>m. dp s2 m (plug (LF p pc pv x # fs) (Nd wl w' RED wv (Nd wrl r BLACK wrv wrr)))
            \<longrightarrow> dp s3 m (plug (LF p pc pv x # fs) (Nd (Nd wl w' RED wv wrl) r BLACK wrv wrr))"
        by blast
      have z3': "zst_aug s3 (RF (Nd (Nd wl w' RED wv wrl) r BLACK wrv wrr) p pc pv # fs) x"
        using z3 by (simp add: zst_aug_up)
      have r3: "left_child_aug (Ref p) s3 = Some (Ref r)" using frame_reads_aug_R(1)[OF z3'] by simp
      note r3' = zst_aug_reads(3,4)[OF z3]
      from apply_outer_rotation_R[OF z3', of node] obtain s4 where
        s4: "apply_outer_rotation node (Ref p) (Ref r) (Ref w') RIGHT s3
          = Some (ptr_of (plug fs (Nd (Nd wl w' BLACK wv wrl) r pc wrv (Nd wrr p BLACK pv x))), Nil, s4)"
        and z4: "zst_aug s4 [] (plug fs (Nd (Nd wl w' BLACK wv wrl) r pc wrv (Nd wrr p BLACK pv x)))"
        and d4: "\<forall>m. dp s3 m (plug (RF (Nd (Nd wl w' RED wv wrl) r BLACK wrv wrr) p pc pv # fs) x)
            \<longrightarrow> dp s4 m (plug fs (Nd (Nd wl w' BLACK wv wrl) r pc wrv (Nd wrr p BLACK pv x)))"
        by auto
      have e: "same_sz s s2" using e1 e2 same_sz_trans by blast
      have k: "sk (plug (RF (Nd wl w' wc wv wr) p pc pv # fs) x)
          = sk (plug (LF p pc pv x # fs) (Nd wl w' RED wv (Nd wrl r BLACK wrv wrr)))"
        unfolding wr by (simp, rule sk_plug_cong) simp
      have d: "\<forall>m. dp s m (plug (RF (Nd wl w' wc wv wr) p pc pv # fs) x)
          \<longrightarrow> dp s4 m (plug fs (Nd (Nd wl w' BLACK wv wrl) r pc wrv (Nd wrr p BLACK pv x)))"
        using dp_recolor[OF e k] d3 d4 by (simp del: dp.simps)
      show ?thesis using Nd False wlb wr rd s1 s2 s3 r3 r3' s4 z4 d
        by (simp add: erase_fixup_direction_tail_def fetch_sibling_children_def del: dp.simps)
    next
      case wll: False
      from apply_outer_rotation_R[OF z0, of node] obtain s4 where
        s4: "apply_outer_rotation node (Ref p) (Ref w') (ptr_of wl) RIGHT s
          = Some (ptr_of (plug fs (Nd (paint BLACK wl) w' pc wv (Nd wr p BLACK pv x))), Nil, s4)"
        and z4: "zst_aug s4 [] (plug fs (Nd (paint BLACK wl) w' pc wv (Nd wr p BLACK pv x)))"
        and d4: "\<forall>m. dp s m (plug (RF (Nd wl w' wc wv wr) p pc pv # fs) x)
            \<longrightarrow> dp s4 m (plug fs (Nd (paint BLACK wl) w' pc wv (Nd wr p BLACK pv x)))"
        by auto
      show ?thesis using Nd False wll rd s4 z4 d4
        by (simp add: erase_fixup_direction_tail_def fetch_sibling_children_def del: dp.simps)
    qed
  qed
qed

lemma erase_fixup_direction_R:
  assumes z: "zst_aug s (RF w p pc pv # fs) x"
  shows "\<exists>s'. erase_fixup_direction node (Ref p) RIGHT s
        = Some (ptr_of (snd (efl (RF w p pc pv # fs) x)), ptop (fst (efl (RF w p pc pv # fs) x)), s')
     \<and> zst_aug s' (fst (efl (RF w p pc pv # fs) x)) (snd (efl (RF w p pc pv # fs) x))
     \<and> (\<forall>m. dp s m (plug (RF w p pc pv # fs) x)
            \<longrightarrow> dp s' m (plug (fst (efl (RF w p pc pv # fs) x)) (snd (efl (RF w p pc pv # fs) x))))"
proof -
  have r0: "left_child_aug (Ref p) s = Some (ptr_of w)" using frame_reads_aug_R(1)[OF z] by simp
  have zw: "zst_aug s (LF p pc pv x # fs) w" using z by (simp add: zst_aug_up)
  have c0: "is_red (ptr_of w) s = Some (col w = RED)" using is_red_zst[OF zw] .
  show ?thesis
  proof (cases "col w = RED")
    case True
    then obtain wl w' wv wr where w: "w = Nd wl w' RED wv wr" by (cases w) auto
    note z0 = z[unfolded w]
    from set_color_aug_sib[OF z0, of BLACK] obtain s1 where s1: "paint_aug (Ref w') BLACK s = Some s1"
      and z1: "zst_aug s1 (RF (Nd wl w' BLACK wv wr) p pc pv # fs) x" and e1: "same_sz s s1"
      by (auto simp: paint_aug_Ref)
    from set_color_aug_frame[OF z1, of RED] obtain s2 where s2: "paint_aug (Ref p) RED s1 = Some s2"
      and z2: "zst_aug s2 (RF (Nd wl w' BLACK wv wr) p RED pv # fs) x" and e2: "same_sz s1 s2"
      by (auto simp: paint_aug_Ref)
    have z2': "zst_aug s2 fs (Nd (Nd wl w' BLACK wv wr) p RED pv x)" using z2 by (simp add: zst_aug_up)
    from rotate_R_zst[OF z2'] obtain s3 where s3: "rotate (Ref p) RIGHT s2 = Some s3"
      and z3: "zst_aug s3 fs (Nd wl w' BLACK wv (Nd wr p RED pv x))"
      and d3: "\<forall>m. dp s2 m (plug fs (Nd (Nd wl w' BLACK wv wr) p RED pv x))
          \<longrightarrow> dp s3 m (plug fs (Nd wl w' BLACK wv (Nd wr p RED pv x)))" by blast
    have z3': "zst_aug s3 (RF wr p RED pv # RF wl w' BLACK wv # fs) x" using z3 by (simp add: zst_aug_up)
    have r3: "left_child_aug (Ref p) s3 = Some (ptr_of wr)" using frame_reads_aug_R(1)[OF z3'] by simp
    let ?D = "del_right p RED pv wr (RF wl w' BLACK wv # fs) x"
    from erase_fixup_direction_tail_R[OF z3', of node] obtain s4 where
      s4: "erase_fixup_direction_tail node (Ref p) (ptr_of wr) RIGHT s3
        = Some (ptr_of (snd ?D), ptop (fst ?D), s4)"
      and z4: "zst_aug s4 (fst ?D) (snd ?D)"
      and d4: "\<forall>m. dp s3 m (plug (RF wr p RED pv # RF wl w' BLACK wv # fs) x)
          \<longrightarrow> dp s4 m (plug (fst ?D) (snd ?D))" by blast
    have e: "same_sz s s2" using e1 e2 same_sz_trans by blast
    have k: "sk (plug (RF (Nd wl w' RED wv wr) p pc pv # fs) x)
        = sk (plug fs (Nd (Nd wl w' BLACK wv wr) p RED pv x))"
      by (simp, rule sk_plug_cong) simp
    have d: "\<forall>m. dp s m (plug (RF (Nd wl w' RED wv wr) p pc pv # fs) x)
        \<longrightarrow> dp s4 m (plug (fst ?D) (snd ?D))"
      using dp_recolor[OF e k] d3 d4 by (simp del: dp.simps del_right.simps)
    show ?thesis unfolding erase_fixup_direction_unfold w
      using r0 c0 w s1 s2 s3 r3 s4 z4 d
      by (simp add: ensure_black_sibling_def del: del_right.simps dp.simps)
  next
    case False
    then have e: "efl (RF w p pc pv # fs) x = del_right p pc pv w fs x"
      by (cases "(RF w p pc pv # fs, x)" rule: efl.cases) auto
    from erase_fixup_direction_tail_R[OF z, of node]
    show ?thesis unfolding erase_fixup_direction_unfold e
      using r0 c0 False by (simp add: ensure_black_sibling_def del: del_right.simps dp.simps)
  qed
qed

lemma zst_aug_root_neq: "zst_aug s fs x \<Longrightarrow> (ptr_of x \<noteq> root_aug s) = (fs \<noteq> [])"
  using last_in_ctx[of fs] by (cases x) (auto simp: zst_aug_def ptr_of_plug)

lemma erase_fixup_aug_zst:
  "zst_aug s fs x \<Longrightarrow> (x = Lf \<longrightarrow> fs \<noteq> [] \<longrightarrow> fsib (hd fs) \<noteq> Lf)
   \<Longrightarrow> \<exists>s'. erase_fixup_aug (ptr_of x) (ptop fs) s = Some s' \<and> abs_aug s' (del_fix fs x)
        \<and> (\<forall>m. dp s m (plug fs x) \<longrightarrow> dp s' m (del_fix fs x))"
proof (induction fs x arbitrary: s rule: del_fix.induct)
  case (1 fs x)
  note z = "1.prems"(1) and sb = "1.prems"(2)
  note rn = zst_aug_root_neq[OF z]
  note co = is_black_zst[OF z]
  show ?case
  proof (cases "fs \<noteq> [] \<and> col x = BLACK")
    case True
    then obtain f fs0 where fs: "fs = f # fs0" by (cases fs) auto
    obtain fs' x' where e: "efl fs x = (fs', x')" by (cases "efl fs x")
    have x': "x' \<noteq> Lf" using efl_nonleaf[of fs x] True e by simp
    have step: "\<exists>s1. erase_fixup_direction (ptr_of x) (Ref (faddr f))
                   (if ptr_of x = ptr_of (case f of LF a c v r \<Rightarrow> x | RF l a c v \<Rightarrow> l)
                    then LEFT else RIGHT) s
                 = Some (ptr_of x', ptop fs', s1) \<and> zst_aug s1 fs' x'
               \<and> (\<forall>m. dp s m (plug fs x) \<longrightarrow> dp s1 m (plug fs' x'))
               \<and> left_child_aug (Ref (faddr f)) s
                 = Some (ptr_of (case f of LF a c v r \<Rightarrow> x | RF l a c v \<Rightarrow> l))"
    proof (cases f)
      case (LF p pc pv w)
      note z0 = z[unfolded fs LF]
      from erase_fixup_direction_L[OF z0, of "ptr_of x"] fs LF e
      show ?thesis using frame_reads_aug_L(1)[OF z0] LF by (auto simp del: dp.simps efl.simps)
    next
      case (RF w p pc pv)
      note z0 = z[unfolded fs RF]
      have ne: "ptr_of x \<noteq> ptr_of w"
      proof (cases x)
        case Lf
        then show ?thesis using sb fs RF by (cases w) auto
      next
        case (Nd xl xa xc xv xr)
        then show ?thesis using zst_aug_neq_sib(1)[of s f fs0 xl xa xc xv xr] z fs RF by auto
      qed
      from erase_fixup_direction_R[OF z0, of "ptr_of x"] fs RF e
      show ?thesis using frame_reads_aug_R(1)[OF z0] RF ne by (auto simp del: dp.simps efl.simps)
    qed
    then obtain s1 where
      s1: "erase_fixup_direction (ptr_of x) (Ref (faddr f))
             (if ptr_of x = ptr_of (case f of LF a c v r \<Rightarrow> x | RF l a c v \<Rightarrow> l)
              then LEFT else RIGHT) s = Some (ptr_of x', ptop fs', s1)"
      and z1: "zst_aug s1 fs' x'"
      and d1: "\<forall>m. dp s m (plug fs x) \<longrightarrow> dp s1 m (plug fs' x')"
      and lc: "left_child_aug (Ref (faddr f)) s
                 = Some (ptr_of (case f of LF a c v r \<Rightarrow> x | RF l a c v \<Rightarrow> l))" by blast
    from "1.IH"[OF True e[symmetric] z1] x' obtain s2 where
      s2: "erase_fixup_aug (ptr_of x') (ptop fs') s1 = Some s2" and a2: "abs_aug s2 (del_fix fs' x')"
      and d2: "\<forall>m. dp s1 m (plug fs' x') \<longrightarrow> dp s2 m (del_fix fs' x')" by auto
    have d: "del_fix fs x = del_fix fs' x'" using True e by (subst del_fix.simps) simp
    have dd: "\<forall>m. dp s m (plug fs x) \<longrightarrow> dp s2 m (del_fix fs' x')" using d1 d2 by blast
    show ?thesis unfolding d
      apply (subst erase_fixup_aug.simps)
      using True rn co lc s1 s2 a2 dd fs by (simp del: dp.simps)
  next
    case False
    have d: "del_fix fs x = plug fs (paint BLACK x)" using False by (subst del_fix.simps) auto
    from paint_aug_zst[OF z, of BLACK] obtain s1 where
      s1: "paint_aug (ptr_of x) BLACK s = Some s1" and z1: "zst_aug s1 fs (paint BLACK x)"
      and e1: "same_sz s s1" by blast
    have a: "abs_aug s1 (plug fs (paint BLACK x))" using z1 by (simp add: abs_aug_plug)
    have k: "sk (plug fs x) = sk (plug fs (paint BLACK x))" by (rule sk_plug_cong) simp
    have dd: "\<forall>m. dp s m (plug fs x) \<longrightarrow> dp s1 m (plug fs (paint BLACK x))"
      using dp_recolor[OF e1 k] by blast
    show ?thesis unfolding d
      apply (subst erase_fixup_aug.simps)
      using False rn co s1 a dd by (auto simp del: dp.simps)
  qed
qed

section \<open>The augmented tree: unlinking a node\<close>

lemma transplant_aug_unfold:
  "transplant_aug u v t = do {
     par \<leftarrow> parent_aug u t;
     t \<leftarrow> transplant_links u v par t;
     update_size_upwards par t }"
  unfolding transplant_aug_def transplant_links_def by simp

lemma detach_node_with_successor_unfold:
  "detach_node_with_successor z t = do {
     zr \<leftarrow> right_child_aug z t;
     successor \<leftarrow> minimum_aug zr t;
     x \<leftarrow> right_child_aug successor t;
     removed_color \<leftarrow> color_aug successor t;
     sp \<leftarrow> parent_aug successor t;
     (x_parent, t) \<leftarrow>
       (if sp \<noteq> z then do {
          x_parent \<leftarrow> parent_aug successor t;
          sr \<leftarrow> right_child_aug successor t;
          t \<leftarrow> transplant_aug successor sr t;
          zr \<leftarrow> right_child_aug z t;
          t \<leftarrow> set_right_child_aug successor zr t;
          sr \<leftarrow> right_child_aug successor t;
          t \<leftarrow> (if sr \<noteq> Nil then set_parent_aug sr successor t else Some t);
          Some (x_parent, t) }
        else do {
          t \<leftarrow> (if x \<noteq> Nil then set_parent_aug x successor t else Some t);
          Some (successor, t) });
     t \<leftarrow> detach_replace_aug z successor t;
     x_parent \<leftarrow> (if x \<noteq> Nil then parent_aug x t
                  else if sp = z then Some successor
                  else Some x_parent);
     Some (\<lparr>dr_fixup = x, dr_parent = x_parent, dr_removed_color = removed_color\<rparr>, t) }"
  unfolding detach_node_with_successor_def detach_replace_aug_def
  by (simp add: Let_def split_def cong: if_cong)

lemma upward_ctx:
  assumes z: "zst_aug s fs t"
  shows "\<exists>s'. update_size_upwards (ptop fs) s = Some s' \<and> zst_aug s' fs t
     \<and> (\<forall>b. b \<notin> faddr ` set fs \<longrightarrow> store s' b = store s b)
     \<and> (\<forall>m. dp s m t \<longrightarrow> (\<forall>f \<in> set fs. dp s m (fsib f)) \<longrightarrow> dp s' m (plug fs t))"
proof (cases fs)
  case Nil
  have "update_size_upwards Nil s = Some s"
    by (subst update_size_upwards.simps) (simp add: is_nil_def)
  then show ?thesis using z Nil by simp
next
  case (Cons f fs0)
  obtain l c v r where p1: "plug1 f t = Nd l (faddr f) c v r" using plug1_Nd[of f t] by blast
  have zu: "zst_aug s fs0 (Nd l (faddr f) c v r)" using z Cons p1 by (simp add: zst_aug_up)
  from upward_zst[OF zu] obtain s1 s' where
    s1: "recalc_size (Ref (faddr f)) s = Some s1" and u: "update_size_upwards (ptop fs0) s1 = Some s'"
    and z': "zst_aug s' fs0 (Nd l (faddr f) c v r)"
    and fr: "\<forall>b. b \<noteq> faddr f \<longrightarrow> b \<notin> faddr ` set fs0 \<longrightarrow> store s' b = store s b"
    and dd: "\<forall>m. dp s m l \<longrightarrow> dp s m r \<longrightarrow> (\<forall>g \<in> set fs0. dp s m (fsib g))
            \<longrightarrow> dp s' m (plug fs0 (Nd l (faddr f) c v r))" by blast
  from recalc_size_dp[OF zu] s1 have z1: "zst_aug s1 fs0 (Nd l (faddr f) c v r)" by auto
  have par: "parent_aug (Ref (faddr f)) s1 = Some (ptop fs0)" using zst_aug_reads(1)[OF z1] .
  have up: "update_size_upwards (Ref (faddr f)) s = Some s'"
    using s1 par u by (subst update_size_upwards.simps) (simp add: is_nil_def)
  have zz: "zst_aug s' fs t" using z' p1 Cons by (simp add: zst_aug_up)
  have "dp s' m (plug fs t)" if a1: "dp s m t" and a2: "\<forall>g \<in> set fs. dp s m (fsib g)" for m
  proof -
    have "dp s m l \<and> dp s m r" using p1 a1 a2 Cons by (cases f) auto
    then have "dp s' m (plug fs0 (Nd l (faddr f) c v r))" using dd a2 Cons by simp
    then show ?thesis using p1 Cons by simp
  qed
  then show ?thesis using up zz fr Cons by simp
qed

lemma zst_aug_zctx: "zst_aug s fs (Nd l z c v r) \<Longrightarrow> zctx_aug s fs z"
  by (auto simp: zst_aug_def zctx_aug_def ptr_of_plug)

lemma transplant_links_zctx:
  assumes "zctx_aug s fs z" "rel_aug s par t'" "distinct (addrs t' @ caddrs fs)"
    "z \<notin> fst ` set (nodes t')"
  shows "\<exists>s'. transplant_links (Ref z) (ptr_of t') (ptop fs) s = Some s' \<and> zst_aug s' fs t'
     \<and> same_sz s s' \<and> parent_aug (Ref z) s = Some (ptop fs)
     \<and> (\<forall>a. Ref a \<noteq> ptop fs \<longrightarrow> Ref a \<noteq> ptr_of t' \<longrightarrow> store s' a = store s a)"
  using assms
  apply (cases fs rule: nbefore.cases; cases t')
  apply (clarsimp simp: zctx_aug_def zst_aug_def ptr_of_plug same_sz_def, simp add: transplant_links_def acc_aug rel_aug_upd_other crel_aug_upd_other)+
  done

lemma ptop_in_frames: "Ref a = ptop fs \<Longrightarrow> a \<in> faddr ` set fs"
  by (cases fs) auto

lemma transplant_aug_zctx:
  assumes zc: "zctx_aug s fs z" and r: "rel_aug s par t'" and d: "distinct (addrs t' @ caddrs fs)"
    and n: "z \<notin> fst ` set (nodes t')"
  shows "\<exists>s'. transplant_aug (Ref z) (ptr_of t') s = Some s' \<and> zst_aug s' fs t'
     \<and> (\<forall>a. a \<notin> faddr ` set fs \<longrightarrow> Ref a \<noteq> ptr_of t' \<longrightarrow> store s' a = store s a)
     \<and> (\<forall>m. dp s m t' \<longrightarrow> (\<forall>f \<in> set fs. dp s m (fsib f)) \<longrightarrow> dp s' m (plug fs t'))"
proof -
  from transplant_links_zctx[OF zc r d n] obtain s1 where
    s1: "transplant_links (Ref z) (ptr_of t') (ptop fs) s = Some s1" and z1: "zst_aug s1 fs t'"
    and e1: "same_sz s s1" and p: "parent_aug (Ref z) s = Some (ptop fs)"
    and f1: "\<forall>a. Ref a \<noteq> ptop fs \<longrightarrow> Ref a \<noteq> ptr_of t' \<longrightarrow> store s1 a = store s a" by blast
  from upward_ctx[OF z1] obtain s2 where
    s2: "update_size_upwards (ptop fs) s1 = Some s2" and z2: "zst_aug s2 fs t'"
    and f2: "\<forall>b. b \<notin> faddr ` set fs \<longrightarrow> store s2 b = store s1 b"
    and d2: "\<forall>m. dp s1 m t' \<longrightarrow> (\<forall>f \<in> set fs. dp s1 m (fsib f)) \<longrightarrow> dp s2 m (plug fs t')" by blast
  have fr: "\<forall>a. a \<notin> faddr ` set fs \<longrightarrow> Ref a \<noteq> ptr_of t' \<longrightarrow> store s2 a = store s a"
    using f1 f2 ptop_in_frames by metis
  have dd: "\<forall>m. dp s m t' \<longrightarrow> (\<forall>f \<in> set fs. dp s m (fsib f)) \<longrightarrow> dp s2 m (plug fs t')"
    using d2 dp_same[OF e1] by simp
  show ?thesis unfolding transplant_aug_unfold using p s1 s2 z2 fr dd by simp
qed

lemma set_parent_aug_same:
  assumes "zst_aug s (f # fs) t"
  shows "\<exists>s'. (if ptr_of t \<noteq> Nil then set_parent_aug (ptr_of t) (Ref (faddr f)) s else Some s) = Some s'
     \<and> zst_aug s' (f # fs) t \<and> same_sz s s'
     \<and> (\<forall>a. Ref a \<noteq> ptr_of t \<longrightarrow> store s' a = store s a)"
  using assms
  apply (cases f; cases t)
  apply (clarsimp simp: zst_aug_def ptr_of_plug same_sz_def, simp add: acc_aug rel_aug_upd_other crel_aug_upd_other)+
  done

lemma graft_left_aug:
  assumes "zst_aug s fs (Nd Lf y yc yv R)" "rel_aug s par l" "l \<noteq> Lf"
    "distinct (addrs l @ y # addrs R @ caddrs fs)"
  shows "\<exists>s1 s2 s3. set_left_child_aug (Ref y) (ptr_of l) s = Some s1
     \<and> left_child_aug (Ref y) s1 = Some (ptr_of l)
     \<and> set_parent_aug (ptr_of l) (Ref y) s1 = Some s2
     \<and> set_color_aug (Ref y) c s2 = Some s3
     \<and> zst_aug s3 fs (Nd l y c yv R) \<and> same_sz s s3
     \<and> (\<forall>a. a \<noteq> y \<longrightarrow> Ref a \<noteq> ptr_of l \<longrightarrow> store s2 a = store s a \<and> store s3 a = store s a)"
  using assms
  apply (cases fs rule: nbefore.cases; cases l)
  apply (clarsimp simp: zst_aug_def ptr_of_plug same_sz_def, simp add: acc_aug rel_aug_upd_other crel_aug_upd_other)+
  done

lemma graft_right_aug:
  assumes "zst_aug s fs (Nd l z c v R)" "R \<noteq> Lf"
    "store s y = Some \<lparr>n_base = \<lparr>n_color = yc, n_left = Nil, n_right = yr0, n_parent = yp,
        n_subtree_size = k\<rparr>, n_value = yv\<rparr>"
    "y \<notin> fst ` set (nodes (plug fs (Nd l z c v R)))"
  shows "\<exists>s1 s2. set_right_child_aug (Ref y) (ptr_of R) s = Some s1
     \<and> right_child_aug (Ref y) s1 = Some (ptr_of R)
     \<and> set_parent_aug (ptr_of R) (Ref y) s1 = Some s2
     \<and> zctx_aug s2 fs z \<and> store s2 z = store s z \<and> rel_aug s2 (Ref z) l
     \<and> rel_aug s2 yp (Nd Lf y yc yv R) \<and> same_sz s s2"
  using assms
  apply (cases fs rule: nbefore.cases; cases R)
  apply (clarsimp simp: zst_aug_def zctx_aug_def ptr_of_plug nodes_plug image_Un same_sz_def, simp add: acc_aug rel_aug_upd_other crel_aug_upd_other)+
  done

lemma sib_not_frame:
  "distinct (caddrs fs) \<Longrightarrow> g \<in> set fs \<Longrightarrow> a \<in> fst ` set (nodes (fsib g)) \<Longrightarrow> a \<notin> faddr ` set fs"
proof (induction fs rule: nbefore.induct)
  case 1
  then show ?case by simp
next
  case (2 b c v r fs)
  show ?case
  proof (cases "g = LF b c v r")
    case True
    have "a \<notin> faddr ` set fs"
    proof
      assume "a \<in> faddr ` set fs"
      then obtain x where x: "x \<in> set fs" and ax: "a = faddr x" by auto
      from frame_in_ctx[OF x] have "a \<in> fst ` set (nbefore fs @ nafter fs)" using ax by simp
      then show False using "2.prems"(1,3) True by auto
    qed
    moreover have "a \<noteq> b" using "2.prems"(1,3) True by auto
    ultimately show ?thesis by simp
  next
    case False
    then have g: "g \<in> set fs" using 2 by simp
    from sib_in_ctx[OF g "2.prems"(3)] have ab: "a \<noteq> b" using "2.prems"(1) by auto
    have dc: "distinct (caddrs fs)" using "2.prems"(1) by auto
    from "2.IH"[OF dc g "2.prems"(3)] ab show ?thesis by simp
  qed
next
  case (3 l b c v fs)
  show ?case
  proof (cases "g = RF l b c v")
    case True
    have "a \<notin> faddr ` set fs"
    proof
      assume "a \<in> faddr ` set fs"
      then obtain x where x: "x \<in> set fs" and ax: "a = faddr x" by auto
      from frame_in_ctx[OF x] have "a \<in> fst ` set (nbefore fs @ nafter fs)" using ax by simp
      then show False using "3.prems"(1,3) True by auto
    qed
    moreover have "a \<noteq> b" using "3.prems"(1,3) True by auto
    ultimately show ?thesis by simp
  next
    case False
    then have g: "g \<in> set fs" using 3 by simp
    from sib_in_ctx[OF g "3.prems"(3)] have ab: "a \<noteq> b" using "3.prems"(1) by auto
    have dc: "distinct (caddrs fs)" using "3.prems"(1) by auto
    from "3.IH"[OF dc g "3.prems"(3)] ab show ?thesis by simp
  qed
qed

lemma hole_parent_aug:
  "zst_aug s fs x \<Longrightarrow>
   (if ptr_of x \<noteq> Nil then parent_aug (ptr_of x) s else Some (ptop fs)) = Some (ptop fs)"
  by (cases x) (auto dest: zst_aug_reads(1))

lemma detach_replace_aug_zst:
  assumes zc: "zctx_aug s fs z"
    and hz: "store s z = Some \<lparr>n_base = \<lparr>n_color = c, n_left = ptr_of l, n_right = zr, n_parent = zp,
        n_subtree_size = k\<rparr>, n_value = v\<rparr>"
    and rl: "rel_aug s (Ref z) l" and l: "l \<noteq> Lf"
    and ry: "rel_aug s par (Nd Lf y yc yv R)"
    and d: "distinct (z # addrs l @ y # addrs R @ caddrs fs)"
  shows "\<exists>s'. detach_replace_aug (Ref z) (Ref y) s = Some s' \<and> zst_aug s' fs (Nd l y c yv R)
     \<and> store s' z = store s z
     \<and> (\<forall>m. dp s m l \<longrightarrow> dp s m R \<longrightarrow> (\<forall>f \<in> set fs. dp s m (fsib f))
          \<longrightarrow> dp s' m (plug fs (Nd l y c yv R)))"
proof -
  have d1: "distinct (addrs (Nd Lf y yc yv R) @ caddrs fs)" using d by auto
  have d2: "z \<notin> fst ` set (nodes (Nd Lf y yc yv R))" using d by auto
  have dc: "distinct (caddrs fs)" using d by simp
  have nf: "a \<notin> faddr ` set fs" if "a \<notin> fst ` set (nbefore fs @ nafter fs)" for a
    using that frame_in_ctx[of _ fs] by auto
  from transplant_aug_zctx[OF zc ry d1 d2] obtain s1 where
    s1: "transplant_aug (Ref z) (Ref y) s = Some s1" and z1: "zst_aug s1 fs (Nd Lf y yc yv R)"
    and f1: "\<And>a. a \<notin> faddr ` set fs \<Longrightarrow> a \<noteq> y \<Longrightarrow> store s1 a = store s a" by auto
  have zf: "z \<notin> faddr ` set fs" using d by (intro nf) auto
  have hz1: "store s1 z = store s z" using f1[OF zf] d by auto
  have fl1: "\<forall>a \<in> fst ` set (nodes l). store s1 a = store s a"
  proof
    fix a assume a: "a \<in> fst ` set (nodes l)"
    then have "a \<noteq> y" using d by auto
    moreover have "a \<notin> faddr ` set fs" using a d by (intro nf) auto
    ultimately show "store s1 a = store s a" using f1 by simp
  qed
  have fR1: "\<forall>a \<in> fst ` set (nodes R). store s1 a = store s a"
  proof
    fix a assume a: "a \<in> fst ` set (nodes R)"
    then have "a \<noteq> y" using d by auto
    moreover have "a \<notin> faddr ` set fs" using a d by (intro nf) auto
    ultimately show "store s1 a = store s a" using f1 by simp
  qed
  have fs1: "\<forall>a \<in> fst ` set (nodes (fsib f)). store s1 a = store s a" if f: "f \<in> set fs" for f
  proof
    fix a assume a: "a \<in> fst ` set (nodes (fsib f))"
    from sib_in_ctx[OF f a] have "a \<noteq> y" using d by auto
    moreover have "a \<notin> faddr ` set fs" using sib_not_frame[OF dc f a] .
    ultimately show "store s1 a = store s a" using f1 by simp
  qed
  from rel_aug_frame[OF fl1] rl have rl1: "rel_aug s1 (Ref z) l" by blast
  have r1: "left_child_aug (Ref z) s1 = Some (ptr_of l)" using hz hz1 by (simp add: acc_aug)
  have d3: "distinct (addrs l @ y # addrs R @ caddrs fs)" using d by simp
  from graft_left_aug[OF z1 rl1 l d3, of c] obtain s2 s3 s4 where
    s2: "set_left_child_aug (Ref y) (ptr_of l) s1 = Some s2"
    and r2: "left_child_aug (Ref y) s2 = Some (ptr_of l)"
    and s3: "set_parent_aug (ptr_of l) (Ref y) s2 = Some s3"
    and s4: "set_color_aug (Ref y) c s3 = Some s4"
    and z4: "zst_aug s4 fs (Nd l y c yv R)" and e4: "same_sz s1 s4"
    and f4: "\<And>a. a \<noteq> y \<Longrightarrow> Ref a \<noteq> ptr_of l \<Longrightarrow> store s3 a = store s1 a \<and> store s4 a = store s1 a"
    by blast
  have zl: "Ref z \<noteq> ptr_of l" using d by (cases l) auto
  have hz3: "store s3 z = store s z" "store s4 z = store s z" using f4[of z] zl d hz1 by auto
  have r3: "color_aug (Ref z) s3 = Some c" using hz hz3 by (simp add: acc_aug)
  have ln: "ptr_of l \<noteq> Nil" using l by (cases l) auto
  from recalc_size_dp[OF z4] obtain s5 where
    s5: "recalc_size (Ref y) s4 = Some s5" and z5: "zst_aug s5 fs (Nd l y c yv R)"
    and f5: "\<forall>b. b \<noteq> y \<longrightarrow> store s5 b = store s4 b" by blast
  from upward_zst[OF z5] obtain s6 s' where
    s6: "recalc_size (Ref y) s5 = Some s6" and u: "update_size_upwards (ptop fs) s6 = Some s'"
    and z': "zst_aug s' fs (Nd l y c yv R)"
    and f': "\<forall>b. b \<noteq> y \<longrightarrow> b \<notin> faddr ` set fs \<longrightarrow> store s' b = store s5 b"
    and dd: "\<forall>m. dp s5 m l \<longrightarrow> dp s5 m R \<longrightarrow> (\<forall>f \<in> set fs. dp s5 m (fsib f))
            \<longrightarrow> dp s' m (plug fs (Nd l y c yv R))" by blast
  from recalc_size_dp[OF z5] s6 have z6: "zst_aug s6 fs (Nd l y c yv R)" by auto
  have par: "parent_aug (Ref y) s6 = Some (ptop fs)" using zst_aug_reads(1)[OF z6] .
  have up: "update_size_upwards (Ref y) s5 = Some s'"
    using s6 par u by (subst update_size_upwards.simps) (simp add: is_nil_def)
  have hz': "store s' z = store s z" using f' f5 hz3 zf d by auto
  have fl5: "dp s5 m l = dp s m l" for m
  proof -
    have "dp s5 m l = dp s4 m l" by (rule dp_store_frame) (use f5 d in auto)
    also have "\<dots> = dp s1 m l" by (rule dp_same[OF e4])
    also have "\<dots> = dp s m l" by (rule dp_store_frame[OF fl1])
    finally show ?thesis .
  qed
  have fR5: "dp s5 m R = dp s m R" for m
  proof -
    have "dp s5 m R = dp s4 m R" by (rule dp_store_frame) (use f5 d in auto)
    also have "\<dots> = dp s1 m R" by (rule dp_same[OF e4])
    also have "\<dots> = dp s m R" by (rule dp_store_frame[OF fR1])
    finally show ?thesis .
  qed
  have fs5: "dp s5 m (fsib f) = dp s m (fsib f)" if f: "f \<in> set fs" for m f
  proof -
    have "dp s5 m (fsib f) = dp s4 m (fsib f)"
    proof (rule dp_store_frame, rule ballI)
      fix a assume a: "a \<in> fst ` set (nodes (fsib f))"
      from sib_in_ctx[OF f a] have "a \<noteq> y" using d by auto
      then show "store s5 a = store s4 a" using f5 by simp
    qed
    also have "\<dots> = dp s1 m (fsib f)" by (rule dp_same[OF e4])
    also have "\<dots> = dp s m (fsib f)" by (rule dp_store_frame[OF fs1[OF f]])
    finally show ?thesis .
  qed
  have dd': "\<forall>m. dp s m l \<longrightarrow> dp s m R \<longrightarrow> (\<forall>f \<in> set fs. dp s m (fsib f))
          \<longrightarrow> dp s' m (plug fs (Nd l y c yv R))"
    using dd fl5 fR5 fs5 by simp
  show ?thesis using s1 r1 s2 r2 s3 r3 s4 s5 up z' hz' dd' ln
    by (simp add: detach_replace_aug_def)
qed

lemma dp_whole_parts:
  assumes "dp s m (plug fs (Nd l z c v r))"
  shows "dp s m l" "dp s m r" "\<forall>f \<in> set fs. dp s m (fsib f)"
  using dp_plug_parts[OF assms] by auto

lemma detach_leaf_left_aug:
  assumes z: "zst_aug s fs (Nd Lf z c v r)"
  shows "\<exists>s'. detach_node (Ref z) s
        = Some (\<lparr>dr_fixup = ptr_of r, dr_parent = ptop fs, dr_removed_color = c\<rparr>, s')
     \<and> zst_aug s' fs r \<and> store s' z = store s z
     \<and> (\<forall>m. dp s m (plug fs (Nd Lf z c v r)) \<longrightarrow> dp s' m (plug fs r))"
proof -
  note rd = zst_aug_reads[OF z]
  have rr: "rel_aug s (Ref z) r" using z by (simp add: zst_aug_def)
  have d1: "distinct (addrs r @ caddrs fs)" and d2: "z \<notin> fst ` set (nodes r)"
    using zst_aug_distinct[OF z] by auto
  have zf: "z \<notin> faddr ` set fs" using zst_aug_distinct[OF z] frame_in_ctx[of _ fs] by auto
  from transplant_aug_zctx[OF zst_aug_zctx[OF z] rr d1 d2] obtain s1 where
    s1: "transplant_aug (Ref z) (ptr_of r) s = Some s1" and z1: "zst_aug s1 fs r"
    and f1: "\<And>a. a \<notin> faddr ` set fs \<Longrightarrow> Ref a \<noteq> ptr_of r \<Longrightarrow> store s1 a = store s a"
    and dd: "\<forall>m. dp s m r \<longrightarrow> (\<forall>f \<in> set fs. dp s m (fsib f)) \<longrightarrow> dp s1 m (plug fs r)" by auto
  have zr: "Ref z \<noteq> ptr_of r" using d2 by (cases r) auto
  have hz: "store s1 z = store s z" using f1[OF zf zr] .
  have c1: "color_aug (Ref z) s1 = Some c" using rd(2) hz by (simp add: acc_aug)
  have d: "\<forall>m. dp s m (plug fs (Nd Lf z c v r)) \<longrightarrow> dp s1 m (plug fs r)"
  proof (intro allI impI)
    fix m assume p: "dp s m (plug fs (Nd Lf z c v r))"
    from dp_whole_parts[OF p] dd show "dp s1 m (plug fs r)" by blast
  qed
  show ?thesis using rd s1 z1 hz c1 d hole_parent_aug[OF z1]
    by (simp add: detach_node_def detach_node_with_single_child_def is_nil_def del: dp.simps)
qed

lemma detach_leaf_right_aug:
  assumes z: "zst_aug s fs (Nd l z c v Lf)" and l: "l \<noteq> Lf"
  shows "\<exists>s'. detach_node (Ref z) s
        = Some (\<lparr>dr_fixup = ptr_of l, dr_parent = ptop fs, dr_removed_color = c\<rparr>, s')
     \<and> zst_aug s' fs l \<and> store s' z = store s z
     \<and> (\<forall>m. dp s m (plug fs (Nd l z c v Lf)) \<longrightarrow> dp s' m (plug fs l))"
proof -
  note rd = zst_aug_reads[OF z]
  have rr: "rel_aug s (Ref z) l" using z by (simp add: zst_aug_def)
  have d1: "distinct (addrs l @ caddrs fs)" and d2: "z \<notin> fst ` set (nodes l)"
    using zst_aug_distinct[OF z] by auto
  have zf: "z \<notin> faddr ` set fs" using zst_aug_distinct[OF z] frame_in_ctx[of _ fs] by auto
  from transplant_aug_zctx[OF zst_aug_zctx[OF z] rr d1 d2] obtain s1 where
    s1: "transplant_aug (Ref z) (ptr_of l) s = Some s1" and z1: "zst_aug s1 fs l"
    and f1: "\<And>a. a \<notin> faddr ` set fs \<Longrightarrow> Ref a \<noteq> ptr_of l \<Longrightarrow> store s1 a = store s a"
    and dd: "\<forall>m. dp s m l \<longrightarrow> (\<forall>f \<in> set fs. dp s m (fsib f)) \<longrightarrow> dp s1 m (plug fs l)" by auto
  have zr: "Ref z \<noteq> ptr_of l" using d2 by (cases l) auto
  have hz: "store s1 z = store s z" using f1[OF zf zr] .
  have c1: "color_aug (Ref z) s1 = Some c" using rd(2) hz by (simp add: acc_aug)
  have ln: "ptr_of l \<noteq> Nil" using l by (cases l) auto
  have d: "\<forall>m. dp s m (plug fs (Nd l z c v Lf)) \<longrightarrow> dp s1 m (plug fs l)"
  proof (intro allI impI)
    fix m assume p: "dp s m (plug fs (Nd l z c v Lf))"
    from dp_whole_parts[OF p] dd show "dp s1 m (plug fs l)" by blast
  qed
  show ?thesis using rd s1 z1 hz c1 d ln hole_parent_aug[OF z1]
    by (simp add: detach_node_def detach_node_with_single_child_def is_nil_def del: dp.simps)
qed

lemma hole_parent_aug_ne:
  "zst_aug s fs x \<Longrightarrow> ptr_of x \<noteq> Nil \<Longrightarrow> parent_aug (ptr_of x) s = Some (ptop fs)"
  by (cases x) (auto dest: zst_aug_reads(1))

lemma detach_succ_child_aug:
  assumes z: "zst_aug s fs (Nd l z c v (Nd Lf y yc yv yr))" and l: "l \<noteq> Lf"
  shows "\<exists>s'. detach_node (Ref z) s
        = Some (\<lparr>dr_fixup = ptr_of yr, dr_parent = Ref y, dr_removed_color = yc\<rparr>, s')
     \<and> zst_aug s' (RF l y c yv # fs) yr \<and> store s' z \<noteq> None
     \<and> (\<forall>m. dp s m (plug fs (Nd l z c v (Nd Lf y yc yv yr)))
            \<longrightarrow> dp s' m (plug (RF l y c yv # fs) yr))"
proof -
  note rd = zst_aug_reads[OF z]
  have ln: "ptr_of l \<noteq> Nil" using l by (cases l) auto
  have zy: "zst_aug s (RF l z c v # fs) (Nd Lf y yc yv yr)" using z by (simp add: zst_aug_up)
  note rdy = zst_aug_reads[OF zy]
  have mn: "minimum_aug (Ref y) s = Some (Ref y)" using rdy(3) by (subst minimum_aug.simps) simp
  have zyr: "zst_aug s (RF Lf y yc yv # RF l z c v # fs) yr" using zy by (simp add: zst_aug_up)
  from set_parent_aug_same[OF zyr] obtain s1 where
    s1: "(if ptr_of yr \<noteq> Nil then set_parent_aug (ptr_of yr) (Ref y) s else Some s) = Some s1"
    and z1: "zst_aug s1 (RF Lf y yc yv # RF l z c v # fs) yr"
    and e1: "same_sz s s1" by (auto cong: if_cong)
  have z1': "zst_aug s1 fs (Nd l z c v (Nd Lf y yc yv yr))" using z1 by (simp add: zst_aug_up)
  have rl1: "rel_aug s1 (Ref z) l" and ry1: "rel_aug s1 (Ref z) (Nd Lf y yc yv yr)"
    using z1' by (simp_all add: zst_aug_def)
  have d: "distinct (z # addrs l @ y # addrs yr @ caddrs fs)"
    using zst_aug_distinct[OF z1'] by auto
  from zst_aug_store[OF z1'] obtain k where
    hz: "store s1 z = Some \<lparr>n_base = \<lparr>n_color = c, n_left = ptr_of l, n_right = Ref y,
        n_parent = ptop fs, n_subtree_size = k\<rparr>, n_value = v\<rparr>" by auto
  from detach_replace_aug_zst[OF zst_aug_zctx[OF z1'] hz rl1 l ry1 d] obtain s2 where
    s2: "detach_replace_aug (Ref z) (Ref y) s1 = Some s2" and z2: "zst_aug s2 fs (Nd l y c yv yr)"
    and hz2: "store s2 z = store s1 z"
    and d2: "\<forall>m. dp s1 m l \<longrightarrow> dp s1 m yr \<longrightarrow> (\<forall>f \<in> set fs. dp s1 m (fsib f))
          \<longrightarrow> dp s2 m (plug fs (Nd l y c yv yr))" by blast
  have z2': "zst_aug s2 (RF l y c yv # fs) yr" using z2 by (simp add: zst_aug_up)
  have dd: "\<forall>m. dp s m (plug fs (Nd l z c v (Nd Lf y yc yv yr)))
            \<longrightarrow> dp s2 m (plug (RF l y c yv # fs) yr)"
  proof (intro allI impI)
    fix m assume p: "dp s m (plug fs (Nd l z c v (Nd Lf y yc yv yr)))"
    from dp_whole_parts[OF p] have "dp s m l" "dp s m yr" "\<forall>f \<in> set fs. dp s m (fsib f)" by auto
    then have "dp s1 m l" "dp s1 m yr" "\<forall>f \<in> set fs. dp s1 m (fsib f)"
      using dp_same[OF e1] by auto
    with d2 show "dp s2 m (plug (RF l y c yv # fs) yr)" by simp
  qed
  have nz: "store s2 z \<noteq> None" using hz hz2 by simp
  show ?thesis unfolding detach_node_def detach_node_with_successor_unfold
    using rd ln rdy mn s1 s2 z2' nz dd hole_parent_aug_ne[OF z2']
    by (simp add: is_nil_def del: dp.simps)
qed

lemma first_ptr_amin:
  assumes "amin [] t = (rfs, Nd Lf y yc yv yr)" "t \<noteq> Lf"
  shows "first_ptr (nodes t) = Ref y"
  using amin_first[OF assms(2), of "[]"] assms(1) by simp

lemma detach_succ_deep_aug:
  assumes z: "zst_aug s fs (Nd l z c v (plug rfs (Nd Lf y yc yv yr)))" and l: "l \<noteq> Lf"
    and rfs: "rfs \<noteq> []"
    and am: "amin [] (plug rfs (Nd Lf y yc yv yr)) = (rfs, Nd Lf y yc yv yr)"
  shows "\<exists>s'. detach_node (Ref z) s
        = Some (\<lparr>dr_fixup = ptr_of yr, dr_parent = ptop (rfs @ RF l y c yv # fs),
                 dr_removed_color = yc\<rparr>, s')
     \<and> zst_aug s' (rfs @ RF l y c yv # fs) yr \<and> store s' z \<noteq> None
     \<and> (\<forall>m. dp s m (plug fs (Nd l z c v (plug rfs (Nd Lf y yc yv yr))))
            \<longrightarrow> dp s' m (plug (rfs @ RF l y c yv # fs) yr))"
proof -
  let ?r = "plug rfs (Nd Lf y yc yv yr)"
  let ?F = "rfs @ RF l z c v # fs"
  let ?R = "plug rfs yr"
  note rd = zst_aug_reads[OF z]
  have ln: "ptr_of l \<noteq> Nil" using l by (cases l) auto
  have rne: "?r \<noteq> Lf" using plug_ctx_nonleaf[OF rfs] .
  have rn: "ptr_of ?r \<noteq> Nil" using rne by (cases ?r) auto
  have Rne: "?R \<noteq> Lf" using plug_ctx_nonleaf[OF rfs] .
  have Rn: "ptr_of ?R \<noteq> Nil" using Rne by (cases ?R) auto
  have zr: "zst_aug s (RF l z c v # fs) ?r" using z by (simp add: zst_aug_up)
  have rr: "rel_aug s (Ref z) ?r" using z by (simp add: zst_aug_def)
  have mn: "minimum_aug (ptr_of ?r) s = Some (Ref y)"
    using minimum_aug_rel[OF rr] first_ptr_amin[OF am rne] by simp
  have zy: "zst_aug s ?F (Nd Lf y yc yv yr)" using zr by (simp add: zst_aug_append)
  note rdy = zst_aug_reads[OF zy]
  have hin: "faddr (hd rfs) \<in> fst ` set (nodes ?r)"
    using hd_in_ctx[OF rfs] by (auto simp: nodes_plug)
  have zn: "z \<notin> fst ` set (nodes ?r)" using zst_aug_distinct[OF z] by auto
  have pne: "ptop ?F \<noteq> Ref z" "Ref z \<noteq> ptop ?F" using hin zn rfs by (cases rfs; auto)+
  have ryr: "rel_aug s (Ref y) yr" using zy by (simp add: zst_aug_def)
  have dy: "distinct (addrs yr @ caddrs ?F)" and yn: "y \<notin> fst ` set (nodes yr)"
    and yc: "y \<notin> fst ` set (nbefore ?F @ nafter ?F)"
    using zst_aug_distinct[OF zy] by auto
  from transplant_aug_zctx[OF zst_aug_zctx[OF zy] ryr dy yn] obtain s1 where
    s1: "transplant_aug (Ref y) (ptr_of yr) s = Some s1" and z1: "zst_aug s1 ?F yr"
    and f1: "\<And>a. a \<notin> faddr ` set ?F \<Longrightarrow> Ref a \<noteq> ptr_of yr \<Longrightarrow> store s1 a = store s a"
    and d1: "\<forall>m. dp s m yr \<longrightarrow> (\<forall>f \<in> set ?F. dp s m (fsib f)) \<longrightarrow> dp s1 m (plug ?F yr)" by auto
  have za: "zst_aug s1 fs (Nd l z c v ?R)" using z1 by (simp flip: zst_aug_append add: zst_aug_up)
  have yf: "y \<notin> faddr ` set ?F" using yc frame_in_ctx[of _ ?F] by blast
  have yyr: "Ref y \<noteq> ptr_of yr" using yn by (cases yr) auto
  from zst_aug_store[OF zy] obtain k where
    hy: "store s y = Some \<lparr>n_base = \<lparr>n_color = yc, n_left = Nil, n_right = ptr_of yr,
      n_parent = ptop ?F, n_subtree_size = k\<rparr>, n_value = yv\<rparr>" by auto
  have hy1: "store s1 y = Some \<lparr>n_base = \<lparr>n_color = yc, n_left = Nil, n_right = ptr_of yr,
      n_parent = ptop ?F, n_subtree_size = k\<rparr>, n_value = yv\<rparr>"
    using f1[OF yf yyr] hy by simp
  have r1: "right_child_aug (Ref z) s1 = Some (ptr_of ?R)" using zst_aug_reads(4)[OF za] .
  have yna: "y \<notin> fst ` set (nodes (plug fs (Nd l z c v ?R)))"
    using yc yn by (auto simp: nodes_plug nbefore_append nafter_append)
  from graft_right_aug[OF za Rne hy1 yna] obtain s2 s3 where
    s2: "set_right_child_aug (Ref y) (ptr_of ?R) s1 = Some s2"
    and r2: "right_child_aug (Ref y) s2 = Some (ptr_of ?R)"
    and s3: "set_parent_aug (ptr_of ?R) (Ref y) s2 = Some s3"
    and zc3: "zctx_aug s3 fs z" and hz3: "store s3 z = store s1 z" and rl3: "rel_aug s3 (Ref z) l"
    and ry3: "rel_aug s3 (ptop ?F) (Nd Lf y yc yv ?R)" and e3: "same_sz s1 s3" by blast
  from zst_aug_store[OF za] hz3 obtain k' where
    hz3': "store s3 z = Some \<lparr>n_base = \<lparr>n_color = c, n_left = ptr_of l, n_right = ptr_of ?R,
      n_parent = ptop fs, n_subtree_size = k'\<rparr>, n_value = v\<rparr>" by auto
  have d: "distinct (z # addrs l @ y # addrs ?R @ caddrs fs)"
    using zst_aug_distinct[OF za] yna by (auto simp: nodes_plug)
  from detach_replace_aug_zst[OF zc3 hz3' rl3 l ry3 d] obtain s4 where
    s4: "detach_replace_aug (Ref z) (Ref y) s3 = Some s4" and z4: "zst_aug s4 fs (Nd l y c yv ?R)"
    and hz4: "store s4 z = store s3 z"
    and d4: "\<forall>m. dp s3 m l \<longrightarrow> dp s3 m ?R \<longrightarrow> (\<forall>f \<in> set fs. dp s3 m (fsib f))
          \<longrightarrow> dp s4 m (plug fs (Nd l y c yv ?R))" by blast
  have z4': "zst_aug s4 (rfs @ RF l y c yv # fs) yr"
    using z4 by (simp flip: zst_aug_append add: zst_aug_up)
  have pt: "ptop (rfs @ RF l y c yv # fs) = ptop ?F" using rfs by (simp add: ptop_append)
  have nz: "store s4 z \<noteq> None" using hz3' hz4 by simp
  have dd: "\<forall>m. dp s m (plug fs (Nd l z c v ?r)) \<longrightarrow> dp s4 m (plug (rfs @ RF l y c yv # fs) yr)"
  proof (intro allI impI)
    fix m assume p: "dp s m (plug fs (Nd l z c v ?r))"
    then have "dp s m (plug ?F (Nd Lf y yc yv yr))" by (simp add: plug_append)
    from dp_whole_parts[OF this] d1 have "dp s1 m (plug ?F yr)" by blast
    then have "dp s1 m (plug fs (Nd l z c v ?R))" by (simp add: plug_append)
    from dp_whole_parts[OF this] have "dp s1 m l" "dp s1 m ?R" "\<forall>f \<in> set fs. dp s1 m (fsib f)"
      by auto
    then have "dp s3 m l" "dp s3 m ?R" "\<forall>f \<in> set fs. dp s3 m (fsib f)"
      using dp_same[OF e3] by auto
    with d4 have "dp s4 m (plug fs (Nd l y c yv ?R))" by blast
    then show "dp s4 m (plug (rfs @ RF l y c yv # fs) yr)" by (simp add: plug_append)
  qed
  have hp: "ptr_of yr \<noteq> Nil \<Longrightarrow> parent_aug (ptr_of yr) s4 = Some (ptop ?F)"
    using hole_parent_aug_ne[OF z4'] pt by simp
  show ?thesis unfolding detach_node_def detach_node_with_successor_unfold pt
    using rd ln rn rdy mn pne s1 r1 s2 r2 Rn s3 s4 z4' nz dd hp
    by (simp add: is_nil_def del: dp.simps)
qed

lemma detach_aug_zst:
  assumes z: "zst_aug s fs (Nd l z c v r)" and ad: "adetach fs (Nd l z c v r) = (fs', x', rc)"
  shows "\<exists>s'. detach_node (Ref z) s
        = Some (\<lparr>dr_fixup = ptr_of x', dr_parent = ptop fs', dr_removed_color = rc\<rparr>, s')
     \<and> zst_aug s' fs' x' \<and> store s' z \<noteq> None
     \<and> (\<forall>m. dp s m (plug fs (Nd l z c v r)) \<longrightarrow> dp s' m (plug fs' x'))"
proof (cases "l = Lf")
  case True
  then have e: "fs' = fs" "x' = r" "rc = c" using ad by auto
  have "store s z \<noteq> None" using zst_aug_store[OF z] by auto
  then show ?thesis unfolding e using detach_leaf_left_aug[OF z[unfolded True]] True by auto
next
  case False
  show ?thesis
  proof (cases "r = Lf")
    case True
    then have e: "fs' = fs" "x' = l" "rc = c" using ad False by auto
    have "store s z \<noteq> None" using zst_aug_store[OF z] by auto
    then show ?thesis unfolding e using detach_leaf_right_aug[OF z[unfolded True] False] True by auto
  next
    case F2: False
    obtain rfs t' where m: "amin [] r = (rfs, t')" by (cases "amin [] r")
    from amin_shape[OF m F2] obtain y yc yv yr where t': "t' = Nd Lf y yc yv yr" by auto
    have r: "r = plug rfs (Nd Lf y yc yv yr)" using amin_plug[OF m] t' by simp
    have e: "fs' = rfs @ RF l y c yv # fs" "x' = yr" "rc = yc"
      using ad False F2 m t' by auto
    show ?thesis
    proof (cases "rfs = []")
      case True
      show ?thesis unfolding e True
        using detach_succ_child_aug[OF z[unfolded r True, simplified] False] r True by simp
    next
      case F3: False
      show ?thesis unfolding e
        using detach_succ_deep_aug[OF z[unfolded r] False F3 m[unfolded t' r]] r by simp
    qed
  qed
qed

lemma delete_node_aug_zst:
  assumes "zst_aug s fs t" "z \<notin> fst ` set (nodes (plug fs t))" "store s z \<noteq> None"
  shows "\<exists>s'. delete_node_aug (Ref z) s = Some s' \<and> zst_aug s' fs t
     \<and> (\<forall>m. dp s m (plug fs t) \<longrightarrow> dp s' m (plug fs t))"
proof -
  let ?s = "s\<lparr>store := (store s)(z := None)\<rparr>"
  have d: "delete_node_aug (Ref z) s = Some ?s" using assms(3) by (auto simp: delete_node_aug_def)
  have "\<forall>a \<in> fst ` set (nodes t). store ?s a = store s a" using assms(2) by (auto simp: nodes_plug)
  from rel_aug_frame[OF this] have r: "rel_aug ?s (ptop fs) t = rel_aug s (ptop fs) t" .
  have "\<forall>a \<in> fst ` set (nbefore fs @ nafter fs). store ?s a = store s a"
    using assms(2) by (auto simp: nodes_plug)
  from crel_aug_frame[OF this] have c: "crel_aug ?s fs (ptr_of t) = crel_aug s fs (ptr_of t)" .
  have zz: "zst_aug ?s fs t" using assms(1) r c by (simp add: zst_aug_def)
  have "dp ?s m (plug fs t) = dp s m (plug fs t)" for m
    by (rule dp_store_frame) (use assms(2) in auto)
  then show ?thesis using d zz by simp
qed

lemma erase_aug_abs:
  assumes inv: "aug_inv s t"
  shows "\<exists>s'. erase_aug v s = Some (v \<in> set (vals t), s') \<and> aug_inv s' (aerase v t)"
proof (cases "alocate v [] t")
  case (Pair fs zt)
  from inv have a: "abs_aug s t" and rb: "rbt t" and bs: "bst t" and sz: "szs s t"
    and n0: "0 \<notin> fst ` set (nodes t)" by (simp_all add: aug_inv_def)
  note loc = locate_aug_abs[OF a, of v, unfolded Pair]
  note ex = alocate_exists[OF bs, of v, unfolded Pair]
  show ?thesis
  proof (cases zt)
    case Lf
    then show ?thesis using loc Pair inv ex by (simp add: erase_aug_def locate_result_def aerase_def)
  next
    case (Nd l z c x rt)
    have pl: "plug fs (Nd l z c x rt) = t" using alocate_plug[OF Pair] Nd by simp
    have z0: "zst_aug s fs (Nd l z c x rt)" using a pl by (simp flip: abs_aug_plug)
    have rp: "rbt (plug fs (Nd l z c x rt))" using rb pl by simp
    obtain fs' x' rc where d: "adetach fs (Nd l z c x rt) = (fs', x', rc)"
      by (cases "adetach fs (Nd l z c x rt)")
    from detach_aug_zst[OF z0 d] obtain s1 where
      s1: "detach_node (Ref z) s
        = Some (\<lparr>dr_fixup = ptr_of x', dr_parent = ptop fs', dr_removed_color = rc\<rparr>, s1)"
      and z1: "zst_aug s1 fs' x'" and hz: "store s1 z \<noteq> None"
      and d1: "\<forall>m. dp s m (plug fs (Nd l z c x rt)) \<longrightarrow> dp s1 m (plug fs' x')" by blast
    have "distinct (addrs (plug fs (Nd l z c x rt)))"
      using zst_aug_distinct[OF z0] by (auto simp: nodes_plug)
    then have zn: "z \<notin> fst ` set (nodes (plug fs' x'))"
      unfolding nodes_adetach[OF d] by (auto simp: nodes_plug)
    from delete_node_aug_zst[OF z1 zn hz] obtain s2 where
      s2: "delete_node_aug (Ref z) s1 = Some s2" and z2: "zst_aug s2 fs' x'"
      and d2: "\<forall>m. dp s1 m (plug fs' x') \<longrightarrow> dp s2 m (plug fs' x')" by blast
    let ?T = "if rc = BLACK then del_fix fs' x' else plug fs' x'"
    have "\<exists>s3. (if rc = BLACK then erase_fixup_aug (ptr_of x') (ptop fs') s2 else Some s2) = Some s3
        \<and> abs_aug s3 ?T \<and> (\<forall>m. dp s2 m (plug fs' x') \<longrightarrow> dp s3 m ?T)"
    proof (cases "rc = BLACK")
      case True
      have sb: "x' = Lf \<longrightarrow> fs' \<noteq> [] \<longrightarrow> fsib (hd fs') \<noteq> Lf"
        using adetach_inv(2)[OF rp d True] by blast
      from erase_fixup_aug_zst[OF z2 sb] True show ?thesis by simp
    next
      case False
      then show ?thesis using z2 by (simp add: abs_aug_plug)
    qed
    then obtain s3 where
      s3: "(if rc = BLACK then erase_fixup_aug (ptr_of x') (ptop fs') s2 else Some s2) = Some s3"
      and a3: "abs_aug s3 ?T" and d3: "\<forall>m. dp s2 m (plug fs' x') \<longrightarrow> dp s3 m ?T" by blast
    have rT: "rbt ?T"
    proof (cases "rc = BLACK")
      case True
      then show ?thesis using del_fix_rbt[OF adetach_inv(1)[OF rp d True]] by simp
    next
      case False
      then have "rc = RED" by (cases rc) auto
      from adetach_inv(3)[OF rp d this] False show ?thesis by simp
    qed
    have ae: "aerase v t = ?T"
      using Pair Nd d rbt_paint[OF rT] by (simp add: aerase_def del: adetach.simps)
    have vin: "v \<in> set (vals t)" using ex Nd by simp
    have sub: "fst ` set (nodes (aerase v t)) \<subseteq> fst ` set (nodes t)" using aerase_addrs[OF bs] .
    have n0': "0 \<notin> fst ` set (nodes (aerase v t))" using sub n0 by auto
    have "dp s 0 (plug fs (Nd l z c x rt))" using sz pl n0 by (simp add: dp_szs)
    then have "dp s3 0 ?T" using d1 d2 d3 by blast
    then have sz3: "szs s3 (aerase v t)" using n0' ae by (simp add: dp_szs)
    have a3': "abs_aug s3 (aerase v t)" using a3 ae by simp
    have "aug_inv s3 (aerase v t)"
      using a3' sz3 n0' aerase_rbt[OF rb] aerase_bst[OF bs] by (simp add: aug_inv_def)
    then show ?thesis using loc Pair Nd s1 s2 s3 vin
      by (simp add: erase_aug_def locate_result_def split: if_splits)
  qed
qed

section \<open>The augmented tree: sequences of calls\<close>

lemma aug_inv_new: "aug_inv Tree_aug_new Lf"
  by (simp add: aug_inv_def abs_aug_def zst_aug_def rbt_def bst_def Tree_aug_new_def)

lemma insert_aug_inv:
  assumes "aug_inv s t" "store s a = None" "a \<noteq> 0"
  shows "\<exists>s' t'. insert_aug v a s = Some (v \<notin> set (vals t), s') \<and> aug_inv s' t'
     \<and> set (vals t') = insert v (set (vals t))"
proof -
  from assms(1) have b: "bst t" by (simp add: aug_inv_def)
  from insert_aug_abs[OF assms, of v] ains_vals[OF b, of v a] show ?thesis by blast
qed

lemma erase_aug_inv:
  assumes "aug_inv s t"
  shows "\<exists>s' t'. erase_aug v s = Some (v \<in> set (vals t), s') \<and> aug_inv s' t'
     \<and> set (vals t') = set (vals t) - {v}"
proof -
  from assms(1) have b: "bst t" by (simp add: aug_inv_def)
  from erase_aug_abs[OF assms, of v] aerase_vals[OF b, of v] show ?thesis by blast
qed

lemma call_aug_inv:
  assumes "aug_inv s t" "fresh_aug c s"
  shows "\<exists>b s' t'. call_aug c s = Some (b, s') \<and> aug_inv s' t'
     \<and> set (vals t') = live [c] (set (vals t))"
proof (cases c)
  case (Insert v a)
  then show ?thesis using insert_aug_inv[OF assms(1), of a v] assms(2) by auto
next
  case (Erase v)
  then show ?thesis using erase_aug_inv[OF assms(1), of v] by auto
qed

lemma live_Cons: "live (c # cs) S = live cs (live [c] S)"
  by (cases c) auto

lemma run_inv_aug:
  "aug_inv s t \<Longrightarrow> alloc_ok_aug cs s
   \<Longrightarrow> \<exists>s' t'. run_calls_aug cs s = Some s' \<and> aug_inv s' t'
        \<and> set (vals t') = live cs (set (vals t))"
proof (induction cs arbitrary: s t)
  case Nil
  then show ?case by auto
next
  case (Cons c cs)
  from Cons.prems have f: "fresh_aug c s" by simp
  from call_aug_inv[OF Cons.prems(1) f] obtain b s1 t1 where
    c: "call_aug c s = Some (b, s1)" and i: "aug_inv s1 t1"
    and v: "set (vals t1) = live [c] (set (vals t))" by blast
  from Cons.prems(2) c have "alloc_ok_aug cs s1" by simp
  from Cons.IH[OF i this] show ?case using c v live_Cons[of c cs] by simp
qed

lemma alloc_ok_aug_take: "alloc_ok_aug cs s \<Longrightarrow> alloc_ok_aug (take n cs) s"
proof (induction cs arbitrary: n s)
  case Nil
  then show ?case by simp
next
  case (Cons c cs)
  show ?case
  proof (cases n)
    case 0
    then show ?thesis by simp
  next
    case (Suc m)
    then show ?thesis using Cons.prems Cons.IH[of _ m] by (auto split: option.splits)
  qed
qed

lemma reach_aug:
  assumes "alloc_ok_aug cs Tree_aug_new"
  shows "\<exists>s t. run_calls_aug cs Tree_aug_new = Some s \<and> aug_inv s t
     \<and> set (vals t) = live cs {}"
  using run_inv_aug[OF aug_inv_new assms] by simp

lemma walk_aug_zst:
  "zst_aug s fs t0 \<Longrightarrow> walk_aug s (ptr_of t0) ds = Some (Ref a)
   \<Longrightarrow> \<exists>fs' l c v r. zst_aug s fs' (Nd l a c v r) \<and> plug fs' (Nd l a c v r) = plug fs t0"
proof (induction ds arbitrary: fs t0)
  case Nil
  then obtain l c v r where "t0 = Nd l a c v r" by (cases t0) auto
  with Nil.prems(1) show ?case by blast
next
  case (Cons d ds)
  show ?case
  proof (cases t0)
    case Lf
    then show ?thesis using Cons.prems by (cases d) (simp_all add: acc_aug)
  next
    case (Nd l x c v r)
    note z = Cons.prems(1)[unfolded Nd]
    show ?thesis
    proof (cases d)
      case True
      have zl: "zst_aug s (LF x c v r # fs) l" using z by (simp add: zst_aug_up)
      from Cons.prems(2) have "walk_aug s (ptr_of l) ds = Some (Ref a)"
        using True Nd zst_aug_reads(3)[OF z] by simp
      from Cons.IH[OF zl this] show ?thesis using Nd by simp
    next
      case False
      have zr: "zst_aug s (RF l x c v # fs) r" using z by (simp add: zst_aug_up)
      from Cons.prems(2) have "walk_aug s (ptr_of r) ds = Some (Ref a)"
        using False Nd zst_aug_reads(4)[OF z] by simp
      from Cons.IH[OF zr this] show ?thesis using Nd by simp
    qed
  qed
qed

lemma node_links_aug:
  assumes z: "zst_aug s fs (Nd l a c v r)"
  shows "left_child_aug (Ref a) s = Some (Ref b) \<Longrightarrow> parent_aug (Ref b) s = Some (Ref a)"
    "right_child_aug (Ref a) s = Some (Ref b) \<Longrightarrow> parent_aug (Ref b) s = Some (Ref a)"
    "(parent_aug (Ref a) s = Some Nil) = (root_aug s = Ref a)"
proof -
  note rd = zst_aug_reads[OF z]
  have zl: "zst_aug s (LF a c v r # fs) l" and zr: "zst_aug s (RF l a c v # fs) r"
    using z by (simp_all add: zst_aug_up)
  show "parent_aug (Ref b) s = Some (Ref a)" if "left_child_aug (Ref a) s = Some (Ref b)"
  proof -
    from that rd(3) obtain ll lc lv lr where "l = Nd ll b lc lv lr" by (cases l) auto
    then show ?thesis using zst_aug_reads(1)[of s "LF a c v r # fs" ll b lc lv lr] zl by simp
  qed
  show "parent_aug (Ref b) s = Some (Ref a)" if "right_child_aug (Ref a) s = Some (Ref b)"
  proof -
    from that rd(4) obtain rl rc rv rr where "r = Nd rl b rc rv rr" by (cases r) auto
    then show ?thesis using zst_aug_reads(1)[of s "RF l a c v # fs" rl b rc rv rr] zr by simp
  qed
  have "(ptop fs = Nil) = (fs = [])" by (cases fs) auto
  then show "(parent_aug (Ref a) s = Some Nil) = (root_aug s = Ref a)"
    using rd(1) zst_aug_root_neq[OF z] by auto
qed

lemma szs_plug_sub: "szs s (plug fs t) \<Longrightarrow> szs s t"
proof (induction fs arbitrary: t)
  case Nil
  then show ?case by simp
next
  case (Cons f fs)
  from Cons.IH[of "plug1 f t"] Cons.prems show ?case by (cases f) auto
qed

lemma cons_aug_zst:
  assumes z: "zst_aug s fs (Nd l a c v r)" and sz: "szs s (plug fs (Nd l a c v r))"
  shows "cons_aug s (Ref a)"
    "subtree_size_aug (Ref a) s = Some (of_nat (length (nodes (Nd l a c v r))))"
proof -
  note rd = zst_aug_reads[OF z]
  from szs_plug_sub[OF sz] have k: "subtree_size_aug (Ref a) s
      = Some (of_nat (Suc (length (nodes l) + length (nodes r))))"
    and sl: "szs s l" and sr: "szs s r" by auto
  show "cons_aug s (Ref a)"
    using k rd(3,4) nodes_len_szs[OF sl] nodes_len_szs[OF sr] by (simp add: cons_aug_def)
  show "subtree_size_aug (Ref a) s = Some (of_nat (length (nodes (Nd l a c v r))))"
    using k by simp
qed

lemma walk_aug_inv:
  assumes i: "aug_inv s t" and w: "walk_aug s (root_aug s) ds = Some (Ref a)"
  shows "\<exists>fs l c v r. zst_aug s fs (Nd l a c v r) \<and> plug fs (Nd l a c v r) = t"
proof -
  from i have z: "zst_aug s [] t" by (simp add: aug_inv_def abs_aug_def)
  then have "root_aug s = ptr_of t" by (simp add: zst_aug_def)
  with walk_aug_zst[OF z, of ds a] w show ?thesis by auto
qed

section \<open>The claims\<close>


lemma ex_inv: "tree_inv ex_state ex_tree"
  by (simp add: tree_inv_def abs_tree_def zst_def nil_ok_def rbt_def bst_def ex_tree_def ex_state_def)

lemma rank_counts:
  assumes "tree_inv s t"
  shows "rank_lower_bound v s = Some (of_nat (length (filter (\<lambda>x. x < v) (vals t))))"
    "rank_upper_bound v s = Some (of_nat (length (filter (\<lambda>x. x \<le> v) (vals t))))"
    "length (filter P (vals t)) < 2 ^ 64"
    "unat (of_nat (length (filter P (vals t))) :: 64 word) = length (filter P (vals t))"
    "length (filter P (vals t)) = card {x \<in> set (vals t). P x}"
proof -
  from assms have a: "abs_tree s t" and b: "bst t" and z: "0 \<notin> fst ` set (nodes t)"
    by (simp_all add: tree_inv_def)
  have d: "distinct (addrs t)" using a by (simp add: abs_tree_rel)
  show "rank_lower_bound v s = Some (of_nat (length (filter (\<lambda>x. x < v) (vals t))))"
    by (rule rank_lower_bound_abs[OF a b])
  show "rank_upper_bound v s = Some (of_nat (length (filter (\<lambda>x. x \<le> v) (vals t))))"
    by (rule rank_upper_bound_abs[OF a b])
  show "length (filter P (vals t)) < 2 ^ 64" by (rule filter_count_bound[OF d z])
  show "unat (of_nat (length (filter P (vals t))) :: 64 word) = length (filter P (vals t))"
    by (rule unat_count[OF d z])
  show "length (filter P (vals t)) = card {x \<in> set (vals t). P x}"
    by (rule count_filter_card[OF b])
qed

text \<open>
  C4. On every state that holds a red-black search tree, \<open>rank_lower_bound v\<close> returns the
  number of stored elements below \<open>v\<close>, which is the index in the in-order sequence where
  \<open>v\<close> stands or would be inserted, and \<open>rank_upper_bound v\<close> returns the number of
  stored elements not above \<open>v\<close>.
\<close>

theorem C4_rank_bounds:
  assumes "tree_inv s t"
  shows "\<exists>lo hi. rank_lower_bound v s = Some lo \<and> rank_upper_bound v s = Some hi
     \<and> unat lo = card {x \<in> set (vals t). x < v}
     \<and> unat lo = length (takeWhile (\<lambda>x. x < v) (vals t))
     \<and> unat hi = card {x \<in> set (vals t). x \<le> v}"
proof -
  note rc = rank_counts[OF assms]
  have "bst t" using assms by (simp add: tree_inv_def)
  then have "length (filter (\<lambda>x. x < v) (vals t)) = length (takeWhile (\<lambda>x. x < v) (vals t))"
    by (simp add: bst_def sorted_filter_takeWhile)
  then show ?thesis
    using rc(1)[of v] rc(2)[of v] rc(4)[of "\<lambda>x. x < v"] rc(4)[of "\<lambda>x. x \<le> v"]
      rc(5)[of "\<lambda>x. x < v"] rc(5)[of "\<lambda>x. x \<le> v"]
    by simp
qed

theorem C4_rank_bounds_witness:
  "tree_inv ex_state ex_tree
   \<and> (\<exists>lo hi. rank_lower_bound 20 ex_state = Some lo \<and> rank_upper_bound 20 ex_state = Some hi
        \<and> unat lo = 1 \<and> unat hi = 2)"
proof -
  from C4_rank_bounds[OF ex_inv, of 20] obtain lo hi where
    r: "rank_lower_bound 20 ex_state = Some lo" "rank_upper_bound 20 ex_state = Some hi"
    and lo: "unat lo = length (takeWhile (\<lambda>x. x < 20) (vals ex_tree))"
    and hi: "unat hi = card {x \<in> set (vals ex_tree). x \<le> 20}" by blast
  have "unat lo = 1" using lo by (simp add: ex_tree_def)
  moreover have "unat hi = 2"
    using hi rank_counts(5)[OF ex_inv, of "\<lambda>x. x \<le> 20"] by (simp add: ex_tree_def)
  ultimately show ?thesis using r ex_inv by blast
qed



lemma count_less_mono:
  fixes xs :: "'a::linorder list"
  shows "lo \<le> hi \<Longrightarrow> length (filter (\<lambda>x. x < lo) xs) \<le> length (filter (\<lambda>x. x < hi) xs)"
  by (induction xs) auto

lemma dec_small: "dec 1 = ''1''" "dec 0 = ''0''"
  by code_simp+

text \<open>
  C8. In the command interpreter a query \<open>q left right\<close> emits the number of stored
  integers \<open>x\<close> with \<open>left < x \<le> right\<close> when \<open>right > left\<close>, and 0 otherwise, so
  also when \<open>right = left\<close> and that value is stored: the left end is not counted.
\<close>

theorem C8_query_excludes_left:
  assumes "tree_inv s t"
  shows "handle_query s left right first_output output =
     Some (False, (if first_output then output else output @ '' '')
             @ dec (of_nat (if left < right
                            then card {x \<in> set (vals t). left < x \<and> x \<le> right} else 0)))"
proof -
  note rc = rank_counts[OF assms]
  define R where "R = length (filter (\<lambda>x. x \<le> right) (vals t))"
  define L where "L = length (filter (\<lambda>x. x \<le> left) (vals t))"
  define K where "K = card {x \<in> set (vals t). left < x \<and> x \<le> right}"
  have rr: "rank_upper_bound right s = Some (of_nat R)" unfolding R_def by (rule rc(2))
  have rl: "rank_upper_bound left s = Some (of_nat L)" unfolding L_def by (rule rc(2))
  have lt: "((of_nat L :: 64 word) < of_nat R) = (L < R)"
    unfolding L_def R_def by (rule word_of_nat_less[OF rc(3) rc(3)])
  have goal: "handle_query s left right first_output output =
     Some (False, (if first_output then output else output @ '' '')
             @ dec (of_nat (if left < right then K else 0)))"
  proof (cases "left < right")
    case False
    then show ?thesis by (simp add: handle_query_def)
  next
    case True
    then have le: "left \<le> right" by simp
    from count_range[OF le, of "vals t"] have d: "R - L = K" and m: "L \<le> R"
      unfolding R_def L_def K_def rc(5)[symmetric] by blast+
    have df: "(of_nat R :: 64 word) - of_nat L = of_nat K"
      using word_of_nat_diff[OF m] d by simp
    show ?thesis
    proof (cases "L < R")
      case T2: True
      then show ?thesis using True rr rl lt df by (simp add: handle_query_def)
    next
      case F2: False
      with m d have "K = 0" by simp
      then show ?thesis using True F2 rr rl lt by (simp add: handle_query_def)
    qed
  qed
  then show ?thesis unfolding K_def .
qed

theorem C8_query_excludes_left_witness:
  "tree_inv ex_state ex_tree
   \<and> handle_query ex_state 10 20 True [] = Some (False, ''1'')
   \<and> handle_query ex_state 20 20 True [] = Some (False, ''0'')"
proof -
  have c1: "card {x \<in> set (vals ex_tree). 10 < x \<and> x \<le> 20} = 1"
    using rank_counts(5)[OF ex_inv, of "\<lambda>x. 10 < x \<and> x \<le> 20"] by (simp add: ex_tree_def)
  show ?thesis
    using C8_query_excludes_left[OF ex_inv, of 10 20 True "[]"]
      C8_query_excludes_left[OF ex_inv, of 20 20 True "[]"] ex_inv
    unfolding c1 by (simp add: dec_small)
qed

lemma distance_abs:
  assumes "tree_inv s t"
  shows "\<exists>d hr lr. distance lo hi s = Some d \<and> rank_upper_bound hi s = Some hr
     \<and> rank_upper_bound lo s = Some lr
     \<and> (lo \<in> set (vals t) \<and> hi \<in> set (vals t) \<and> lo \<le> hi \<longrightarrow>
          d = hr - lr \<and> unat d = card {x \<in> set (vals t). lo < x \<and> x \<le> hi})
     \<and> (lo \<in> set (vals t) \<and> hi \<in> set (vals t) \<and> hi < lo \<longrightarrow> d = 0)
     \<and> (lo \<notin> set (vals t) \<or> hi \<notin> set (vals t) \<longrightarrow> d = size_max)"
proof -
  note rc = rank_counts[OF assms]
  from assms have a: "abs_tree s t" and b: "bst t" by (simp_all add: tree_inv_def)
  have dv: "distinct (vals t)" by (rule bst_distinct[OF b])
  from locate_exists[OF a b, of lo] obtain r1 where
    r1: "locate lo s = Some r1" "lr_exists r1 = (lo \<in> set (vals t))" by blast
  from locate_exists[OF a b, of hi] obtain r2 where
    r2: "locate hi s = Some r2" "lr_exists r2 = (hi \<in> set (vals t))" by blast
  define A where "A = length (filter (\<lambda>x. x < lo) (vals t))"
  define B where "B = length (filter (\<lambda>x. x < hi) (vals t))"
  define R where "R = length (filter (\<lambda>x. x \<le> hi) (vals t))"
  define L where "L = length (filter (\<lambda>x. x \<le> lo) (vals t))"
  define K where "K = card {x \<in> set (vals t). lo < x \<and> x \<le> hi}"
  define S where "S = set (vals t)"
  have rlo: "rank_lower_bound lo s = Some (of_nat A)" unfolding A_def by (rule rc(1))
  have rhi: "rank_lower_bound hi s = Some (of_nat B)" unfolding B_def by (rule rc(1))
  have uhi: "rank_upper_bound hi s = Some (of_nat R)" unfolding R_def by (rule rc(2))
  have ulo: "rank_upper_bound lo s = Some (of_nat L)" unfolding L_def by (rule rc(2))
  have le: "((of_nat B :: 64 word) \<le> of_nat A) = (B \<le> A)"
    unfolding A_def B_def by (rule word_of_nat_le[OF rc(3) rc(3)])
  have ex: "lr_exists r1 = (lo \<in> S)" "lr_exists r2 = (hi \<in> S)" using r1 r2 by (simp_all add: S_def)
  have goal: "\<exists>d. distance lo hi s = Some d
     \<and> (lo \<in> S \<and> hi \<in> S \<and> lo \<le> hi \<longrightarrow> d = of_nat R - of_nat L \<and> unat d = K)
     \<and> (lo \<in> S \<and> hi \<in> S \<and> hi < lo \<longrightarrow> d = 0)
     \<and> (lo \<notin> S \<or> hi \<notin> S \<longrightarrow> d = size_max)"
  proof (cases "lo \<in> S \<and> hi \<in> S")
    case False
    then show ?thesis using r1(1) r2(1) ex by (auto simp: distance_def)
  next
    case True
    then have RL: "R = Suc B" "L = Suc A"
      using count_le_split[OF dv] unfolding R_def B_def L_def A_def S_def by blast+
    show ?thesis
    proof (cases "lo \<le> hi")
      case F2: False
      then have "B \<le> A" unfolding A_def B_def by (intro count_less_mono) simp
      then show ?thesis using True F2 r1(1) r2(1) ex rlo rhi le
        by (simp add: distance_def)
    next
      case T2: True
      then have nl: "\<not> hi < lo" by simp
      from count_range[OF T2, of "vals t"] have d: "R - L = K" and m: "L \<le> R"
        unfolding R_def L_def K_def rc(5)[symmetric] by blast+
      have m': "A \<le> B" using m RL by simp
      have k: "B - A = K" using d RL by simp
      have bd: "K < 2 ^ 64" using rc(3)[of "\<lambda>x. x < hi"] k unfolding B_def by simp
      have un: "unat (of_nat K :: 64 word) = K"
        by (rule of_nat_inverse[OF refl]) (use bd in simp)
      have e2: "(of_nat B :: 64 word) - of_nat A = of_nat K"
        using word_of_nat_diff[OF m'] k by simp
      have e1: "(of_nat R :: 64 word) - of_nat L = of_nat K"
        unfolding RL using e2 by simp
      show ?thesis
      proof (cases "B \<le> A")
        case T3: True
        with m' k have "K = 0" by simp
        then show ?thesis
          using True T2 nl T3 r1(1) r2(1) ex rlo rhi le e1
          by (simp add: distance_def)
      next
        case F3: False
        then show ?thesis
          using True T2 nl r1(1) r2(1) ex rlo rhi le e1 e2 un
          by (simp add: distance_def)
      qed
    qed
  qed
  then show ?thesis using uhi ulo unfolding S_def K_def by blast
qed

lemma distance_aug_reach:
  assumes "alloc_ok_aug cs Tree_aug_new"
  shows "\<exists>sa d. run_calls_aug cs Tree_aug_new = Some sa \<and> distance_aug lo hi sa = Some d
     \<and> (lo \<le> hi \<longrightarrow>
          (\<exists>r1 r2. rank_comp_bound lo compare_lower_bound sa = Some r1
             \<and> rank_comp_bound hi compare_upper_bound sa = Some r2 \<and> d = r2 - r1
             \<and> unat r1 = card {x \<in> live cs {}. x < lo}
             \<and> unat r2 = card {x \<in> live cs {}. x \<le> hi})
          \<and> unat d = card {x \<in> live cs {}. lo \<le> x \<and> x \<le> hi})
     \<and> (hi < lo \<longrightarrow> d = 0)"
proof -
  from reach_aug[OF assms] obtain sa t where
    r: "run_calls_aug cs Tree_aug_new = Some sa" and i: "aug_inv sa t"
    and v: "set (vals t) = live cs {}" by blast
  show ?thesis
  proof (cases "hi < lo")
    case True
    then show ?thesis using r by (auto simp: distance_aug_def)
  next
    case False
    from distance_aug_abs[OF i False] v show ?thesis using r False by auto
  qed
qed

text \<open>
  C3, corrected. \<open>distance lo hi\<close> of the sentinel tree answers only for two stored
  values: then it returns \<open>rank_upper_bound hi - rank_upper_bound lo\<close>, the number of
  stored \<open>x\<close> with \<open>lo < x \<le> hi\<close>, when \<open>lo \<le> hi\<close>, and 0 when \<open>hi < lo\<close>. When
  \<open>lo\<close> or \<open>hi\<close> is not stored it returns the largest \<open>size_t\<close>, whatever their order.
  \<open>distance lo hi\<close> of the augmented tree of unnamed/part\_003, after every sequence of
  \<open>insert\<close> and \<open>erase\<close> calls from the empty tree, returns for \<open>lo \<le> hi\<close> the rank
  with \<open>compare_upper_bound\<close> at \<open>hi\<close> minus the rank with \<open>compare_lower_bound\<close> at
  \<open>lo\<close>, the number of stored \<open>x\<close> with \<open>lo \<le> x \<le> hi\<close>, stored or not the two
  arguments are; and 0 when \<open>hi < lo\<close>. It has no other result.
\<close>

theorem C3_distance:
  "(tree_inv s t \<longrightarrow>
      (\<exists>d hr lr. distance lo hi s = Some d \<and> rank_upper_bound hi s = Some hr
         \<and> rank_upper_bound lo s = Some lr
         \<and> (lo \<in> set (vals t) \<and> hi \<in> set (vals t) \<and> lo \<le> hi \<longrightarrow>
              d = hr - lr \<and> unat d = card {x \<in> set (vals t). lo < x \<and> x \<le> hi})
         \<and> (lo \<in> set (vals t) \<and> hi \<in> set (vals t) \<and> hi < lo \<longrightarrow> d = 0)
         \<and> (lo \<notin> set (vals t) \<or> hi \<notin> set (vals t) \<longrightarrow> d = size_max)))
   \<and> (alloc_ok_aug cs Tree_aug_new \<longrightarrow>
      (\<exists>sa d. run_calls_aug cs Tree_aug_new = Some sa \<and> distance_aug lo hi sa = Some d
         \<and> (lo \<le> hi \<longrightarrow>
              (\<exists>r1 r2. rank_comp_bound lo compare_lower_bound sa = Some r1
                 \<and> rank_comp_bound hi compare_upper_bound sa = Some r2 \<and> d = r2 - r1
                 \<and> unat r1 = card {x \<in> live cs {}. x < lo}
                 \<and> unat r2 = card {x \<in> live cs {}. x \<le> hi})
              \<and> unat d = card {x \<in> live cs {}. lo \<le> x \<and> x \<le> hi})
         \<and> (hi < lo \<longrightarrow> d = 0)))"
  using distance_abs[of s t lo hi] distance_aug_reach[of cs lo hi] by blast

theorem C3_distance_witness:
  "tree_inv ex_state ex_tree
   \<and> (\<exists>d. distance 10 30 ex_state = Some d \<and> unat d = 2)
   \<and> distance 30 10 ex_state = Some 0 \<and> distance 10 25 ex_state = Some size_max
   \<and> alloc_ok_aug ex_calls Tree_aug_new
   \<and> (\<exists>sa d. run_calls_aug ex_calls Tree_aug_new = Some sa
        \<and> distance_aug 10 30 sa = Some d \<and> unat d = 3)
   \<and> (\<exists>sa. run_calls_aug ex_calls Tree_aug_new = Some sa \<and> distance_aug 30 10 sa = Some 0)
   \<and> (\<exists>sa d. run_calls_aug ex_calls Tree_aug_new = Some sa
        \<and> distance_aug 10 25 sa = Some d \<and> unat d = 2)"
proof -
  have v: "snd ` set (nodes ex_tree) = {10, 20, 30}" by (auto simp: ex_tree_def)
  have c: "card {x \<in> set (vals ex_tree). 10 < x \<and> x \<le> 30} = 2"
    using rank_counts(5)[OF ex_inv, of "\<lambda>x. 10 < x \<and> x \<le> 30"] by (simp add: ex_tree_def)
  have ok: "alloc_ok_aug ex_calls Tree_aug_new" by code_simp
  have lv: "live ex_calls {} = {10, 25, 30}" by (auto simp: ex_calls_def)
  have k1: "{x \<in> {10, 25, 30 :: int}. 10 \<le> x \<and> x \<le> 30} = {10, 25, 30}" by auto
  have k2: "{x \<in> {10, 25, 30 :: int}. 10 \<le> x \<and> x \<le> 25} = {10, 25}" by auto
  from C3_distance[of ex_state ex_tree 10 30 ex_calls] ex_inv ok
  have "\<exists>d. distance 10 30 ex_state = Some d \<and> unat d = 2"
    and "\<exists>sa d. run_calls_aug ex_calls Tree_aug_new = Some sa
        \<and> distance_aug 10 30 sa = Some d \<and> unat d = 3"
    unfolding c lv k1 by (auto simp: v)
  moreover from C3_distance[of ex_state ex_tree 30 10 ex_calls] ex_inv ok
  have "distance 30 10 ex_state = Some 0"
    and "\<exists>sa. run_calls_aug ex_calls Tree_aug_new = Some sa \<and> distance_aug 30 10 sa = Some 0"
    by (auto simp: v)
  moreover from C3_distance[of ex_state ex_tree 10 25 ex_calls] ex_inv ok
  have "distance 10 25 ex_state = Some size_max"
    and "\<exists>sa d. run_calls_aug ex_calls Tree_aug_new = Some sa
        \<and> distance_aug 10 25 sa = Some d \<and> unat d = 2"
    unfolding lv k2 by (auto simp: v)
  ultimately show ?thesis using ex_inv ok by simp
qed

text \<open>
  The claim C3 as stated fails for both trees. Sentinel tree: with 10, 20 and 30
  stored, \<open>distance 10 25\<close> is the largest \<open>size_t\<close>, while the two upper ranks differ
  by 1. Augmented tree: after \<open>insert(20)\<close>, \<open>insert(10)\<close>, \<open>insert(30)\<close> the call
  \<open>distance 20 20\<close> returns 1, the stored 20 itself, while the upper rank of 20 minus
  the upper rank of 20 is 0; and \<open>distance 10 25\<close> returns 2 where the two upper ranks,
  2 and 1, differ by 1.
\<close>

theorem C3_distance_counterexample:
  "distance 10 25 ex_state = Some size_max \<and> rank_upper_bound 25 ex_state = Some 2
   \<and> rank_upper_bound 10 ex_state = Some 1 \<and> (10::int) \<le> 25 \<and> size_max \<noteq> 2 - 1
   \<and> do { sa \<leftarrow> run_calls_aug [Insert 20 2, Insert 10 1, Insert 30 3] Tree_aug_new;
          distance_aug (20::int) 20 sa } = Some 1
   \<and> do { sa \<leftarrow> run_calls_aug [Insert 20 2, Insert 10 1, Insert 30 3] Tree_aug_new;
          rank_comp_bound (20::int) compare_upper_bound sa } = Some 2
   \<and> (20::int) \<le> 20 \<and> (1 :: size_t) \<noteq> 2 - 2
   \<and> do { sa \<leftarrow> run_calls_aug [Insert 20 2, Insert 10 1, Insert 30 3] Tree_aug_new;
          distance_aug (10::int) 25 sa } = Some 2
   \<and> do { sa \<leftarrow> run_calls_aug [Insert 20 2, Insert 10 1, Insert 30 3] Tree_aug_new;
          rank_comp_bound (25::int) compare_upper_bound sa } = Some 2
   \<and> do { sa \<leftarrow> run_calls_aug [Insert 20 2, Insert 10 1, Insert 30 3] Tree_aug_new;
          rank_comp_bound (10::int) compare_upper_bound sa } = Some 1
   \<and> (2 :: size_t) \<noteq> 2 - 1"
  by code_simp


text \<open>
  C2. The interpreter does not count the left end of a query: after \<open>k 2 k 3\<close> the
  query \<open>q 2 3\<close> emits 1, while two stored integers lie in the inclusive range. On the
  input of the second test of tests/rb\_cli\_test.cpp it writes \<open>0 0 0 0 0 0 0 1 0 2\<close>
  where the test expects \<open>0 0 0 0 0 0 0 2 0 3\<close>. The sample input of the claim gives
  \<open>2 0 3\<close>, as stated.
\<close>

theorem C2_cli_left_end_not_counted:
  "run_cli (\<lambda>n. of_nat (Suc n)) ''k 2 k 3 q 2 3'' = Some (0, ''1'' @ [CHR 0x0A], [])
   \<and> length (filter (\<lambda>x. 2 \<le> x \<and> x \<le> 3) [2, 3 :: int]) = 2
   \<and> run_cli (\<lambda>n. of_nat (Suc n))
        (''k 10 q 2 7 q 3 9 k 1 k 2 k 0 k 6 q 7 2 k 10 q 3 1 q 5 3 q 9 4 k 2 q 7 8 ''
         @ ''k 2 k 3 k 1 q 2 3 q 6 1 q 2 9'' @ [CHR 0x0A])
       = Some (0, ''0 0 0 0 0 0 0 1 0 2'' @ [CHR 0x0A], [])
   \<and> run_cli (\<lambda>n. of_nat (Suc n)) (''k 10 k 20 q 8 31 q 6 9 k 30 k 40 q 15 40'' @ [CHR 0x0A])
       = Some (0, ''2 0 3'' @ [CHR 0x0A], [])"
  by code_simp

lemma tree_inv_new: "tree_inv Tree_new Lf"
  by (simp add: tree_inv_def abs_tree_def zst_def nil_ok_def rbt_def bst_def Tree_new_def
      reset_nil_links_def)

lemma insert_inv:
  assumes "tree_inv s t" "heap s a = None" "a \<noteq> 0"
  shows "\<exists>s'. insert_rb v a s = Some (v \<notin> set (vals t), s') \<and> tree_inv s' (ains v a t)
     \<and> set (vals (ains v a t)) = insert v (set (vals t)) \<and> (v \<in> set (vals t) \<longrightarrow> s' = s)"
proof -
  from assms(1) have a: "abs_tree s t" and r: "rbt t" and b: "bst t"
    and z: "0 \<notin> fst ` set (nodes t)" by (simp_all add: tree_inv_def)
  from insert_rb_abs[OF a r assms(2), of v] obtain s' where
    i: "insert_rb v a s = Some (snd (alocate v [] t) = Lf, s')" and a': "abs_tree s' (ains v a t)"
    and u: "snd (alocate v [] t) \<noteq> Lf \<longrightarrow> s' = s" by blast
  have e: "(snd (alocate v [] t) = Lf) = (v \<notin> set (vals t))"
    using alocate_exists[OF b, of v] by blast
  have "0 \<notin> fst ` set (nodes (ains v a t))"
    using ains_addrs[OF b, of v a] z assms(3) by (auto split: if_splits)
  then have "tree_inv s' (ains v a t)"
    using a' ains_rbt[OF r] ains_bst[OF b] by (simp add: tree_inv_def)
  then show ?thesis using i u e ains_vals[OF b, of v a] by auto
qed

lemma erase_inv:
  assumes "tree_inv s t"
  shows "\<exists>s'. erase v s = Some (v \<in> set (vals t), s') \<and> tree_inv s' (aerase v t)
     \<and> set (vals (aerase v t)) = set (vals t) - {v} \<and> (v \<notin> set (vals t) \<longrightarrow> s' = s)"
proof -
  from assms(1) have a: "abs_tree s t" and r: "rbt t" and b: "bst t"
    and z: "0 \<notin> fst ` set (nodes t)" by (simp_all add: tree_inv_def)
  from erase_abs[OF a r, of v] obtain s' where
    i: "erase v s = Some (snd (alocate v [] t) \<noteq> Lf, s')" and a': "abs_tree s' (aerase v t)"
    and u: "snd (alocate v [] t) = Lf \<longrightarrow> s' = s" by blast
  have e: "(snd (alocate v [] t) \<noteq> Lf) = (v \<in> set (vals t))"
    using alocate_exists[OF b, of v] by blast
  have "0 \<notin> fst ` set (nodes (aerase v t))"
    using aerase_addrs[OF b, of v] z by auto
  then have "tree_inv s' (aerase v t)"
    using a' aerase_rbt[OF r] aerase_bst[OF b] by (simp add: tree_inv_def)
  then show ?thesis using i u e aerase_vals[OF b, of v] by auto
qed

lemma call_inv:
  assumes "tree_inv s t" "fresh_for c s"
  shows "\<exists>b s' t'. call_rb c s = Some (b, s') \<and> tree_inv s' t'"
proof (cases c)
  case (Insert v a)
  then show ?thesis using insert_inv[OF assms(1), of a v] assms(2) by auto
next
  case (Erase v)
  then show ?thesis using erase_inv[OF assms(1), of v] by auto
qed

lemma run_inv:
  "tree_inv s t \<Longrightarrow> alloc_ok cs s \<Longrightarrow> \<exists>s' t'. run_calls cs s = Some s' \<and> tree_inv s' t'"
proof (induction cs arbitrary: s t)
  case Nil
  then show ?case by auto
next
  case (Cons c cs)
  from Cons.prems have f: "fresh_for c s" by simp
  from call_inv[OF Cons.prems(1) f] obtain b s1 t1 where
    c: "call_rb c s = Some (b, s1)" and i: "tree_inv s1 t1" by blast
  from Cons.prems(2) c have "alloc_ok cs s1" by simp
  from Cons.IH[OF i this] show ?case using c by simp
qed

lemma alloc_ok_take: "alloc_ok cs s \<Longrightarrow> alloc_ok (take n cs) s"
proof (induction cs arbitrary: n s)
  case Nil
  then show ?case by simp
next
  case (Cons c cs)
  show ?case
  proof (cases n)
    case 0
    then show ?thesis by simp
  next
    case (Suc m)
    then show ?thesis using Cons.prems Cons.IH[of _ m] by (auto split: option.splits)
  qed
qed

lemma ex_calls_ok: "alloc_ok ex_calls Tree_new"
  by code_simp

text \<open>
  C1. Start from the empty tree and make any sequence of \<open>insert\<close> and \<open>erase\<close> calls
  (every \<open>new\<close> returning an address that is not null and not live). Then every call
  returns, and after each of them, that is after the first \<open>n\<close> calls for every \<open>n\<close>,
  \<open>is_valid()\<close> returns true and the store holds a tree whose root is black, in which
  no red node has a red child, and in which all paths from a node down to an absent
  child pass the same number of black nodes.
\<close>

theorem C1_is_valid_after_every_call:
  assumes "alloc_ok cs Tree_new"
  shows "\<exists>s t. run_calls (take n cs) Tree_new = Some s \<and> is_valid s = Some True
     \<and> abs_tree s t \<and> col t = BLACK \<and> invc t \<and> invh t"
proof -
  from run_inv[OF tree_inv_new alloc_ok_take[OF assms, of n]] obtain s t where
    r: "run_calls (take n cs) Tree_new = Some s" and i: "tree_inv s t" by blast
  from i have a: "abs_tree s t" and b: "rbt t" by (simp_all add: tree_inv_def)
  from is_valid_abs[OF a] b have "is_valid s = Some True" by simp
  then show ?thesis using r a b by (auto simp: rbt_def)
qed

theorem C1_is_valid_after_every_call_witness:
  "alloc_ok ex_calls Tree_new
   \<and> (\<exists>s t. run_calls (take 5 ex_calls) Tree_new = Some s \<and> is_valid s = Some True
        \<and> abs_tree s t \<and> col t = BLACK \<and> invc t \<and> invh t)"
  using C1_is_valid_after_every_call[OF ex_calls_ok, of 5] ex_calls_ok by simp

text \<open>
  C6. On a state that holds a red-black search tree with the values \<open>vals t\<close>,
  \<open>insert(v)\<close> returns false and leaves the state as it is when \<open>v\<close> is stored, and
  returns true and adds \<open>v\<close> otherwise; \<open>erase(v)\<close> returns false and leaves the state
  as it is when \<open>v\<close> is not stored, and returns true and removes \<open>v\<close> and nothing else
  otherwise. Both leave a state that holds a red-black search tree again.
\<close>

theorem C6_insert_erase_results:
  assumes "tree_inv s t" "heap s a = None" "a \<noteq> 0"
  shows "(\<exists>s' t'. insert_rb v a s = Some (v \<notin> set (vals t), s') \<and> tree_inv s' t'
            \<and> set (vals t') = insert v (set (vals t)) \<and> (v \<in> set (vals t) \<longrightarrow> s' = s))
     \<and> (\<exists>s' t'. erase v s = Some (v \<in> set (vals t), s') \<and> tree_inv s' t'
            \<and> set (vals t') = set (vals t) - {v} \<and> (v \<notin> set (vals t) \<longrightarrow> s' = s))"
  using insert_inv[OF assms, of v] erase_inv[OF assms(1), of v] by blast

theorem C6_insert_erase_results_witness:
  "tree_inv ex_state ex_tree \<and> heap ex_state 4 = None \<and> (4 :: addr) \<noteq> 0
   \<and> insert_rb 20 4 ex_state = Some (False, ex_state)
   \<and> (\<exists>s' t'. insert_rb 25 4 ex_state = Some (True, s') \<and> tree_inv s' t'
         \<and> set (vals t') = {10, 20, 25, 30})
   \<and> erase 25 ex_state = Some (False, ex_state)
   \<and> (\<exists>s' t'. erase 20 ex_state = Some (True, s') \<and> tree_inv s' t'
         \<and> set (vals t') = {10, 30})"
proof -
  have h: "heap ex_state 4 = None" by (simp add: ex_state_def)
  have n: "(4 :: addr) \<noteq> 0" by simp
  have v: "set (vals ex_tree) = {10, 20, 30}" by (auto simp: ex_tree_def)
  have "insert_rb 20 4 ex_state = Some (False, ex_state)"
    using C6_insert_erase_results[OF ex_inv h n, of 20] unfolding v by auto
  moreover have "\<exists>s' t'. insert_rb 25 4 ex_state = Some (True, s') \<and> tree_inv s' t'
         \<and> set (vals t') = {10, 20, 25, 30}"
    using C6_insert_erase_results[OF ex_inv h n, of 25] unfolding v by auto
  moreover have "erase 25 ex_state = Some (False, ex_state)"
    using C6_insert_erase_results[OF ex_inv h n, of 25] unfolding v by auto
  moreover have "\<exists>s' t'. erase 20 ex_state = Some (True, s') \<and> tree_inv s' t'
         \<and> set (vals t') = {10, 30}"
  proof -
    from C6_insert_erase_results[OF ex_inv h n, of 20] obtain s' t' where
      e: "erase 20 ex_state = Some (20 \<in> set (vals ex_tree), s')" "tree_inv s' t'"
        "set (vals t') = set (vals ex_tree) - {20}" by blast
    have "set (vals ex_tree) - {20} = {10, 30}" unfolding v by auto
    then show ?thesis using e unfolding v by auto
  qed
  ultimately show ?thesis using ex_inv h n by blast
qed

lemma walk_nil: "zst s fs t \<Longrightarrow> walk s Nil ds = Some Nil"
  by (induction ds) (simp_all add: nil_reads)

lemma walk_zst:
  "zst s fs t0 \<Longrightarrow> walk s (ptr_of t0) ds = Some (Ref a) \<Longrightarrow> \<exists>fs' l c v r. zst s fs' (Nd l a c v r)"
proof (induction ds arbitrary: fs t0)
  case Nil
  then obtain l c v r where "t0 = Nd l a c v r" by (cases t0) auto
  with Nil.prems(1) show ?case by blast
next
  case (Cons d ds)
  show ?case
  proof (cases t0)
    case Lf
    then show ?thesis using Cons.prems walk_nil[OF Cons.prems(1), of ds]
      by (cases d) (simp_all add: nil_reads[OF Cons.prems(1)])
  next
    case (Nd l x c v r)
    note z = Cons.prems(1)[unfolded Nd]
    show ?thesis
    proof (cases d)
      case True
      have zl: "zst s (LF x c v r # fs) l" using z by (simp add: zst_up)
      from Cons.prems(2) have "walk s (ptr_of l) ds = Some (Ref a)"
        using True Nd zst_reads(3)[OF z] by simp
      from Cons.IH[OF zl this] show ?thesis .
    next
      case False
      have zr: "zst s (RF l x c v # fs) r" using z by (simp add: zst_up)
      from Cons.prems(2) have "walk s (ptr_of r) ds = Some (Ref a)"
        using False Nd zst_reads(4)[OF z] by simp
      from Cons.IH[OF zr this] show ?thesis .
    qed
  qed
qed

lemma node_links:
  assumes z: "zst s fs (Nd l a c v r)"
  shows "left_child (Ref a) s = Some (Ref b) \<Longrightarrow> parent (Ref b) s = Some (Ref a)"
    "right_child (Ref a) s = Some (Ref b) \<Longrightarrow> parent (Ref b) s = Some (Ref a)"
    "(parent (Ref a) s = Some Nil) = (m_root s = Ref a)"
proof -
  note rd = zst_reads[OF z]
  have zl: "zst s (LF a c v r # fs) l" and zr: "zst s (RF l a c v # fs) r"
    using z by (simp_all add: zst_up)
  show "parent (Ref b) s = Some (Ref a)" if "left_child (Ref a) s = Some (Ref b)"
  proof -
    from that rd(3) obtain ll lc lv lr where "l = Nd ll b lc lv lr" by (cases l) auto
    then show ?thesis using zst_reads(1)[of s "LF a c v r # fs" ll b lc lv lr] zl by simp
  qed
  show "parent (Ref b) s = Some (Ref a)" if "right_child (Ref a) s = Some (Ref b)"
  proof -
    from that rd(4) obtain rl rc rv rr where "r = Nd rl b rc rv rr" by (cases r) auto
    then show ?thesis using zst_reads(1)[of s "RF l a c v # fs" rl b rc rv rr] zr by simp
  qed
  have "(ptop fs = Nil) = (fs = [])" by (cases fs) auto
  then show "(parent (Ref a) s = Some Nil) = (m_root s = Ref a)"
    using rd(1) zst_root_neq[OF z] by auto
qed

text \<open>
  C10. After every sequence of \<open>insert\<close> and \<open>erase\<close> calls from the empty tree the
  parent links fit the child links, in the sentinel tree of source/rb\_tree.hpp and in
  the augmented tree of unnamed/part\_003 alike: a node that a walk from the root
  reaches is the parent of its left child and of its right child, when it has them, and
  its own parent link is the absent marker (the sentinel in the first tree, the null
  pointer in the second) exactly when it is the root.
\<close>

theorem C10_parent_links:
  "(alloc_ok cs Tree_new \<longrightarrow> run_calls cs Tree_new = Some s
      \<longrightarrow> walk s (m_root s) ds = Some (Ref a) \<longrightarrow>
        (\<forall>b. left_child (Ref a) s = Some (Ref b) \<longrightarrow> parent (Ref b) s = Some (Ref a))
      \<and> (\<forall>b. right_child (Ref a) s = Some (Ref b) \<longrightarrow> parent (Ref b) s = Some (Ref a))
      \<and> ((parent (Ref a) s = Some Nil) = (m_root s = Ref a)))
   \<and> (alloc_ok_aug cs Tree_aug_new \<longrightarrow> run_calls_aug cs Tree_aug_new = Some sa
      \<longrightarrow> walk_aug sa (root_aug sa) ds = Some (Ref a) \<longrightarrow>
        (\<forall>b. left_child_aug (Ref a) sa = Some (Ref b) \<longrightarrow> parent_aug (Ref b) sa = Some (Ref a))
      \<and> (\<forall>b. right_child_aug (Ref a) sa = Some (Ref b) \<longrightarrow> parent_aug (Ref b) sa = Some (Ref a))
      \<and> ((parent_aug (Ref a) sa = Some Nil) = (root_aug sa = Ref a)))"
proof (intro conjI impI)
  assume as: "alloc_ok cs Tree_new" "run_calls cs Tree_new = Some s"
    "walk s (m_root s) ds = Some (Ref a)"
  from run_inv[OF tree_inv_new as(1)] as(2) obtain t where "tree_inv s t" by auto
  then have z: "zst s [] t" by (simp add: tree_inv_def abs_tree_def)
  then have "m_root s = ptr_of t" by (simp add: zst_def)
  with walk_zst[OF z, of ds a] as(3) obtain fs l c v r where
    z': "zst s fs (Nd l a c v r)" by auto
  from node_links[OF z']
  show "\<forall>b. left_child (Ref a) s = Some (Ref b) \<longrightarrow> parent (Ref b) s = Some (Ref a)"
    and "\<forall>b. right_child (Ref a) s = Some (Ref b) \<longrightarrow> parent (Ref b) s = Some (Ref a)"
    and "(parent (Ref a) s = Some Nil) = (m_root s = Ref a)" by blast+
next
  assume as: "alloc_ok_aug cs Tree_aug_new" "run_calls_aug cs Tree_aug_new = Some sa"
    "walk_aug sa (root_aug sa) ds = Some (Ref a)"
  from reach_aug[OF as(1)] as(2) obtain t where i: "aug_inv sa t" by auto
  from walk_aug_inv[OF i as(3)] obtain fs l c v r where
    z': "zst_aug sa fs (Nd l a c v r)" by blast
  from node_links_aug[OF z']
  show "\<forall>b. left_child_aug (Ref a) sa = Some (Ref b) \<longrightarrow> parent_aug (Ref b) sa = Some (Ref a)"
    and "\<forall>b. right_child_aug (Ref a) sa = Some (Ref b) \<longrightarrow> parent_aug (Ref b) sa = Some (Ref a)"
    and "(parent_aug (Ref a) sa = Some Nil) = (root_aug sa = Ref a)" by blast+
qed

theorem C10_parent_links_witness:
  "alloc_ok ex_calls Tree_new
   \<and> run_calls ex_calls Tree_new = Some (the (run_calls ex_calls Tree_new))
   \<and> walk (the (run_calls ex_calls Tree_new)) (m_root (the (run_calls ex_calls Tree_new))) [] = Some (Ref 2)
   \<and> left_child (Ref 2) (the (run_calls ex_calls Tree_new)) = Some (Ref 1)
   \<and> parent (Ref 1) (the (run_calls ex_calls Tree_new)) = Some (Ref 2)
   \<and> parent (Ref 2) (the (run_calls ex_calls Tree_new)) = Some Nil
   \<and> alloc_ok_aug ex_calls Tree_aug_new
   \<and> run_calls_aug ex_calls Tree_aug_new = Some (the (run_calls_aug ex_calls Tree_aug_new))
   \<and> walk_aug (the (run_calls_aug ex_calls Tree_aug_new))
        (root_aug (the (run_calls_aug ex_calls Tree_aug_new))) [] = Some (Ref 2)
   \<and> right_child_aug (Ref 2) (the (run_calls_aug ex_calls Tree_aug_new)) = Some (Ref 3)
   \<and> parent_aug (Ref 3) (the (run_calls_aug ex_calls Tree_aug_new)) = Some (Ref 2)
   \<and> parent_aug (Ref 2) (the (run_calls_aug ex_calls Tree_aug_new)) = Some Nil"
proof -
  define s where "s = the (run_calls ex_calls Tree_new :: int Tree option)"
  define sa where "sa = the (run_calls_aug ex_calls Tree_aug_new :: int Tree_aug option)"
  have "run_calls ex_calls Tree_new \<noteq> (None :: int Tree option)" by code_simp
  then have r: "run_calls ex_calls Tree_new = Some s" unfolding s_def by simp
  have w: "walk s (m_root s) [] = Some (Ref 2)" unfolding s_def by code_simp
  have l: "left_child (Ref 2) s = Some (Ref 1)" unfolding s_def by code_simp
  have m: "m_root s = Ref 2" using w by simp
  have oka: "alloc_ok_aug ex_calls Tree_aug_new" by code_simp
  have "run_calls_aug ex_calls Tree_aug_new \<noteq> (None :: int Tree_aug option)" by code_simp
  then have ra: "run_calls_aug ex_calls Tree_aug_new = Some sa" unfolding sa_def by simp
  have wa: "walk_aug sa (root_aug sa) [] = Some (Ref 2)" unfolding sa_def by code_simp
  have la: "right_child_aug (Ref 2) sa = Some (Ref 3)" unfolding sa_def by code_simp
  have ma: "root_aug sa = Ref 2" using wa by simp
  note c = C10_parent_links[of ex_calls s "[]" 2 sa]
  from c ex_calls_ok r w l m
  have "parent (Ref 1) s = Some (Ref 2) \<and> parent (Ref 2) s = Some Nil" by simp
  moreover from c oka ra wa la ma
  have "parent_aug (Ref 3) sa = Some (Ref 2) \<and> parent_aug (Ref 2) sa = Some Nil" by simp
  ultimately show ?thesis using ex_calls_ok r w l oka ra wa la unfolding s_def sa_def by simp
qed

lemma ex_calls_aug_ok: "alloc_ok_aug ex_calls Tree_aug_new"
  by code_simp

lemma live_take3: "live (take 3 ex_calls) {} = {10, 20, 30}"
  by (auto simp: ex_calls_def)

lemma live_take5: "live (take 5 ex_calls) {} = {10, 30}"
  by (auto simp: ex_calls_def)

lemma live_ex_calls: "live ex_calls {} = {10, 25, 30}"
  by (auto simp: ex_calls_def)

lemma size_aug_abs:
  assumes "aug_inv s t"
  shows "\<exists>k. size_aug s = Some k \<and> unat k = card (set (vals t))"
proof -
  from assms have a: "abs_aug s t" and b: "bst t" and sz: "szs s t"
    and z: "0 \<notin> fst ` set (nodes t)" by (simp_all add: aug_inv_def)
  have r: "root_aug s = ptr_of t" using a by (simp add: abs_aug_def zst_aug_def)
  have k: "size_aug s = Some (of_nat (length (nodes t)))"
    using nodes_len_szs[OF sz] r by (simp add: size_aug_def)
  have bd: "length (nodes t) < 2 ^ 64" using tree_size_bound[OF aug_inv_distinct[OF assms] z] .
  have u: "unat (of_nat (length (nodes t)) :: 64 word) = length (nodes t)"
    by (rule of_nat_inverse[OF refl]) (use bd in simp)
  have "card (set (vals t)) = length (vals t)" by (rule distinct_card[OF bst_distinct[OF b]])
  then show ?thesis using k u by simp
qed

text \<open>
  C5. Start from the empty augmented tree and make any sequence of \<open>insert\<close> and
  \<open>erase\<close> calls (every \<open>new\<close> returning an address that is not null and not live).
  Then every call returns, and after each of them, that is after the first \<open>n\<close> calls
  for every \<open>n\<close>: every node a walk along child links from the root reaches stores a
  size that is 1 plus the sizes its two children store, an absent child counting 0; and
  \<open>size()\<close> is the number of values that were inserted and not erased afterwards.
\<close>

theorem C5_subtree_sizes:
  assumes "alloc_ok_aug cs Tree_aug_new"
  shows "\<exists>s k. run_calls_aug (take n cs) Tree_aug_new = Some s
     \<and> (\<forall>ds a. walk_aug s (root_aug s) ds = Some (Ref a) \<longrightarrow> cons_aug s (Ref a))
     \<and> size_aug s = Some k \<and> unat k = card (live (take n cs) {})"
proof -
  from reach_aug[OF alloc_ok_aug_take[OF assms, of n]] obtain s t where
    r: "run_calls_aug (take n cs) Tree_aug_new = Some s" and i: "aug_inv s t"
    and v: "set (vals t) = live (take n cs) {}" by blast
  from i have sz: "szs s t" by (simp add: aug_inv_def)
  have "cons_aug s (Ref a)" if w: "walk_aug s (root_aug s) ds = Some (Ref a)" for ds a
  proof -
    from walk_aug_inv[OF i w] obtain fs l c x rt where
      z: "zst_aug s fs (Nd l a c x rt)" and p: "plug fs (Nd l a c x rt) = t" by blast
    from cons_aug_zst(1)[OF z] sz p show ?thesis by simp
  qed
  moreover from size_aug_abs[OF i] v
  have "\<exists>k. size_aug s = Some k \<and> unat k = card (live (take n cs) {})" by simp
  ultimately show ?thesis using r by blast
qed

theorem C5_subtree_sizes_witness:
  "alloc_ok_aug ex_calls Tree_aug_new
   \<and> (\<exists>s. run_calls_aug (take 5 ex_calls) Tree_aug_new = Some s
        \<and> walk_aug s (root_aug s) [] = Some (Ref 3) \<and> cons_aug s (Ref 3)
        \<and> walk_aug s (root_aug s) [True] = Some (Ref 1) \<and> cons_aug s (Ref 1)
        \<and> subtree_size_aug (Ref 3) s = Some 2 \<and> subtree_size_aug (Ref 1) s = Some 1
        \<and> (\<exists>k. size_aug s = Some k \<and> unat k = 2))"
proof -
  from C5_subtree_sizes[OF ex_calls_aug_ok, of 5] obtain s k where
    r: "run_calls_aug (take 5 ex_calls) Tree_aug_new = Some s"
    and c: "\<forall>ds a. walk_aug s (root_aug s) ds = Some (Ref a) \<longrightarrow> cons_aug s (Ref a)"
    and k: "size_aug s = Some k" "unat k = card (live (take 5 ex_calls) {})" by blast
  have e: "s = the (run_calls_aug (take 5 ex_calls) Tree_aug_new)" using r by simp
  have w1: "walk_aug s (root_aug s) [] = Some (Ref 3)" unfolding e by code_simp
  have w2: "walk_aug s (root_aug s) [True] = Some (Ref 1)" unfolding e by code_simp
  have z: "subtree_size_aug (Ref 3) s = Some 2" "subtree_size_aug (Ref 1) s = Some 1"
    unfolding e by code_simp+
  have "unat k = 2" using k(2) unfolding live_take5 by simp
  then show ?thesis using ex_calls_aug_ok r c w1 w2 z k(1) by blast
qed

text \<open>
  C9. After every sequence of \<open>insert\<close> and \<open>erase\<close> calls from the empty augmented
  tree, and for \<open>first > second\<close> false, the rank \<open>distance\<close> computes with
  \<open>compare_lower_bound\<close> at \<open>first\<close>, the number of stored values below \<open>first\<close>, is
  at most the rank it computes with \<open>compare_upper_bound\<close> at \<open>second\<close>, the number of
  stored values not above \<open>second\<close>. So the \<open>assert\<close> holds, \<open>distance\<close> returns, and
  the subtraction does not wrap: the result is the number of stored values from
  \<open>first\<close> to \<open>second\<close>.
\<close>

theorem C9_distance_ranks_ordered:
  assumes "alloc_ok_aug cs Tree_aug_new" "\<not> first > second"
  shows "\<exists>s r1 r2. run_calls_aug cs Tree_aug_new = Some s
     \<and> rank_comp_bound first compare_lower_bound s = Some r1
     \<and> rank_comp_bound second compare_upper_bound s = Some r2
     \<and> r1 \<le> r2 \<and> distance_aug first second s = Some (r2 - r1)
     \<and> unat r1 = card {x \<in> live cs {}. x < first}
     \<and> unat r2 = card {x \<in> live cs {}. x \<le> second}
     \<and> unat (r2 - r1) = unat r2 - unat r1
     \<and> unat (r2 - r1) = card {x \<in> live cs {}. first \<le> x \<and> x \<le> second}"
proof -
  from reach_aug[OF assms(1)] obtain s t where
    r: "run_calls_aug cs Tree_aug_new = Some s" and i: "aug_inv s t"
    and v: "set (vals t) = live cs {}" by blast
  from distance_aug_abs[OF i assms(2)] obtain r1 r2 where
    d: "rank_comp_bound first compare_lower_bound s = Some r1"
      "rank_comp_bound second compare_upper_bound s = Some r2"
      "r1 \<le> r2" "distance_aug first second s = Some (r2 - r1)"
      "unat r1 = card {x \<in> set (vals t). x < first}"
      "unat r2 = card {x \<in> set (vals t). x \<le> second}"
      "unat (r2 - r1) = card {x \<in> set (vals t). first \<le> x \<and> x \<le> second}" by blast
  have "unat (r2 - r1) = unat r2 - unat r1" using d(3) by (rule unat_sub)
  with r d show ?thesis unfolding v by blast
qed

theorem C9_distance_ranks_ordered_witness:
  "alloc_ok_aug ex_calls Tree_aug_new \<and> \<not> (25 :: int) > 30
   \<and> (\<exists>s r1 r2. run_calls_aug ex_calls Tree_aug_new = Some s
        \<and> rank_comp_bound 25 compare_lower_bound s = Some r1
        \<and> rank_comp_bound 30 compare_upper_bound s = Some r2
        \<and> r1 \<le> r2 \<and> distance_aug 25 30 s = Some (r2 - r1)
        \<and> unat r1 = 1 \<and> unat r2 = 3 \<and> unat (r2 - r1) = 2)"
proof -
  have c1: "{x \<in> {10, 25, 30 :: int}. x < 25} = {10}" by auto
  have c2: "{x \<in> {10, 25, 30 :: int}. x \<le> 30} = {10, 25, 30}" by auto
  have n: "\<not> (25 :: int) > 30" by simp
  from C9_distance_ranks_ordered[OF ex_calls_aug_ok n] show ?thesis
    unfolding live_ex_calls c1 c2 using ex_calls_aug_ok by auto
qed

lemma rel_aug_unique:
  "rel_aug s p t \<Longrightarrow> rel_aug s p' t' \<Longrightarrow> ptr_of t = ptr_of t' \<Longrightarrow> t = t'"
proof (induction t arbitrary: t' p p')
  case Lf
  then show ?case by (cases t') auto
next
  case (Nd l a c v r)
  then obtain l' c' v' r' where t': "t' = Nd l' a c' v' r'" by (cases t') auto
  from Nd.prems t' have e: "c' = c" "v' = v" "ptr_of l = ptr_of l'" "ptr_of r = ptr_of r'"
    and rl: "rel_aug s (Ref a) l" "rel_aug s (Ref a) l'"
    and rr: "rel_aug s (Ref a) r" "rel_aug s (Ref a) r'" by auto
  from Nd.IH(1)[OF rl e(3)] Nd.IH(2)[OF rr e(4)] e t' show ?case by simp
qed

lemma abs_aug_unique: "abs_aug s t \<Longrightarrow> abs_aug s t' \<Longrightarrow> t = t'"
  using rel_aug_unique[of s Nil t Nil t'] by (simp add: abs_aug_def zst_aug_def)

text \<open>
  C7. After every sequence of \<open>insert\<close> and \<open>erase\<close> calls from the empty augmented
  tree the store holds a tree \<open>t\<close> of the values that were inserted and not erased, and
  the loop from \<open>begin()\<close> to \<open>end()\<close> returns and yields these values in in-order,
  each once and in strictly increasing order. The successor \<open>next\<close> computes for a
  node is the minimum of its right subtree when the node has a right child, and
  otherwise the nearest ancestor that is reached by a step up from a left child, or the
  null pointer of \<open>end()\<close> when there is none.
\<close>

theorem C7_iteration_in_order:
  assumes "alloc_ok_aug cs Tree_aug_new"
  shows "\<exists>s t. run_calls_aug cs Tree_aug_new = Some s \<and> abs_aug s t
     \<and> set (vals t) = live cs {}
     \<and> iterate s = Some (vals t) \<and> sorted_wrt (<) (vals t) \<and> distinct (vals t)
     \<and> (\<forall>fs l a c v r. plug fs (Nd l a c v r) = t \<longrightarrow>
          right_child_aug (Ref a) s = Some (ptr_of r)
          \<and> next_aug (Ref a) s
              = (if ptr_of r \<noteq> Nil then minimum_aug (ptr_of r) s else Some (left_anc fs)))"
proof -
  from reach_aug[OF assms] obtain s t where
    r: "run_calls_aug cs Tree_aug_new = Some s" and i: "aug_inv s t"
    and v: "set (vals t) = live cs {}" by blast
  from i have a: "abs_aug s t" and b: "bst t" by (simp_all add: aug_inv_def)
  have "right_child_aug (Ref a) s = Some (ptr_of r)
      \<and> next_aug (Ref a) s
          = (if ptr_of r \<noteq> Nil then minimum_aug (ptr_of r) s else Some (left_anc fs))"
    if p: "plug fs (Nd l a c v r) = t" for fs l a c v r
  proof -
    have z: "zst_aug s fs (Nd l a c v r)" using a p by (simp flip: abs_aug_plug)
    have rr: "rel_aug s (Ref a) r" using z by (simp add: zst_aug_def)
    have e: "(ptr_of r \<noteq> Nil) = (r \<noteq> Lf)" by (cases r) auto
    show ?thesis
      using zst_aug_reads(4)[OF z] next_aug_zst(1)[OF z] minimum_aug_rel[OF rr]
        amin_first[of r "[]"] e by auto
  qed
  then show ?thesis using r a v iterate_abs[OF a] b bst_distinct[OF b]
    by (auto simp: bst_def)
qed

theorem C7_iteration_in_order_witness:
  "alloc_ok_aug ex_calls Tree_aug_new
   \<and> (\<exists>s. run_calls_aug ex_calls Tree_aug_new = Some s
        \<and> abs_aug s (Nd (Nd Lf 1 RED 10 Lf) 2 BLACK 25 (Nd Lf 3 RED 30 Lf))
        \<and> iterate s = Some [10, 25, 30]
        \<and> next_aug (Ref 1) s = Some (Ref 2)
        \<and> next_aug (Ref 2) s = minimum_aug (Ref 3) s
        \<and> next_aug (Ref 3) s = Some Nil)"
proof -
  let ?t = "Nd (Nd Lf 1 RED 10 Lf) 2 BLACK 25 (Nd Lf 3 RED (30 :: int) Lf)"
  from C7_iteration_in_order[OF ex_calls_aug_ok] obtain s t where
    r: "run_calls_aug ex_calls Tree_aug_new = Some s" and a: "abs_aug s t"
    and it: "iterate s = Some (vals t)"
    and nx: "\<forall>fs l a c v r. plug fs (Nd l a c v r) = t \<longrightarrow>
          right_child_aug (Ref a) s = Some (ptr_of r)
          \<and> next_aug (Ref a) s
              = (if ptr_of r \<noteq> Nil then minimum_aug (ptr_of r) s else Some (left_anc fs))"
    by blast
  have e: "s = the (run_calls_aug ex_calls Tree_aug_new)" using r by simp
  have st: "root_aug s = Ref 2"
    "store s 1 = Some \<lparr>n_base = \<lparr>n_color = RED, n_left = Nil, n_right = Nil, n_parent = Ref 2,
        n_subtree_size = 1\<rparr>, n_value = 10\<rparr>"
    "store s 2 = Some \<lparr>n_base = \<lparr>n_color = BLACK, n_left = Ref 1, n_right = Ref 3, n_parent = Nil,
        n_subtree_size = 3\<rparr>, n_value = 25\<rparr>"
    "store s 3 = Some \<lparr>n_base = \<lparr>n_color = RED, n_left = Nil, n_right = Nil, n_parent = Ref 2,
        n_subtree_size = 1\<rparr>, n_value = 30\<rparr>"
    unfolding e by code_simp+
  have "abs_aug s ?t" using st by (simp add: abs_aug_def zst_aug_def)
  from abs_aug_unique[OF a this] have t: "t = ?t" .
  have p1: "plug [LF 2 BLACK 25 (Nd Lf 3 RED 30 Lf)] (Nd Lf 1 RED 10 Lf) = t"
    and p2: "plug [] (Nd (Nd Lf 1 RED 10 Lf) 2 BLACK 25 (Nd Lf 3 RED 30 Lf)) = t"
    and p3: "plug [RF (Nd Lf 1 RED 10 Lf) 2 BLACK 25] (Nd Lf 3 RED 30 Lf) = t"
    unfolding t by simp_all
  have "iterate s = Some [10, 25, 30]" using it t by simp
  moreover from nx p1 have "next_aug (Ref 1) s = Some (Ref 2)" by fastforce
  moreover from nx p2 have "next_aug (Ref 2) s = minimum_aug (Ref 3) s" by fastforce
  moreover from nx p3 have "next_aug (Ref 3) s = Some Nil" by fastforce
  ultimately show ?thesis using ex_calls_aug_ok r a t by blast
qed

end
